(* ===== verification/Topo_Prelude.thy ===== *)
theory Topo_Prelude
  imports Main "HOL-Library.Word"
begin

text \<open>
  Shared vocabulary of the development: the machine integers of the Rust sources, the
  checked, wrapping and saturating arithmetic of the Rust standard library, the result
  type, and generic lemmas on lists, options and powers of two.

  A \<open>usize\<close>, \<open>u64\<close>, \<open>u32\<close> or \<open>u16\<close> that the code uses as a size, an address, a
  counter or an index is a natural number. The bound of its width is written out where the
  code can reach it: a checked operation returns \<^const>\<open>None\<close>, a wrapping one reduces
  modulo the width, a saturating one stops at the maximum. Flag words, bitmap words and
  checksums, which the code handles bitwise, are \<open>word\<close>s. The targets are 64-bit.
\<close>

unbundle bit_operations_syntax

type_synonym usize = nat
type_synonym addr = nat
type_synonym u64w = "64 word"
type_synonym u32w = "32 word"

named_theorems checked_simps \<open>elimination of checked arithmetic\<close>
named_theorems result_simps \<open>early returns: when a chain of guards yields a given result\<close>
named_theorems inv_intros \<open>introduction rules for component invariants\<close>
named_theorems inv_dests \<open>what a component invariant gives\<close>

section \<open>Results\<close>

text \<open>
  \<open>Panic\<close> is a Rust panic (an index out of bounds, a division by zero, a failed
  \<open>assert!\<close> or \<open>expect\<close>); \<open>Ret\<close> is a normal return. A \<open>Result<T, E>\<close> is the sum
  \<open>'e + 'a\<close>, with \<open>Inl\<close> for \<open>Err\<close>.
\<close>

datatype 'a outcome = Ret 'a | Panic

fun bind_outcome :: "'a outcome \<Rightarrow> ('a \<Rightarrow> 'b outcome) \<Rightarrow> 'b outcome" where
  "bind_outcome (Ret a) f = f a"
| "bind_outcome Panic f = Panic"

text \<open>A loop whose body may panic.\<close>

fun fold_outcome :: "('a \<Rightarrow> 's \<Rightarrow> 's outcome) \<Rightarrow> 'a list \<Rightarrow> 's \<Rightarrow> 's outcome" where
  "fold_outcome f [] s = Ret s"
| "fold_outcome f (x # xs) s = bind_outcome (f x s) (fold_outcome f xs)"

lemma fold_outcome_append:
  "fold_outcome f (xs @ ys) s = bind_outcome (fold_outcome f xs s) (fold_outcome f ys)"
proof (induction xs arbitrary: s)
  case (Cons x xs)
  then show ?case by (cases "f x s") simp_all
qed simp

text \<open>\<open>xs[i]\<close> of a slice: an index out of range panics. \<open>get\<close> is \<open>slice::get\<close>.\<close>

definition index :: "'a list \<Rightarrow> nat \<Rightarrow> 'a outcome" where
  "index xs i = (if i < length xs then Ret (xs ! i) else Panic)"

definition get :: "'a list \<Rightarrow> nat \<Rightarrow> 'a option" where
  "get xs i = (if i < length xs then Some (xs ! i) else None)"

lemma index_in_range [simp]: "i < length xs \<Longrightarrow> index xs i = Ret (xs ! i)"
  by (simp add: index_def)

lemma get_in_range [simp]: "i < length xs \<Longrightarrow> get xs i = Some (xs ! i)"
  by (simp add: get_def)

lemma get_Some_iff: "get xs i = Some x \<longleftrightarrow> i < length xs \<and> x = xs ! i"
  by (auto simp: get_def)

lemma get_None_iff [simp]: "get xs i = None \<longleftrightarrow> length xs \<le> i"
  by (auto simp: get_def)

text \<open>A chain of early returns reaches its result only past every guard.\<close>

lemma if_Inl_eq_Inr [result_simps]: "(if P then Inl e else x) = Inr r \<longleftrightarrow> \<not> P \<and> x = Inr r"
  by simp

lemma if_None_eq_Some [result_simps]: "(if P then None else x) = Some r \<longleftrightarrow> \<not> P \<and> x = Some r"
  by simp

lemma if_Some_eq_None [result_simps]: "(if P then Some e else x) = None \<longleftrightarrow> \<not> P \<and> x = None"
  by simp

lemma case_option_Inl_eq_Inr [result_simps]:
  "(case c of None \<Rightarrow> x | Some e \<Rightarrow> Inl (f e)) = Inr r \<longleftrightarrow> c = None \<and> x = Inr r"
  by (cases c) auto

lemma case_sum_Inl_eq_Inr [result_simps]:
  "(case c of Inl e \<Rightarrow> Inl (f e) | Inr a \<Rightarrow> g a) = Inr r \<longleftrightarrow> (\<exists>a. c = Inr a \<and> g a = Inr r)"
  by (cases c) auto

lemma case_option_None_eq_Some [result_simps]:
  "(case c of None \<Rightarrow> None | Some a \<Rightarrow> g a) = Some r \<longleftrightarrow> (\<exists>a. c = Some a \<and> g a = Some r)"
  by (cases c) auto

section \<open>Widths\<close>

definition USIZE_MAX :: nat where
  "USIZE_MAX = 2 ^ 64 - 1"

definition U64_MAX :: nat where
  "U64_MAX = 2 ^ 64 - 1"

definition U32_MAX :: nat where
  "U32_MAX = 2 ^ 32 - 1"

abbreviation is_usize :: "nat \<Rightarrow> bool" where
  "is_usize n \<equiv> n < 2 ^ 64"

abbreviation is_u32 :: "nat \<Rightarrow> bool" where
  "is_u32 n \<equiv> n < 2 ^ 32"

section \<open>Checked, wrapping and saturating arithmetic\<close>

text \<open>\<open>usize::checked_add\<close>, \<open>checked_mul\<close>, \<open>checked_sub\<close>.\<close>

definition checked_add :: "usize \<Rightarrow> usize \<Rightarrow> usize option" where
  "checked_add a b = (if a + b \<le> USIZE_MAX then Some (a + b) else None)"

definition checked_mul :: "usize \<Rightarrow> usize \<Rightarrow> usize option" where
  "checked_mul a b = (if a * b \<le> USIZE_MAX then Some (a * b) else None)"

definition checked_sub :: "usize \<Rightarrow> usize \<Rightarrow> usize option" where
  "checked_sub a b = (if b \<le> a then Some (a - b) else None)"

text \<open>The operations of an unsigned integer of width \<open>w\<close> that wrap or saturate.\<close>

definition wrapping_add :: "nat \<Rightarrow> nat \<Rightarrow> nat \<Rightarrow> nat" where
  "wrapping_add w a b = (a + b) mod 2 ^ w"

definition wrapping_sub :: "nat \<Rightarrow> nat \<Rightarrow> nat \<Rightarrow> nat" where
  "wrapping_sub w a b = (a + 2 ^ w - b) mod 2 ^ w"

definition saturating_add :: "nat \<Rightarrow> nat \<Rightarrow> nat \<Rightarrow> nat" where
  "saturating_add w a b = min (a + b) (2 ^ w - 1)"

definition saturating_sub :: "nat \<Rightarrow> nat \<Rightarrow> nat" where
  "saturating_sub a b = a - b"

text \<open>The complement \<open>!m\<close> of a \<open>usize\<close>.\<close>

definition not_usize :: "usize \<Rightarrow> usize" where
  "not_usize m = USIZE_MAX - m"

lemma checked_add_Some [checked_simps]:
  "checked_add a b = Some c \<longleftrightarrow> c = a + b \<and> is_usize (a + b)"
  by (auto simp: checked_add_def USIZE_MAX_def)

lemma checked_add_None [checked_simps]: "checked_add a b = None \<longleftrightarrow> \<not> is_usize (a + b)"
  by (auto simp: checked_add_def USIZE_MAX_def)

lemma checked_mul_Some [checked_simps]:
  "checked_mul a b = Some c \<longleftrightarrow> c = a * b \<and> is_usize (a * b)"
  by (auto simp: checked_mul_def USIZE_MAX_def)

lemma checked_mul_None [checked_simps]: "checked_mul a b = None \<longleftrightarrow> \<not> is_usize (a * b)"
  by (auto simp: checked_mul_def USIZE_MAX_def)

lemma checked_sub_Some [checked_simps]: "checked_sub a b = Some c \<longleftrightarrow> c = a - b \<and> b \<le> a"
  by (auto simp: checked_sub_def)

lemma wrapping_add_bound [simp]: "wrapping_add w a b < 2 ^ w"
  by (simp add: wrapping_add_def)

lemma wrapping_add_exact [simp]: "a + b < 2 ^ w \<Longrightarrow> wrapping_add w a b = a + b"
  by (simp add: wrapping_add_def)

lemma wrapping_sub_bound [simp]: "wrapping_sub w a b < 2 ^ w"
  by (simp add: wrapping_sub_def)

lemma wrapping_sub_exact [simp]:
  assumes "b \<le> a" and "a < 2 ^ w"
  shows "wrapping_sub w a b = a - b"
proof -
  have "a + 2 ^ w - b = (a - b) + 2 ^ w" using assms(1) by simp
  then have "wrapping_sub w a b = ((a - b) + 2 ^ w) mod 2 ^ w"
    by (simp only: wrapping_sub_def)
  also have "\<dots> = (a - b) mod 2 ^ w" by (rule mod_add_self2)
  also have "\<dots> = a - b" using assms(2) by (intro mod_less) simp
  finally show ?thesis .
qed

section \<open>Powers of two\<close>

text \<open>
  \<open>is_power_of_two\<close> is the bit test of the standard library: a nonzero value whose lowest
  set bit is its only one.
\<close>

definition is_power_of_two :: "nat \<Rightarrow> bool" where
  "is_power_of_two n \<longleftrightarrow> n \<noteq> 0 \<and> n AND (n - 1) = 0"

lemma and_pred_even: "0 < m \<Longrightarrow> (2 * m) AND (2 * m - 1) = 2 * (m AND (m - 1))" for m :: nat
proof -
  assume "0 < m"
  then obtain k where m: "m = Suc k" by (cases m) auto
  have "(2 * m - 1) div 2 = m - 1" by (simp add: m)
  then show ?thesis by (subst and_nat_rec) simp
qed

lemma is_power_of_two_iff: "is_power_of_two n \<longleftrightarrow> (\<exists>k. n = 2 ^ k)"
proof
  assume "is_power_of_two n"
  then show "\<exists>k. n = 2 ^ k"
  proof (induction n rule: less_induct)
    case (less n)
    show ?case
    proof (cases "even n")
      case True
      then obtain m where m: "n = 2 * m" by blast
      with less.prems have "0 < m" by (auto simp: is_power_of_two_def)
      with less.prems m have "is_power_of_two m"
        using and_pred_even [of m] by (simp add: is_power_of_two_def)
      with less.IH [of m] m \<open>0 < m\<close> obtain k where "m = 2 ^ k" by auto
      with m have "n = 2 ^ Suc k" by simp
      then show ?thesis by blast
    next
      case False
      then obtain m where m: "n = 2 * m + 1" by (metis oddE)
      have "n AND (n - 1) = 2 * (m AND m)"
        using m by (subst and_nat_rec) simp
      with less.prems m have "n = 2 ^ 0" by (simp add: is_power_of_two_def)
      then show ?thesis by blast
    qed
  qed
next
  assume "\<exists>k. n = 2 ^ k"
  then obtain k where k: "n = 2 ^ k" by blast
  have "(2 ^ k :: nat) AND (2 ^ k - 1) = 0"
    using take_bit_eq_mask [of k "2 ^ k :: nat"] by (simp add: mask_eq_exp_minus_1)
  with k show "is_power_of_two n" by (simp add: is_power_of_two_def)
qed

lemma is_power_of_two_pos: "is_power_of_two n \<Longrightarrow> 0 < n"
  by (simp add: is_power_of_two_def)

lemma power_two_less_iff: "(2::nat) ^ i < 2 ^ j \<longleftrightarrow> i < j"
  by simp

lemma is_power_of_two_dvd_width:
  assumes "is_power_of_two a" and "is_usize a"
  shows "a dvd 2 ^ 64"
proof -
  from assms(1) obtain k where k: "a = 2 ^ k" by (auto simp: is_power_of_two_iff)
  with assms(2) have "k < 64" by (simp only: power_two_less_iff)
  then have "k \<le> 64" by simp
  then show ?thesis unfolding k by (rule le_imp_power_dvd)
qed

lemma power_of_two_dvd:
  assumes "is_power_of_two a" and "is_power_of_two b" and "a \<le> b"
  shows "a dvd b"
proof -
  obtain i j where ij: "a = 2 ^ i" "b = 2 ^ j"
    using assms by (auto simp: is_power_of_two_iff)
  with assms(3) have "i \<le> j" by simp
  then show ?thesis unfolding ij by (rule le_imp_power_dvd)
qed

text \<open>Masking with \<open>!(a - 1)\<close> rounds down to a multiple of a power of two \<open>a\<close>.\<close>

lemma and_high_mask:
  fixes s :: nat
  assumes "k \<le> w" and "s < 2 ^ w"
  shows "s AND (2 ^ w - 2 ^ k) = s div 2 ^ k * 2 ^ k"
proof -
  have "(2::nat) ^ k * 2 ^ (w - k) = 2 ^ w"
    using assms(1) by (simp flip: power_add)
  then have "push_bit k (mask (w - k)) = (2::nat) ^ w - 2 ^ k"
    by (simp add: push_bit_eq_mult mask_eq_exp_minus_1 mult.commute [of _ "2 ^ k"]
        diff_mult_distrib2)
  moreover have "bit (push_bit k (mask (w - k)) :: nat) i \<longleftrightarrow> k \<le> i \<and> i < w" for i
    using assms(1) by (auto simp: bit_push_bit_iff_nat bit_mask_iff)
  ultimately have bits: "bit ((2::nat) ^ w - 2 ^ k) i \<longleftrightarrow> k \<le> i \<and> i < w" for i
    by simp
  have "take_bit w s = s"
    using assms(2) by (simp add: take_bit_nat_eq_self)
  then have "bit s i \<Longrightarrow> i < w" for i
    by (metis bit_take_bit_iff)
  then have "s AND (2 ^ w - 2 ^ k) = push_bit k (drop_bit k s)"
    by (intro bit_eqI) (auto simp: bit_and_iff bits bit_push_bit_iff_nat bit_drop_bit_eq)
  then show ?thesis
    by (simp add: push_bit_eq_mult drop_bit_eq_div)
qed

lemma and_not_mask:
  assumes "is_power_of_two a" and "is_usize a" and "is_usize s"
  shows "s AND not_usize (a - 1) = s div a * a"
proof -
  obtain k where k: "a = 2 ^ k" using assms(1) by (auto simp: is_power_of_two_iff)
  with assms(2) have "k < 64" by (simp only: power_two_less_iff)
  then have "k \<le> 64" by simp
  moreover have "not_usize (a - 1) = 2 ^ 64 - 2 ^ k"
    using k by (simp add: not_usize_def USIZE_MAX_def)
  ultimately show ?thesis
    using and_high_mask [of k 64 s] assms(3) k by (simp only:)
qed

section \<open>Bit fields of a word\<close>

lemma word_bits_eq: "(a :: 'a::len word) = b \<longleftrightarrow> (\<forall>n. bit a n = bit b n)"
  by (auto intro: bit_eqI)

text \<open>A field of \<open>w\<close> bits at position \<open>s\<close>: what is written is read back, other fields keep
  their bits.\<close>

definition field_mask :: "nat \<Rightarrow> nat \<Rightarrow> 'a::len word" where
  "field_mask s w = push_bit s (mask w)"

definition field_put :: "nat \<Rightarrow> nat \<Rightarrow> 'a::len word \<Rightarrow> 'a word \<Rightarrow> 'a word" where
  "field_put s w v x = (x AND NOT (field_mask s w)) OR push_bit s v"

definition field_get :: "nat \<Rightarrow> nat \<Rightarrow> 'a::len word \<Rightarrow> 'a word" where
  "field_get s w x = drop_bit s (x AND field_mask s w)"

lemma bit_field_mask [simp]:
  "bit (field_mask s w :: 'a::len word) n \<longleftrightarrow> s \<le> n \<and> n < s + w \<and> n < LENGTH('a)"
  by (auto simp: field_mask_def bit_simps)

lemma bit_field_get [simp]:
  "bit (field_get s w x) n \<longleftrightarrow> n < w \<and> bit (x :: 'a::len word) (s + n)"
  by (auto simp: field_get_def bit_simps dest: bit_imp_le_length)

lemma bit_field_put [simp]:
  "bit (field_put s w v x) n \<longleftrightarrow>
     (if s \<le> n \<and> n < s + w then bit (v :: 'a::len word) (n - s) \<and> n < LENGTH('a)
      else bit x n \<or> (s \<le> n \<and> n < LENGTH('a) \<and> bit v (n - s)))"
  by (auto simp: field_put_def bit_simps dest: bit_imp_le_length)

lemma field_get_put_same:
  assumes "s + w \<le> LENGTH('a)" and "take_bit w v = (v :: 'a::len word)"
  shows "field_get s w (field_put s w v x) = v"
proof -
  have "bit v n \<Longrightarrow> n < w" for n using assms(2) by (metis bit_take_bit_iff)
  with assms(1) show ?thesis by (auto simp: word_bits_eq)
qed

lemma field_get_put_other:
  assumes "s + w \<le> s' \<or> s' + w' \<le> s" and "take_bit w v = (v :: 'a::len word)"
  shows "field_get s' w' (field_put s w v x) = field_get s' w' x"
proof -
  have v: "bit v n \<Longrightarrow> n < w" for n using assms(2) by (metis bit_take_bit_iff)
  have "\<not> bit v (s' + n - s)" if "n < w'" "s \<le> s' + n" for n
    using assms(1) that v [of "s' + n - s"] by auto
  with assms(1) show ?thesis by (auto simp: word_bits_eq)
qed

lemma field_put_outside:
  assumes "take_bit w v = (v :: 'a::len word)" and "field_mask s w AND m = 0"
  shows "field_put s w v x AND m = x AND m"
proof -
  have v: "bit v n \<Longrightarrow> n < w" for n using assms(1) by (metis bit_take_bit_iff)
  have m: "\<not> bit m n" if "s \<le> n" "n < s + w" for n
    using assms(2) that by (auto simp: word_bits_eq bit_simps dest: bit_imp_le_length)
  have "bit m n \<Longrightarrow> s \<le> n \<Longrightarrow> \<not> bit v (n - s)" for n
    using m [of n] v [of "n - s"] less_diff_conv2 [of s n w] by (auto simp: add.commute)
  with m show ?thesis by (auto simp: word_bits_eq bit_simps)
qed

end
