(* ===== verification/Overflow.thy ===== *)
theory Overflow
  imports Topo_Prelude
begin

text \<open>
  \<open>crates/topo-core/src/overflow.rs\<close>: the rounding helpers every size computation goes
  through. The theorems say that each returns the exact mathematical result or
  \<^const>\<open>None\<close>, never a wrapped value.
\<close>

definition align_up :: "usize \<Rightarrow> usize \<Rightarrow> usize option" where
  "align_up value align =
     (let mask = wrapping_sub 64 align 1
      in case checked_add value mask of
           None \<Rightarrow> None
         | Some s \<Rightarrow> Some (s AND not_usize mask))"

definition array_bytes :: "usize \<Rightarrow> usize \<Rightarrow> usize option" where
  "array_bytes n elem_size = checked_mul n elem_size"

definition pages_for :: "usize \<Rightarrow> usize \<Rightarrow> usize option" where
  "pages_for bytes page_size =
     (case align_up bytes page_size of
        None \<Rightarrow> None
      | Some r \<Rightarrow> Some (r div page_size))"

text \<open>For a power of two the mask arithmetic is rounding up to a multiple.\<close>

lemma align_up_eq:
  assumes "is_power_of_two a" and "is_usize a"
  shows "align_up v a =
    (if is_usize (v + (a - 1)) then Some ((v + (a - 1)) div a * a) else None)"
proof -
  have "1 \<le> a" using assms(1) is_power_of_two_pos by fastforce
  then have m: "wrapping_sub 64 a 1 = a - 1"
    using assms(2) by (rule wrapping_sub_exact)
  have "is_usize (v + (a - 1)) \<Longrightarrow>
      (v + (a - 1)) AND not_usize (a - 1) = (v + (a - 1)) div a * a"
    using assms by (rule and_not_mask)
  then show ?thesis
    unfolding align_up_def m Let_def checked_add_def USIZE_MAX_def by (auto split: if_splits)
qed

lemma round_up_least:
  fixes a v :: nat
  assumes "0 < a"
  defines "r \<equiv> (v + (a - 1)) div a * a"
  shows "v \<le> r" and "a dvd r" and "r < v + a" and "\<And>m. a dvd m \<Longrightarrow> v \<le> m \<Longrightarrow> r \<le> m"
proof -
  have eq: "(v + (a - 1)) div a * a + (v + (a - 1)) mod a = v + (a - 1)"
    by simp
  have lt: "(v + (a - 1)) mod a < a" using assms(1) by simp
  show "v \<le> r" using eq lt assms(1) unfolding r_def by linarith
  show "a dvd r" unfolding r_def by simp
  show ra: "r < v + a" using eq assms(1) unfolding r_def by linarith
  fix m assume "a dvd m" "v \<le> m"
  then obtain k where m: "m = k * a" by (metis dvd_def mult.commute)
  show "r \<le> m"
  proof (rule ccontr)
    assume "\<not> r \<le> m"
    then have "k * a < (v + (a - 1)) div a * a" unfolding m r_def by simp
    then have "k < (v + (a - 1)) div a" by (simp only: mult_less_cancel2)
    then have "Suc k * a \<le> (v + (a - 1)) div a * a" by (intro mult_le_mono1) simp
    then have "m + a \<le> r" unfolding m r_def by simp
    with ra \<open>v \<le> m\<close> show False by simp
  qed
qed

lemma align_up_Some:
  assumes "is_power_of_two a" and "is_usize a" and "align_up v a = Some r"
  shows "v \<le> r" and "a dvd r" and "r < v + a" and "is_usize r"
    and "\<And>m. a dvd m \<Longrightarrow> v \<le> m \<Longrightarrow> r \<le> m"
proof -
  have pos: "0 < a" using assms(1) by (rule is_power_of_two_pos)
  have r: "r = (v + (a - 1)) div a * a" and u: "is_usize (v + (a - 1))"
    using assms by (auto simp: align_up_eq split: if_splits)
  show "v \<le> r" and "a dvd r" and "r < v + a"
    unfolding r using round_up_least(1-3) [OF pos, of v] by blast+
  show "r \<le> m" if "a dvd m" "v \<le> m" for m
    unfolding r using round_up_least(4) [OF pos that] .
  show "is_usize r" using u unfolding r
    by (meson div_times_less_eq_dividend le_less_trans)
qed

lemma align_up_None:
  assumes "is_power_of_two a" and "is_usize a"
  shows "align_up v a = None \<longleftrightarrow> \<not> (\<exists>r. is_usize r \<and> a dvd r \<and> v \<le> r)"
proof
  assume "align_up v a = None"
  then have over: "2 ^ 64 \<le> v + (a - 1)"
    using assms by (auto simp: align_up_eq split: if_splits)
  show "\<not> (\<exists>r. is_usize r \<and> a dvd r \<and> v \<le> r)"
  proof
    assume "\<exists>r. is_usize r \<and> a dvd r \<and> v \<le> r"
    then obtain r where r: "is_usize r" "a dvd r" "v \<le> r" by blast
    have "a dvd 2 ^ 64 - r"
      using r(2) is_power_of_two_dvd_width [OF assms] by (rule dvd_diff_nat [rotated])
    moreover have "0 < 2 ^ 64 - r" using r(1) by simp
    ultimately have "a \<le> 2 ^ 64 - r" by (rule dvd_imp_le)
    with over r(1,3) is_power_of_two_pos [OF assms(1)] show False by linarith
  qed
next
  assume none: "\<not> (\<exists>r. is_usize r \<and> a dvd r \<and> v \<le> r)"
  show "align_up v a = None"
  proof (cases "align_up v a")
    case (Some r)
    with align_up_Some [OF assms Some] none show ?thesis by blast
  qed
qed

lemma align_up_ge: "is_power_of_two a \<Longrightarrow> is_usize a \<Longrightarrow> align_up v a = Some r \<Longrightarrow> v \<le> r"
  by (rule align_up_Some(1))

lemma align_up_id:
  assumes "is_power_of_two a" and "is_usize a" and "a dvd v" and "is_usize v"
  shows "align_up v a = Some v"
proof (cases "align_up v a")
  case None
  with assms show ?thesis by (auto simp: align_up_None)
next
  case (Some r)
  then have "v \<le> r" and "r \<le> v" using align_up_Some [OF assms(1,2) Some] assms(3) by auto
  with Some show ?thesis by simp
qed

text \<open>
  C18. Rounding up to a power-of-two alignment returns the least multiple that is at least
  the value, and returns \<open>None\<close> exactly when no such multiple fits the address space: the
  masking arithmetic never wraps to a smaller value.
\<close>

theorem align_up_least_multiple:
  assumes "is_power_of_two a" and "is_usize a"
  shows "align_up v a =
    (if \<exists>r. is_usize r \<and> a dvd r \<and> v \<le> r
     then Some (LEAST r. a dvd r \<and> v \<le> r) else None)"
proof (cases "align_up v a")
  case None
  with assms show ?thesis by (auto simp: align_up_None)
next
  case (Some r)
  note facts = align_up_Some [OF assms Some]
  have "(LEAST r. a dvd r \<and> v \<le> r) = r"
    using facts by (intro Least_equality) auto
  with Some facts show ?thesis by auto
qed

lemma align_up_least_multiple_witness:
  "align_up 100 64 = (if \<exists>r. is_usize r \<and> 64 dvd r \<and> 100 \<le> r
     then Some (LEAST r. 64 dvd r \<and> 100 \<le> r) else None) \<and> is_power_of_two 64"
  using align_up_least_multiple [of 64 100] by (simp add: is_power_of_two_def)

text \<open>The page count covers the request with less than one page to spare.\<close>

lemma pages_for_Some:
  assumes "is_power_of_two p" and "is_usize p" and "pages_for b p = Some n"
  shows "b \<le> n * p" and "n * p < b + p" and "is_usize (n * p)"
proof -
  from assms(3) obtain r where r: "align_up b p = Some r" "n = r div p"
    by (auto simp: pages_for_def split: option.splits)
  note facts = align_up_Some [OF assms(1,2) r(1)]
  have "n * p = r" using facts(2) r(2) by simp
  with facts show "b \<le> n * p" and "n * p < b + p" and "is_usize (n * p)" by auto
qed

end
