(* ===== verification/SizeClasses.thy ===== *)
theory SizeClasses
  imports Overflow
begin

text \<open>
  \<open>crates/topo-core/src/size_class.rs\<close>, the generated \<open>generated/tables.rs\<close>, and the
  validation that \<open>tools/size-class-gen/src/model.rs\<close> runs before it emits the table.

  The lookup is proved once, in the locale \<open>size_table\<close>, from the laws a size-class table
  obeys: \<open>size_class_in\<close> returns the least class that is large enough and aligned enough.
  Every table the generator accepts obeys those laws, and the shipped table is the one the
  generator derives from its golden input, so the locale is interpreted on the shipped
  constants.
\<close>

section \<open>Rows and the shipped table\<close>

record SizeClassRow =
  row_size :: nat
  row_align :: nat
  row_slab_pages :: nat
  row_objects_per_slab :: nat
  row_batch :: nat
  row_max_local_capacity :: nat

definition mk_row :: "nat \<Rightarrow> nat \<Rightarrow> nat \<Rightarrow> nat \<Rightarrow> nat \<Rightarrow> nat \<Rightarrow> SizeClassRow" where
  "mk_row s a p n b m =
     \<lparr>row_size = s, row_align = a, row_slab_pages = p, row_objects_per_slab = n, row_batch = b,
      row_max_local_capacity = m\<rparr>"

definition PAGE_SIZE :: usize where "PAGE_SIZE = 16384"
definition QUANTUM :: usize where "QUANTUM = 16"
definition TINY_MIN :: usize where "TINY_MIN = 16"
definition SMALL_MAX :: usize where "SMALL_MAX = 32768"
definition HUGE_THRESHOLD :: usize where "HUGE_THRESHOLD = 2097152"
definition MAX_ALIGN :: usize where "MAX_ALIGN = 16384"

definition SIZE_CLASSES :: "SizeClassRow list" where
  "SIZE_CLASSES = [
      mk_row 16 16 1 1024 32 256, mk_row 32 32 1 512 32 256, mk_row 48 16 1 341 32 256,
      mk_row 64 64 1 256 32 256, mk_row 80 16 1 204 32 256, mk_row 96 32 1 170 32 256,
      mk_row 112 16 1 146 32 256, mk_row 128 128 1 128 32 256, mk_row 144 16 1 113 32 256,
      mk_row 160 32 1 102 32 256, mk_row 176 16 1 93 32 256, mk_row 192 64 1 85 32 256,
      mk_row 208 16 1 78 32 256, mk_row 224 32 1 73 32 256, mk_row 240 16 1 68 32 256,
      mk_row 256 256 1 64 32 256, mk_row 288 32 1 56 32 256, mk_row 320 64 1 51 32 256,
      mk_row 352 32 1 46 32 256, mk_row 384 128 1 42 32 256, mk_row 416 32 1 39 32 256,
      mk_row 448 64 1 36 32 256, mk_row 480 32 1 34 32 256, mk_row 512 512 1 32 32 256,
      mk_row 576 64 1 28 32 256, mk_row 640 128 1 25 32 256, mk_row 704 64 1 23 32 256,
      mk_row 768 256 1 21 32 256, mk_row 832 64 1 19 32 256, mk_row 896 128 1 18 32 256,
      mk_row 960 64 1 17 32 256, mk_row 1024 1024 1 16 32 256, mk_row 1152 128 1 14 32 256,
      mk_row 1280 256 1 12 32 256, mk_row 1408 128 1 11 32 256, mk_row 1536 512 1 10 32 256,
      mk_row 1664 128 1 9 32 256, mk_row 1792 256 1 9 32 256, mk_row 1920 128 1 8 32 256,
      mk_row 2048 2048 1 8 32 256, mk_row 2304 256 1 7 32 256, mk_row 2560 512 1 6 32 256,
      mk_row 2816 256 1 5 32 256, mk_row 3072 1024 1 5 32 256, mk_row 3328 256 1 4 32 256,
      mk_row 3584 512 1 4 32 256, mk_row 3840 256 1 4 32 256, mk_row 4096 4096 1 4 32 256,
      mk_row 4608 512 1 3 32 256, mk_row 5120 1024 1 3 32 256, mk_row 5632 512 1 2 32 256,
      mk_row 6144 2048 1 2 32 256, mk_row 6656 512 1 2 32 256, mk_row 7168 1024 1 2 32 256,
      mk_row 7680 512 1 2 32 256, mk_row 8192 8192 1 2 32 256, mk_row 9216 1024 1 1 32 256,
      mk_row 10240 2048 1 1 32 256, mk_row 11264 1024 1 1 32 256,
      mk_row 12288 4096 1 1 32 256, mk_row 13312 1024 1 1 32 256,
      mk_row 14336 2048 1 1 32 256, mk_row 15360 1024 1 1 32 256,
      mk_row 16384 16384 1 1 32 256, mk_row 18432 2048 2 1 32 256,
      mk_row 20480 4096 2 1 32 256, mk_row 22528 2048 2 1 32 256,
      mk_row 24576 8192 2 1 32 256, mk_row 26624 2048 2 1 32 256,
      mk_row 28672 4096 2 1 32 256, mk_row 30720 2048 2 1 32 256,
      mk_row 32768 16384 2 1 32 256]"

text \<open>
  The 2048 entries of \<open>SIZE_TO_CLASS\<close>, written as the runs \<open>(n, c)\<close> of \<open>n\<close> equal entries
  \<open>c\<close> in which the file lists them.
\<close>

definition SIZE_TO_CLASS :: "nat list" where
  "SIZE_TO_CLASS = concat (map (\<lambda>(n, c). replicate n c) [
      (1, 0), (1, 1), (1, 2), (1, 3), (1, 4), (1, 5), (1, 6), (1, 7), (1, 8), (1, 9),
      (1, 10), (1, 11), (1, 12), (1, 13), (1, 14), (1, 15), (2, 16), (2, 17), (2, 18),
      (2, 19), (2, 20), (2, 21), (2, 22), (2, 23), (4, 24), (4, 25), (4, 26), (4, 27),
      (4, 28), (4, 29), (4, 30), (4, 31), (8, 32), (8, 33), (8, 34), (8, 35), (8, 36),
      (8, 37), (8, 38), (8, 39), (16, 40), (16, 41), (16, 42), (16, 43), (16, 44), (16, 45),
      (16, 46), (16, 47), (32, 48), (32, 49), (32, 50), (32, 51), (32, 52), (32, 53),
      (32, 54), (32, 55), (64, 56), (64, 57), (64, 58), (64, 59), (64, 60), (64, 61),
      (64, 62), (64, 63), (128, 64), (128, 65), (128, 66), (128, 67), (128, 68), (128, 69),
      (128, 70), (128, 71)])"

section \<open>The lookup\<close>

text \<open>A \<open>SizeClassId\<close> is the table index; \<open>new\<close> keeps its low 16 bits.\<close>

definition SizeClassId_new :: "nat \<Rightarrow> nat" where
  "SizeClassId_new i = i mod 2 ^ 16"

function align_walk_from :: "nat \<Rightarrow> usize \<Rightarrow> SizeClassRow list \<Rightarrow> nat" where
  "align_walk_from idx align classes =
     (if idx < length classes \<and> row_align (classes ! idx) < align
      then align_walk_from (idx + 1) align classes else idx)"
  by pat_completeness auto
termination
  by (relation "measure (\<lambda>(idx, align, classes). length classes - idx)") auto

declare align_walk_from.simps [simp del]

definition align_walk :: "nat \<Rightarrow> usize \<Rightarrow> SizeClassRow list \<Rightarrow> nat option" where
  "align_walk start align classes =
     (let idx = align_walk_from start align classes
      in if idx < length classes then Some idx else None)"

definition size_class_in ::
  "usize \<Rightarrow> usize \<Rightarrow> usize \<Rightarrow> usize \<Rightarrow> usize \<Rightarrow> nat list \<Rightarrow> SizeClassRow list \<Rightarrow> nat option outcome"
  where
  "size_class_in sz align quantum small_max max_align size_to_class classes =
     (if sz = 0 \<or> small_max < sz \<or> max_align < align then Ret None
      else if quantum = 0 then Panic
      else let granule = (sz - 1) div quantum
           in case get size_to_class granule of
                None \<Rightarrow> Ret None
              | Some start \<Rightarrow> Ret (align_walk start align classes))"

definition size_class :: "usize \<Rightarrow> usize \<Rightarrow> nat option outcome" where
  "size_class sz align =
     bind_outcome
       (size_class_in sz align QUANTUM SMALL_MAX MAX_ALIGN SIZE_TO_CLASS SIZE_CLASSES)
       (\<lambda>r. Ret (map_option SizeClassId_new r))"

section \<open>Accessors\<close>

definition row_of :: "nat \<Rightarrow> SizeClassRow outcome" where
  "row_of sc = index SIZE_CLASSES sc"

definition checked_row :: "nat \<Rightarrow> SizeClassRow option" where
  "checked_row sc = get SIZE_CLASSES sc"

definition class_count :: nat where
  "class_count = length SIZE_CLASSES"

definition usable_size :: "nat \<Rightarrow> usize outcome" where
  "usable_size sc = bind_outcome (row_of sc) (\<lambda>r. Ret (row_size r))"

definition class_align :: "nat \<Rightarrow> usize outcome" where
  "class_align sc = bind_outcome (row_of sc) (\<lambda>r. Ret (row_align r))"

definition slab_pages :: "nat \<Rightarrow> usize outcome" where
  "slab_pages sc = bind_outcome (row_of sc) (\<lambda>r. Ret (row_slab_pages r))"

definition objects_per_slab :: "nat \<Rightarrow> usize outcome" where
  "objects_per_slab sc = bind_outcome (row_of sc) (\<lambda>r. Ret (row_objects_per_slab r))"

definition batch :: "nat \<Rightarrow> usize outcome" where
  "batch sc = bind_outcome (row_of sc) (\<lambda>r. Ret (row_batch r))"

definition max_local_capacity :: "nat \<Rightarrow> usize outcome" where
  "max_local_capacity sc = bind_outcome (row_of sc) (\<lambda>r. Ret (row_max_local_capacity r))"

definition slab_bytes :: "nat \<Rightarrow> usize outcome" where
  "slab_bytes sc = bind_outcome (row_of sc) (\<lambda>r. Ret (row_slab_pages r * PAGE_SIZE))"

section \<open>The generator's validation\<close>

record Golden =
  schema_version :: nat
  g_page_size :: nat
  g_quantum :: nat
  g_tiny_min :: nat
  g_small_max :: nat
  g_huge_threshold :: nat
  g_classes :: "SizeClassRow list"

record Table =
  t_page_size :: nat
  t_quantum :: nat
  t_tiny_min :: nat
  t_small_max :: nat
  t_huge_threshold :: nat
  t_max_align :: nat
  t_classes :: "SizeClassRow list"
  t_size_to_class :: "nat list"

text \<open>One constructor per \<open>Err\<close> of \<open>Table::validate\<close>; those of the per-class loop carry the
  class index.\<close>

datatype gen_error =
    BadSchema nat | BadPageSize | BadQuantum nat | BadMinMax | SmallMaxNotGranular
  | HugeNotAboveSmall | HugeNotPaged | NoClasses | TooManyClasses | FirstNotTinyMin
  | ZeroSizeOrAlign nat | AlignNotPow2 nat | SizeNotMultipleOfAlign nat | AlignExceedsSize nat
  | SizeNotMultipleOfQuantum nat | BelowTinyMin nat | NoSlabPages nat | NoObjects nat
  | BadPacking nat | SlabOverflow nat | NoLocalCapacity nat | BadBatch nat
  | NotIncreasing nat | BadSpacing nat | SmallMaxNotLast | NoClassCovers nat
  | LookupUnsound nat | LookupNonMinimal nat | IndexPanic

definition is_pow2 :: "nat \<Rightarrow> bool" where
  "is_pow2 v \<longleftrightarrow> v \<noteq> 0 \<and> v AND (v - 1) = 0"

text \<open>The spacing-ratio target \<open>(num, den)\<close> of a class by its size range.\<close>

definition spacing_target :: "nat \<Rightarrow> nat \<times> nat" where
  "spacing_target s =
     (if s \<le> 48 then (2, 1) else if s \<le> 128 then (4, 3)
      else if s \<le> 1024 then (6, 5) else (9, 8))"

definition check_class :: "Golden \<Rightarrow> nat \<Rightarrow> nat \<Rightarrow> SizeClassRow \<Rightarrow> gen_error option" where
  "check_class g i prev_size c =
     (let slab_bytes = row_slab_pages c * g_page_size g in
      if row_size c = 0 \<or> row_align c = 0 then Some (ZeroSizeOrAlign i)
      else if \<not> is_pow2 (row_align c) then Some (AlignNotPow2 i)
      else if row_size c mod row_align c \<noteq> 0 then Some (SizeNotMultipleOfAlign i)
      else if row_size c < row_align c then Some (AlignExceedsSize i)
      else if row_size c mod g_quantum g \<noteq> 0 then Some (SizeNotMultipleOfQuantum i)
      else if row_size c < g_tiny_min g then Some (BelowTinyMin i)
      else if row_slab_pages c = 0 then Some (NoSlabPages i)
      else if row_objects_per_slab c = 0 then Some (NoObjects i)
      else if slab_bytes div row_size c \<noteq> row_objects_per_slab c then Some (BadPacking i)
      else if slab_bytes < row_objects_per_slab c * row_size c then Some (SlabOverflow i)
      else if row_max_local_capacity c = 0 then Some (NoLocalCapacity i)
      else if row_batch c = 0 \<or> row_max_local_capacity c < row_batch c then Some (BadBatch i)
      else if 0 < i then
        (if row_size c \<le> prev_size then Some (NotIncreasing i)
         else case spacing_target (row_size c) of (num, den) \<Rightarrow>
           if num * prev_size < row_size c * den then Some (BadSpacing i) else None)
      else None)"

fun check_classes :: "Golden \<Rightarrow> nat \<Rightarrow> nat \<Rightarrow> SizeClassRow list \<Rightarrow> gen_error option" where
  "check_classes g i prev_size [] = None"
| "check_classes g i prev_size (c # cs) =
     (case check_class g i prev_size c of
        Some e \<Rightarrow> Some e
      | None \<Rightarrow> check_classes g (i + 1) (row_size c) cs)"

text \<open>\<open>iter().position(p)\<close>.\<close>

fun position :: "('a \<Rightarrow> bool) \<Rightarrow> 'a list \<Rightarrow> nat option" where
  "position p [] = None"
| "position p (x # xs) = (if p x then Some 0 else map_option Suc (position p xs))"

fun derive_lookup :: "Golden \<Rightarrow> nat list \<Rightarrow> gen_error + nat list" where
  "derive_lookup g [] = Inr []"
| "derive_lookup g (gr # grs) =
     (let rep = gr * g_quantum g + 1 in
      case position (\<lambda>c. rep \<le> row_size c) (g_classes g) of
        None \<Rightarrow> Inl (NoClassCovers rep)
      | Some idx \<Rightarrow>
          (case derive_lookup g grs of
             Inl e \<Rightarrow> Inl e
           | Inr rest \<Rightarrow> Inr (idx mod 256 # rest)))"

definition recheck_size :: "Golden \<Rightarrow> nat list \<Rightarrow> nat \<Rightarrow> gen_error option" where
  "recheck_size g size_to_class s =
     (let gr = (s - 1) div g_quantum g in
      case get size_to_class gr of
        None \<Rightarrow> Some IndexPanic
      | Some ci \<Rightarrow>
          (case get (g_classes g) ci of
             None \<Rightarrow> Some IndexPanic
           | Some chosen \<Rightarrow>
               if row_size chosen < s then Some (LookupUnsound s)
               else if 0 < ci \<and> s \<le> row_size (g_classes g ! (ci - 1)) then Some (LookupNonMinimal s)
               else None))"

fun recheck_sizes :: "Golden \<Rightarrow> nat list \<Rightarrow> nat list \<Rightarrow> gen_error option" where
  "recheck_sizes g size_to_class [] = None"
| "recheck_sizes g size_to_class (s # ss) =
     (case recheck_size g size_to_class s of
        Some e \<Rightarrow> Some e
      | None \<Rightarrow> recheck_sizes g size_to_class ss)"

fun max_list :: "nat list \<Rightarrow> nat" where
  "max_list [] = 0"
| "max_list (x # xs) = max x (max_list xs)"

definition validate :: "Golden \<Rightarrow> gen_error + Table" where
  "validate g =
     (if schema_version g \<noteq> 1 then Inl (BadSchema (schema_version g))
      else if g_page_size g = 0 then Inl BadPageSize
      else if \<not> is_pow2 (g_quantum g) then Inl (BadQuantum (g_quantum g))
      else if g_tiny_min g = 0 \<or> g_small_max g = 0 then Inl BadMinMax
      else if g_small_max g mod g_quantum g \<noteq> 0 then Inl SmallMaxNotGranular
      else if g_huge_threshold g \<le> g_small_max g then Inl HugeNotAboveSmall
      else if g_huge_threshold g mod g_page_size g \<noteq> 0 then Inl HugeNotPaged
      else if g_classes g = [] then Inl NoClasses
      else if 256 < length (g_classes g) then Inl TooManyClasses
      else if row_size (hd (g_classes g)) \<noteq> g_tiny_min g then Inl FirstNotTinyMin
      else case check_classes g 0 0 (g_classes g) of
        Some e \<Rightarrow> Inl e
      | None \<Rightarrow>
          if g_small_max g \<noteq> row_size (last (g_classes g)) then Inl SmallMaxNotLast
          else case derive_lookup g [0..<g_small_max g div g_quantum g] of
            Inl e \<Rightarrow> Inl e
          | Inr size_to_class \<Rightarrow>
              (case recheck_sizes g size_to_class [1..<g_small_max g + 1] of
                 Some e \<Rightarrow> Inl e
               | None \<Rightarrow>
                   Inr \<lparr>t_page_size = g_page_size g, t_quantum = g_quantum g,
                        t_tiny_min = g_tiny_min g, t_small_max = g_small_max g,
                        t_huge_threshold = g_huge_threshold g,
                        t_max_align = max_list (map row_align (g_classes g)),
                        t_classes = g_classes g, t_size_to_class = size_to_class\<rparr>))"

text \<open>The golden input \<open>size-classes.json\<close> carries the rows of the shipped table.\<close>

definition GOLDEN :: Golden where
  "GOLDEN = \<lparr>schema_version = 1, g_page_size = 16384, g_quantum = 16, g_tiny_min = 16,
     g_small_max = 32768, g_huge_threshold = 2097152, g_classes = SIZE_CLASSES\<rparr>"

section \<open>The lookup on any lawful table\<close>

definition fits :: "SizeClassRow list \<Rightarrow> usize \<Rightarrow> usize \<Rightarrow> nat \<Rightarrow> bool" where
  "fits classes sz align i \<longleftrightarrow>
     i < length classes \<and> sz \<le> row_size (classes ! i) \<and> align \<le> row_align (classes ! i)"

lemma align_walk_from_spec:
  assumes "start \<le> length classes"
  shows "start \<le> align_walk_from start al classes"
    and "align_walk_from start al classes \<le> length classes"
    and "align_walk_from start al classes < length classes \<Longrightarrow>
         al \<le> row_align (classes ! align_walk_from start al classes)"
    and "start \<le> j \<Longrightarrow> j < align_walk_from start al classes \<Longrightarrow> row_align (classes ! j) < al"
  using assms
proof (induction start al classes rule: align_walk_from.induct)
  case (1 idx al classes)
  let ?step = "idx < length classes \<and> row_align (classes ! idx) < al"
  note unf = align_walk_from.simps [of idx al classes]
  {
    case 1
    then show ?case using "1.IH"(1) unf by (cases ?step) auto
  next
    case 2
    then show ?case using "1.IH"(2) unf by (cases ?step) auto
  next
    case 3
    then show ?case using "1.IH"(3) unf by (cases ?step) auto
  next
    case 4
    then show ?case using "1.IH"(4) unf by (cases ?step; cases "j = idx") auto
  }
qed

locale size_table =
  fixes quantum small_max max_align :: nat
    and size_to_class :: "nat list"
    and classes :: "SizeClassRow list"
  assumes quantum_pos: "0 < quantum"
    and granules: "length size_to_class * quantum = small_max"
    and covers: "\<And>s. 0 < s \<Longrightarrow> s \<le> small_max \<Longrightarrow>
      size_to_class ! ((s - 1) div quantum) < length classes \<and>
      s \<le> row_size (classes ! (size_to_class ! ((s - 1) div quantum)))"
    and minimal: "\<And>s j. 0 < s \<Longrightarrow> s \<le> small_max \<Longrightarrow>
      j < size_to_class ! ((s - 1) div quantum) \<Longrightarrow> row_size (classes ! j) < s"
    and increasing: "\<And>i j. i \<le> j \<Longrightarrow> j < length classes \<Longrightarrow>
      row_size (classes ! i) \<le> row_size (classes ! j)"
    and bounded: "\<And>i. i < length classes \<Longrightarrow>
      row_align (classes ! i) \<le> max_align \<and> row_size (classes ! i) \<le> small_max"
begin

lemma granule_in_range: "0 < s \<Longrightarrow> s \<le> small_max \<Longrightarrow> (s - 1) div quantum < length size_to_class"
  using quantum_pos granules by (simp add: div_less_iff_less_mult)

lemma unfit_outside: "small_max < sz \<or> max_align < al \<Longrightarrow> \<not> fits classes sz al i"
  using bounded [of i] by (auto simp: fits_def)

lemma lookup_least:
  fixes al :: usize
  assumes "0 < sz" and "sz \<le> small_max"
  defines "w \<equiv> align_walk_from (size_to_class ! ((sz - 1) div quantum)) al classes"
  shows "w < length classes \<Longrightarrow> fits classes sz al w"
    and "fits classes sz al i \<Longrightarrow> w \<le> i"
proof -
  let ?start = "size_to_class ! ((sz - 1) div quantum)"
  have start: "?start < length classes" "sz \<le> row_size (classes ! ?start)"
    using covers [OF assms(1,2)] by auto
  note walk = align_walk_from_spec [OF less_imp_le [OF start(1)], where al = al, folded w_def]
  show "fits classes sz al w" if "w < length classes"
    using that walk(1) walk(3) start(2) increasing [of ?start w] by (auto simp: fits_def)
  show "w \<le> i" if "fits classes sz al i"
  proof (rule ccontr)
    assume "\<not> w \<le> i"
    moreover have "?start \<le> i"
      using minimal [OF assms(1,2), of i] that by (force simp: fits_def)
    ultimately have "row_align (classes ! i) < al" using walk(4) [where j = i] by simp
    with that show False by (simp add: fits_def)
  qed
qed

lemma size_class_in_least:
  assumes "0 < sz"
  shows "size_class_in sz al quantum small_max max_align size_to_class classes =
    Ret (if \<exists>i. fits classes sz al i then Some (LEAST i. fits classes sz al i) else None)"
proof (cases "small_max < sz \<or> max_align < al")
  case True
  then have "\<not> (\<exists>i. fits classes sz al i)" using unfit_outside by blast
  with True show ?thesis by (auto simp: size_class_in_def)
next
  case False
  let ?w = "align_walk_from (size_to_class ! ((sz - 1) div quantum)) al classes"
  from False assms have range: "0 < sz" "sz \<le> small_max" by auto
  note least = lookup_least [OF range, where al = al]
  have eq: "size_class_in sz al quantum small_max max_align size_to_class classes =
      Ret (if ?w < length classes then Some ?w else None)"
    using False range quantum_pos granule_in_range [OF range]
    by (simp add: size_class_in_def align_walk_def Let_def)
  show ?thesis
  proof (cases "?w < length classes")
    case True
    with least(1) have "fits classes sz al ?w" by blast
    moreover from this have "(LEAST i. fits classes sz al i) = ?w"
      using least(2) by (intro Least_equality) auto
    ultimately show ?thesis using eq True by auto
  next
    case False
    have "\<not> fits classes sz al i" for i
      using least(2) [of i] False by (force simp: fits_def)
    with eq False show ?thesis by simp
  qed
qed

end

section \<open>What the generator accepts\<close>

lemma position_Some:
  "position p xs = Some i \<Longrightarrow> i < length xs \<and> p (xs ! i) \<and> (\<forall>j<i. \<not> p (xs ! j))"
proof (induction xs arbitrary: i)
  case (Cons x xs)
  then show ?case
    by (auto simp: nth_Cons split: if_splits nat.splits)
qed simp

lemma position_None: "position p xs = None \<longleftrightarrow> (\<forall>x\<in>set xs. \<not> p x)"
  by (induction xs) auto

lemma check_classes_None:
  "check_classes g i prev cs = None \<Longrightarrow> j < length cs \<Longrightarrow>
   check_class g (i + j) (if j = 0 then prev else row_size (cs ! (j - 1))) (cs ! j) = None"
proof (induction cs arbitrary: i prev j)
  case (Cons c cs)
  then show ?case
    by (cases j) (auto split: option.splits simp: nth_Cons' dest: Cons.IH)
qed simp

lemma check_class_None:
  assumes "check_class g i prev c = None"
  shows "0 < row_size c" and "is_pow2 (row_align c)" and "row_align c dvd row_size c"
    and "g_quantum g dvd row_size c" and "0 < row_slab_pages c"
    and "0 < row_objects_per_slab c"
    and "row_objects_per_slab c * row_size c \<le> row_slab_pages c * g_page_size g"
    and "row_objects_per_slab c = row_slab_pages c * g_page_size g div row_size c"
    and "0 < row_batch c" and "row_batch c \<le> row_max_local_capacity c"
    and "0 < i \<Longrightarrow> prev < row_size c"
  using assms unfolding check_class_def Let_def result_simps
  by (auto simp: dvd_eq_mod_eq_0 split: if_splits)

lemma derive_lookup_Inr:
  "derive_lookup g grs = Inr xs \<Longrightarrow> length xs = length grs \<and>
   (\<forall>k<length grs. \<exists>idx. position (\<lambda>c. (grs ! k) * g_quantum g + 1 \<le> row_size c) (g_classes g)
       = Some idx \<and> xs ! k = idx mod 256)"
proof (induction grs arbitrary: xs)
  case (Cons gr grs)
  then show ?case
    by (fastforce simp: Let_def nth_Cons split: option.splits sum.splits nat.splits)
qed simp

lemma derive_lookup_total:
  assumes "\<And>gr. gr \<in> set grs \<Longrightarrow> \<exists>c\<in>set (g_classes g). gr * g_quantum g + 1 \<le> row_size c"
  shows "\<exists>xs. derive_lookup g grs = Inr xs"
  using assms
proof (induction grs)
  case (Cons gr grs)
  then obtain xs where "derive_lookup g grs = Inr xs" by auto
  moreover have "position (\<lambda>c. gr * g_quantum g + 1 \<le> row_size c) (g_classes g) \<noteq> None"
    using Cons.prems [of gr] unfolding position_None by auto
  ultimately show ?case by (auto simp: Let_def)
qed simp

lemma recheck_sizes_None:
  "recheck_sizes g xs ss = None \<longleftrightarrow> (\<forall>s\<in>set ss. recheck_size g xs s = None)"
  by (induction ss) (auto split: option.splits)

lemma max_list_ge: "x \<in> set xs \<Longrightarrow> x \<le> max_list xs"
  by (induction xs) auto

text \<open>
  What the checks before the exhaustive re-check of \<open>Table::validate\<close> have established.
\<close>

definition accepted :: "Golden \<Rightarrow> nat list \<Rightarrow> bool" where
  "accepted g xs \<longleftrightarrow>
     0 < g_quantum g \<and> g_quantum g dvd g_small_max g \<and> g_classes g \<noteq> [] \<and>
     length (g_classes g) \<le> 256 \<and> check_classes g 0 0 (g_classes g) = None \<and>
     g_small_max g = row_size (last (g_classes g)) \<and>
     derive_lookup g [0..<g_small_max g div g_quantum g] = Inr xs"

lemma accepted_class:
  assumes "accepted g xs" and "j < length (g_classes g)"
  shows "check_class g j (if j = 0 then 0 else row_size (g_classes g ! (j - 1)))
           (g_classes g ! j) = None"
  using check_classes_None [of g 0 0 "g_classes g" j] assms by (simp add: accepted_def)

lemma accepted_increasing:
  assumes "accepted g xs" and "i < j" and "j < length (g_classes g)"
  shows "row_size (g_classes g ! i) < row_size (g_classes g ! j)"
  using assms(2,3)
proof (induction j)
  case (Suc j)
  have "row_size (g_classes g ! j) < row_size (g_classes g ! Suc j)"
    using check_class_None(11) [OF accepted_class [OF assms(1) Suc.prems(2)]] by simp
  with Suc show ?case by (cases "i = j") auto
qed simp

text \<open>Sizes are multiples of the quantum, so every request of a granule has the same class.\<close>

lemma granule_class_iff:
  fixes q s m :: nat
  assumes "0 < q" and "0 < s" and "q dvd m"
  shows "s \<le> m \<longleftrightarrow> (s - 1) div q * q + 1 \<le> m"
proof -
  obtain k where m: "m = k * q" using assms(3) by (metis dvd_def mult.commute)
  have "s \<le> m \<longleftrightarrow> s - 1 < k * q" using assms(2) m by auto
  also have "\<dots> \<longleftrightarrow> (s - 1) div q < k" using assms(1) by (simp add: div_less_iff_less_mult)
  also have "\<dots> \<longleftrightarrow> (s - 1) div q * q < k * q"
    using assms(1) by (simp only: mult_less_cancel2 simp_thms)
  finally show ?thesis unfolding m by linarith
qed

lemma accepted_lookup:
  assumes "accepted g xs" and "0 < s" and "s \<le> g_small_max g"
  defines "k \<equiv> (s - 1) div g_quantum g"
  shows "k < length xs" and "xs ! k < length (g_classes g)"
    and "s \<le> row_size (g_classes g ! (xs ! k))"
    and "\<And>j. j < xs ! k \<Longrightarrow> row_size (g_classes g ! j) < s"
proof -
  have q: "0 < g_quantum g" "g_quantum g dvd g_small_max g" and len: "length (g_classes g) \<le> 256"
    and d: "derive_lookup g [0..<g_small_max g div g_quantum g] = Inr xs"
    using assms(1) by (auto simp: accepted_def)
  have kr: "k < g_small_max g div g_quantum g"
    using assms(2,3) q unfolding k_def by (simp add: div_less_iff_less_mult)
  obtain idx where idx: "position (\<lambda>c. k * g_quantum g + 1 \<le> row_size c) (g_classes g) = Some idx"
    and xk: "xs ! k = idx mod 256" and lxs: "length xs = g_small_max g div g_quantum g"
    using derive_lookup_Inr [OF d] kr by fastforce
  note pos = position_Some [OF idx]
  have xi: "xs ! k = idx" using pos xk len by simp
  have iff: "s \<le> row_size (g_classes g ! j) \<longleftrightarrow> k * g_quantum g + 1 \<le> row_size (g_classes g ! j)"
    if "j < length (g_classes g)" for j
    unfolding k_def
    by (rule granule_class_iff [OF q(1) assms(2)])
       (rule check_class_None(4) [OF accepted_class [OF assms(1) that]])
  show "k < length xs" using kr lxs by simp
  show "xs ! k < length (g_classes g)" using pos xi by simp
  show "s \<le> row_size (g_classes g ! (xs ! k))" using pos xi iff by simp
  show "row_size (g_classes g ! j) < s" if "j < xs ! k" for j
    using that pos xi iff [of j] by auto
qed

lemma accepted_size_table:
  assumes "accepted g xs"
  shows "size_table (g_quantum g) (g_small_max g) (max_list (map row_align (g_classes g))) xs
           (g_classes g)"
proof unfold_locales
  let ?cs = "g_classes g"
  show "0 < g_quantum g" using assms by (simp add: accepted_def)
  have "length xs = g_small_max g div g_quantum g" and "g_quantum g dvd g_small_max g"
    using assms derive_lookup_Inr by (fastforce simp: accepted_def)+
  then show "length xs * g_quantum g = g_small_max g" by simp
  show "xs ! ((s - 1) div g_quantum g) < length ?cs \<and>
      s \<le> row_size (?cs ! (xs ! ((s - 1) div g_quantum g)))"
    if "0 < s" "s \<le> g_small_max g" for s
    using accepted_lookup [OF assms that] by blast
  show "row_size (?cs ! j) < s"
    if "0 < s" "s \<le> g_small_max g" "j < xs ! ((s - 1) div g_quantum g)" for s j
    using accepted_lookup(4) [OF assms that] .
  show mono: "row_size (?cs ! i) \<le> row_size (?cs ! j)" if "i \<le> j" "j < length ?cs" for i j
    using accepted_increasing [OF assms, of i j] that by (cases "i = j") auto
  show "row_align (?cs ! i) \<le> max_list (map row_align ?cs) \<and> row_size (?cs ! i) \<le> g_small_max g"
    if "i < length ?cs" for i
  proof
    show "row_align (?cs ! i) \<le> max_list (map row_align ?cs)"
      using that by (intro max_list_ge) simp
    have "row_size (?cs ! i) \<le> row_size (?cs ! (length ?cs - 1))"
      using that by (intro mono) auto
    then show "row_size (?cs ! i) \<le> g_small_max g"
      using assms by (simp add: accepted_def last_conv_nth)
  qed
qed

text \<open>The exhaustive re-check over every request size can never fail.\<close>

lemma accepted_recheck:
  assumes "accepted g xs"
  shows "recheck_sizes g xs [1..<g_small_max g + 1] = None"
proof -
  have "recheck_size g xs s = None" if "s \<in> set [1..<g_small_max g + 1]" for s
  proof -
    from that have s: "0 < s" "s \<le> g_small_max g" by auto
    note look = accepted_lookup [OF assms s]
    have "row_size (g_classes g ! (xs ! ((s - 1) div g_quantum g) - 1)) < s"
      if "0 < xs ! ((s - 1) div g_quantum g)"
      using look(4) that by simp
    with look(1-3) show ?thesis by (auto simp: recheck_size_def Let_def not_le)
  qed
  then show ?thesis by (simp add: recheck_sizes_None)
qed

lemma validate_Inr:
  assumes "validate g = Inr t"
  shows "accepted g (t_size_to_class t)" and "t_quantum t = g_quantum g"
    and "t_small_max t = g_small_max g" and "t_classes t = g_classes g"
    and "t_max_align t = max_list (map row_align (g_classes g))"
  using assms unfolding validate_def result_simps
  by (clarsimp simp: accepted_def is_pow2_def dvd_eq_mod_eq_0)+

section \<open>The shipped table\<close>

text \<open>
  The derived lookup lists, for each class in turn, the granules up to its size.
\<close>

fun class_runs :: "nat \<Rightarrow> nat \<Rightarrow> nat \<Rightarrow> SizeClassRow list \<Rightarrow> nat list" where
  "class_runs q b i [] = []"
| "class_runs q b i (c # cs) =
     replicate (row_size c div q - b) i @ class_runs q (row_size c div q) (i + 1) cs"

text \<open>Sizes ascend in whole granules, from granule \<open>b\<close> on.\<close>

fun ascending :: "nat \<Rightarrow> nat \<Rightarrow> SizeClassRow list \<Rightarrow> bool" where
  "ascending q b [] \<longleftrightarrow> True"
| "ascending q b (c # cs) \<longleftrightarrow>
     q dvd row_size c \<and> b * q \<le> row_size c \<and> ascending q (row_size c div q) cs"

lemma ascending_Cons:
  assumes "0 < q" and "ascending q b (c # cs)"
  shows "b \<le> row_size c div q" and "ascending q (row_size c div q) cs"
    and "row_size c div q * q = row_size c"
proof -
  show q: "row_size c div q * q = row_size c" using assms(2) by simp
  have "b * q \<le> row_size c div q * q" using assms(2) unfolding q by simp
  then show "b \<le> row_size c div q" using assms(1) by simp
  show "ascending q (row_size c div q) cs" using assms(2) by simp
qed

lemma ascending_last: "ascending q b cs \<Longrightarrow> cs \<noteq> [] \<Longrightarrow> b * q \<le> row_size (last cs)"
proof (induction cs arbitrary: b)
  case (Cons c cs)
  then have "cs \<noteq> [] \<Longrightarrow> row_size c div q * q \<le> row_size (last cs)" by fastforce
  with Cons.prems show ?case by auto
qed simp

lemma class_runs_length:
  "0 < q \<Longrightarrow> ascending q b cs \<Longrightarrow> cs \<noteq> [] \<Longrightarrow>
   length (class_runs q b i cs) = row_size (last cs) div q - b"
proof (induction q b i cs rule: class_runs.induct)
  case (2 q b i c cs)
  note asc = ascending_Cons [OF "2.prems"(1,2)]
  show ?case
  proof (cases "cs = []")
    case False
    have "row_size c \<le> row_size (last cs)"
      using ascending_last [OF asc(2) False] asc(3) by simp
    then have "row_size c div q \<le> row_size (last cs) div q" by (rule div_le_mono)
    with asc "2.IH" "2.prems" False show ?thesis by simp
  qed simp
qed simp

lemma class_runs_nth:
  "0 < q \<Longrightarrow> ascending q b cs \<Longrightarrow> k < length (class_runs q b i cs) \<Longrightarrow>
   \<exists>p. position (\<lambda>c. (b + k) * q + 1 \<le> row_size c) cs = Some p \<and> class_runs q b i cs ! k = i + p"
proof (induction q b i cs arbitrary: k rule: class_runs.induct)
  case (2 q b i c cs)
  let ?m = "row_size c div q"
  note asc = ascending_Cons [OF "2.prems"(1,2)]
  have rep: "(b + k) * q + 1 \<le> row_size c \<longleftrightarrow> b + k < ?m"
    using "2.prems"(1) asc(3) by (metis Suc_eq_plus1 Suc_le_eq mult_less_cancel2)
  show ?case
  proof (cases "b + k < ?m")
    case True
    then have "k < ?m - b" by linarith
    then have "class_runs q b i (c # cs) ! k = i" by (simp add: nth_append)
    with True rep show ?thesis by simp
  next
    case False
    let ?k = "k - (?m - b)"
    have "?k < length (class_runs q ?m (i + 1) cs)" using "2.prems"(3) False by simp
    with "2.IH" "2.prems"(1) asc(2) obtain p where
      p: "position (\<lambda>c. (?m + ?k) * q + 1 \<le> row_size c) cs = Some p"
      "class_runs q ?m (i + 1) cs ! ?k = (i + 1) + p" by blast
    have "?m + ?k = b + k" using False asc(1) by simp
    then have "position (\<lambda>c. (b + k) * q + 1 \<le> row_size c) cs = Some p" using p(1) by (simp only:)
    with False rep have "position (\<lambda>c. (b + k) * q + 1 \<le> row_size c) (c # cs) = Some (Suc p)"
      by simp
    moreover have "\<not> k < ?m - b" using False by linarith
    then have "class_runs q b i (c # cs) ! k = i + Suc p"
      using p(2) by (simp add: nth_append)
    ultimately show ?thesis by blast
  qed
qed simp

lemma derive_lookup_map:
  "(\<And>gr. gr \<in> set grs \<Longrightarrow> position (\<lambda>c. gr * g_quantum g + 1 \<le> row_size c) (g_classes g) = Some (f gr)
     \<and> f gr < 256) \<Longrightarrow> derive_lookup g grs = Inr (map f grs)"
  by (induction grs) (auto simp: Let_def)

lemma SIZE_TO_CLASS_runs: "SIZE_TO_CLASS = class_runs 16 0 0 SIZE_CLASSES"
  by (simp add: SIZE_TO_CLASS_def SIZE_CLASSES_def mk_row_def del: replicate.simps)

lemma SIZE_CLASSES_length [simp]: "length SIZE_CLASSES = 72"
  by (simp add: SIZE_CLASSES_def)

lemma SIZE_CLASSES_ascending: "ascending 16 0 SIZE_CLASSES"
  by (simp add: SIZE_CLASSES_def mk_row_def)

lemma SIZE_CLASSES_last: "row_size (last SIZE_CLASSES) = 32768"
  by (simp add: SIZE_CLASSES_def mk_row_def)

lemma SIZE_CLASSES_checked: "check_classes GOLDEN 0 0 SIZE_CLASSES = None"
  by (simp add: GOLDEN_def SIZE_CLASSES_def mk_row_def check_class_def is_pow2_def
      spacing_target_def)

lemma SIZE_CLASSES_max_align: "max_list (map row_align SIZE_CLASSES) = 16384"
  by (simp add: SIZE_CLASSES_def mk_row_def)

lemma GOLDEN_simps [simp]:
  "g_quantum GOLDEN = 16" "g_small_max GOLDEN = 32768" "g_classes GOLDEN = SIZE_CLASSES"
  "g_page_size GOLDEN = 16384" "schema_version GOLDEN = 1" "g_tiny_min GOLDEN = 16"
  "g_huge_threshold GOLDEN = 2097152"
  by (simp_all add: GOLDEN_def)

lemma GOLDEN_accepted: "accepted GOLDEN SIZE_TO_CLASS"
proof -
  define n where "n = g_small_max GOLDEN div g_quantum GOLDEN"
  have ne: "SIZE_CLASSES \<noteq> []" using SIZE_CLASSES_length by force
  have len: "length (class_runs 16 0 0 SIZE_CLASSES) = n"
    using class_runs_length [OF _ SIZE_CLASSES_ascending ne] SIZE_CLASSES_last
    by (simp add: n_def)
  have "position (\<lambda>c. gr * 16 + 1 \<le> row_size c) SIZE_CLASSES = Some (SIZE_TO_CLASS ! gr) \<and>
      SIZE_TO_CLASS ! gr < 256" if gr: "gr < n" for gr
  proof -
    have "gr < length (class_runs 16 0 0 SIZE_CLASSES)" using gr len by simp
    from class_runs_nth [OF _ SIZE_CLASSES_ascending this] obtain p where p: "position (\<lambda>c. (0 + gr) * 16 + 1 \<le> row_size c) SIZE_CLASSES = Some p"
      "class_runs 16 0 0 SIZE_CLASSES ! gr = 0 + p"
      by auto
    have "p < 72" using position_Some [OF p(1)] by simp
    with p show ?thesis by (simp add: SIZE_TO_CLASS_runs)
  qed
  then have "derive_lookup GOLDEN [0..<n] = Inr (map ((!) SIZE_TO_CLASS) [0..<n])"
    by (intro derive_lookup_map) simp
  also have "map ((!) SIZE_TO_CLASS) [0..<n] = SIZE_TO_CLASS"
    using len by (metis SIZE_TO_CLASS_runs map_nth)
  finally show ?thesis
    using SIZE_CLASSES_checked SIZE_CLASSES_last ne
    unfolding accepted_def n_def [symmetric] by simp
qed

interpretation shipped: size_table QUANTUM SMALL_MAX MAX_ALIGN SIZE_TO_CLASS SIZE_CLASSES
  using accepted_size_table [OF GOLDEN_accepted]
  by (simp add: QUANTUM_def SMALL_MAX_def MAX_ALIGN_def SIZE_CLASSES_max_align)

lemmas shipped_row = check_class_None [OF accepted_class [OF GOLDEN_accepted], simplified]

text \<open>The rows' laws, as the slab layout and the central bins use them.\<close>

lemma row_laws:
  assumes "sc < class_count"
  shows "0 < row_size (SIZE_CLASSES ! sc)" and "is_power_of_two (row_align (SIZE_CLASSES ! sc))"
    and "row_align (SIZE_CLASSES ! sc) dvd row_size (SIZE_CLASSES ! sc)"
    and "0 < row_objects_per_slab (SIZE_CLASSES ! sc)"
    and "row_objects_per_slab (SIZE_CLASSES ! sc) * row_size (SIZE_CLASSES ! sc)
           \<le> row_slab_pages (SIZE_CLASSES ! sc) * PAGE_SIZE"
    and "0 < row_batch (SIZE_CLASSES ! sc)"
    and "row_batch (SIZE_CLASSES ! sc) \<le> row_max_local_capacity (SIZE_CLASSES ! sc)"
  using shipped_row [of sc] assms
  by (simp_all add: class_count_def is_pow2_def is_power_of_two_def PAGE_SIZE_def)

lemma size_class_shipped:
  assumes "0 < sz"
  shows "size_class sz al =
    Ret (if \<exists>i. fits SIZE_CLASSES sz al i then Some (LEAST i. fits SIZE_CLASSES sz al i) else None)"
proof (cases "\<exists>i. fits SIZE_CLASSES sz al i")
  case True
  then have "fits SIZE_CLASSES sz al (LEAST i. fits SIZE_CLASSES sz al i)" by (rule LeastI_ex)
  then have "SizeClassId_new (LEAST i. fits SIZE_CLASSES sz al i) = (LEAST i. fits SIZE_CLASSES sz al i)"
    by (simp add: fits_def SizeClassId_new_def)
  with True show ?thesis
    by (simp add: size_class_def shipped.size_class_in_least [OF assms])
next
  case False
  then show ?thesis by (simp add: size_class_def shipped.size_class_in_least [OF assms])
qed

lemma size_class_Some:
  assumes "size_class sz al = Ret (Some sc)"
  shows "0 < sz" and "sc < class_count" and "sz \<le> row_size (SIZE_CLASSES ! sc)"
    and "al \<le> row_align (SIZE_CLASSES ! sc)"
proof -
  show sz: "0 < sz"
    using assms by (cases sz) (auto simp: size_class_def size_class_in_def)
  then have "fits SIZE_CLASSES sz al sc"
    using assms LeastI_ex [of "fits SIZE_CLASSES sz al"]
    by (auto simp: size_class_shipped split: if_splits)
  then show "sc < class_count" "sz \<le> row_size (SIZE_CLASSES ! sc)" "al \<le> row_align (SIZE_CLASSES ! sc)"
    by (auto simp: fits_def class_count_def)
qed

section \<open>Properties\<close>

text \<open>
  C15. \<open>size_class\<close> on the shipped table never panics, answers \<open>None\<close> for the zero size and
  exactly when no class is big and aligned enough, and otherwise returns the least class that
  is: the granule lookup followed by the walk over the alignments is a search for the best fit.
\<close>

theorem size_class_least_fit:
  "size_class sz al =
     Ret (if 0 < sz \<and> (\<exists>i. fits SIZE_CLASSES sz al i)
          then Some (LEAST i. fits SIZE_CLASSES sz al i) else None)"
proof (cases "sz = 0")
  case True
  then show ?thesis by (simp add: size_class_def size_class_in_def)
next
  case False
  then show ?thesis by (simp add: size_class_shipped)
qed

text \<open>
  C16. Whatever golden file the generator accepts, the lookup over the table it derives finds the
  least fitting class: the checks of \<open>Table::validate\<close> are strong enough for \<open>size_class_in\<close>.
\<close>

theorem validate_lookup_sound:
  assumes "validate g = Inr t" and "0 < sz"
  shows "size_class_in sz al (t_quantum t) (t_small_max t) (t_max_align t) (t_size_to_class t)
           (t_classes t) =
    Ret (if \<exists>i. fits (t_classes t) sz al i then Some (LEAST i. fits (t_classes t) sz al i) else None)"
proof -
  note v = validate_Inr [OF assms(1)]
  show ?thesis
    unfolding v(2-5)
    by (rule size_table.size_class_in_least [OF accepted_size_table [OF v(1)] assms(2)])
qed

text \<open>A golden file with the two classes 16 and 32, for which everything is evaluated.\<close>

definition tiny_golden :: Golden where
  "tiny_golden = \<lparr>schema_version = 1, g_page_size = 64, g_quantum = 16, g_tiny_min = 16,
     g_small_max = 32, g_huge_threshold = 64,
     g_classes = [mk_row 16 16 1 4 1 2, mk_row 32 32 1 2 1 2]\<rparr>"

lemma tiny_golden_valid:
  "validate tiny_golden = Inr \<lparr>t_page_size = 64, t_quantum = 16, t_tiny_min = 16, t_small_max = 32,
     t_huge_threshold = 64, t_max_align = 32,
     t_classes = [mk_row 16 16 1 4 1 2, mk_row 32 32 1 2 1 2], t_size_to_class = [0, 1]\<rparr>"
  by (simp add: validate_def tiny_golden_def mk_row_def is_pow2_def check_class_def
      spacing_target_def recheck_size_def get_def upt_rec)

lemma validate_lookup_sound_witness:
  "\<exists>t. validate tiny_golden = Inr t \<and>
     size_class_in 5 32 (t_quantum t) (t_small_max t) (t_max_align t) (t_size_to_class t) (t_classes t) =
       Ret (if \<exists>i. fits (t_classes t) 5 32 i then Some (LEAST i. fits (t_classes t) 5 32 i) else None)"
  using validate_lookup_sound [OF tiny_golden_valid, of 5 32] tiny_golden_valid by auto

text \<open>
  C17. The checked-in tables are the generator's output: it accepts the golden file and derives
  from it the shipped \<open>SIZE_TO_CLASS\<close>, \<open>MAX_ALIGN\<close> and the other constants.
\<close>

theorem validate_GOLDEN:
  "validate GOLDEN = Inr \<lparr>t_page_size = PAGE_SIZE, t_quantum = QUANTUM, t_tiny_min = TINY_MIN,
     t_small_max = SMALL_MAX, t_huge_threshold = HUGE_THRESHOLD, t_max_align = MAX_ALIGN,
     t_classes = SIZE_CLASSES, t_size_to_class = SIZE_TO_CLASS\<rparr>"
proof -
  have d: "derive_lookup GOLDEN [0..<g_small_max GOLDEN div g_quantum GOLDEN] = Inr SIZE_TO_CLASS"
    using GOLDEN_accepted unfolding accepted_def by blast
  have hd: "row_size (hd SIZE_CLASSES) = 16" by (simp add: SIZE_CLASSES_def mk_row_def)
  have ne: "SIZE_CLASSES \<noteq> []" using SIZE_CLASSES_length by force
  show ?thesis
    unfolding validate_def d accepted_recheck [OF GOLDEN_accepted] sum.case option.case
    using ne hd
    by (simp add: SIZE_CLASSES_checked is_pow2_def SIZE_CLASSES_last SIZE_CLASSES_max_align
        PAGE_SIZE_def QUANTUM_def TINY_MIN_def SMALL_MAX_def HUGE_THRESHOLD_def MAX_ALIGN_def)
qed

end
