(* ===== verification/Ids.thy ===== *)
theory Ids
  imports Topo_Prelude
begin

text \<open>
  \<open>crates/topo-core/src/ids.rs\<close> and the small value types of \<open>arena.rs\<close> that other
  components carry: generations, capability rights and the NUMA policy with its packed
  64-bit encoding. Identifiers (\<open>ArenaId\<close>, \<open>Label\<close>, \<open>NodeId\<close>, \<open>SpanId\<close>, \<open>LargeId\<close>) are the
  natural numbers below \<open>2 ^ 32\<close> they wrap.
\<close>

type_synonym ArenaId = nat
type_synonym Label = nat
type_synonym NodeId = nat
type_synonym SpanId = nat
type_synonym LargeId = nat
type_synonym SizeClassId = nat
type_synonym Generation = nat

definition ArenaId_DEFAULT :: ArenaId where "ArenaId_DEFAULT = 0"
definition Label_PUBLIC :: Label where "Label_PUBLIC = 0"
definition NodeId_DEFAULT :: NodeId where "NodeId_DEFAULT = 0"

section \<open>Generations\<close>

definition Generation_FIRST :: Generation where "Generation_FIRST = 0"

definition Generation_next :: "Generation \<Rightarrow> Generation" where
  "Generation_next g = (let n = wrapping_add 32 g 1 in if n = 0 then 1 else n)"

lemma Generation_next_eq:
  "is_u32 g \<Longrightarrow> Generation_next g = (if g = U32_MAX then 1 else g + 1)"
  by (auto simp: Generation_next_def wrapping_add_def U32_MAX_def)

lemma Generation_next_fresh:
  assumes "is_u32 g"
  shows "Generation_next g \<noteq> g" and "Generation_next g \<noteq> Generation_FIRST"
    and "is_u32 (Generation_next g)"
  using assms by (auto simp: Generation_next_eq Generation_FIRST_def U32_MAX_def)

section \<open>Capability rights\<close>

datatype CapRights = CapRights "8 word"

definition CapRights_ALLOC :: CapRights where "CapRights_ALLOC = CapRights 0b0001"
definition CapRights_FREE :: CapRights where "CapRights_FREE = CapRights 0b0010"
definition CapRights_STATS :: CapRights where "CapRights_STATS = CapRights 0b0100"
definition CapRights_DESTROY :: CapRights where "CapRights_DESTROY = CapRights 0b1000"
definition ALL_BITS :: "8 word" where "ALL_BITS = 0b1111"
definition CapRights_ALL :: CapRights where "CapRights_ALL = CapRights ALL_BITS"
definition CapRights_NONE :: CapRights where "CapRights_NONE = CapRights 0"

fun CapRights_bits :: "CapRights \<Rightarrow> 8 word" where
  "CapRights_bits (CapRights b) = b"

definition CapRights_from_bits :: "8 word \<Rightarrow> CapRights option" where
  "CapRights_from_bits bits = (if bits AND NOT ALL_BITS \<noteq> 0 then None else Some (CapRights bits))"

fun CapRights_union :: "CapRights \<Rightarrow> CapRights \<Rightarrow> CapRights" where
  "CapRights_union (CapRights a) (CapRights b) = CapRights (a OR b)"

fun CapRights_contains :: "CapRights \<Rightarrow> CapRights \<Rightarrow> bool" where
  "CapRights_contains (CapRights a) (CapRights b) \<longleftrightarrow> a AND b = b"

definition CapRights_attenuates :: "CapRights \<Rightarrow> CapRights \<Rightarrow> bool" where
  "CapRights_attenuates self parent \<longleftrightarrow> CapRights_contains parent self"

text \<open>Containment is inclusion of the sets of rights, so attenuation is a partial order.\<close>

definition rights_set :: "CapRights \<Rightarrow> nat set" where
  "rights_set r = {n. bit (CapRights_bits r) n}"

lemma CapRights_contains_iff: "CapRights_contains a b \<longleftrightarrow> rights_set b \<subseteq> rights_set a"
  by (cases a; cases b) (auto simp: rights_set_def word_bits_eq bit_simps)

lemma rights_set_inject: "rights_set a = rights_set b \<longleftrightarrow> a = b"
  by (cases a; cases b) (auto simp: rights_set_def word_bits_eq)

lemma CapRights_contains_refl [simp]: "CapRights_contains a a"
  by (simp add: CapRights_contains_iff)

lemma CapRights_contains_trans:
  "CapRights_contains a b \<Longrightarrow> CapRights_contains b c \<Longrightarrow> CapRights_contains a c"
  unfolding CapRights_contains_iff by blast

lemma CapRights_contains_antisym:
  "CapRights_contains a b \<Longrightarrow> CapRights_contains b a \<Longrightarrow> a = b"
  unfolding CapRights_contains_iff by (simp add: rights_set_inject [symmetric])

lemma rights_set_union: "rights_set (CapRights_union a b) = rights_set a \<union> rights_set b"
  by (cases a; cases b) (auto simp: rights_set_def bit_simps)

section \<open>NUMA policy\<close>

datatype NumaPolicy = Local | Interleave | Bind NodeId | ArenaPolicy_numa | OsDefault

fun NumaPolicy_encode :: "NumaPolicy \<Rightarrow> u64w" where
  "NumaPolicy_encode Local = 0"
| "NumaPolicy_encode Interleave = 1"
| "NumaPolicy_encode ArenaPolicy_numa = 2"
| "NumaPolicy_encode OsDefault = 3"
| "NumaPolicy_encode (Bind n) = 4 OR push_bit 32 (of_nat n)"

definition NumaPolicy_decode :: "u64w \<Rightarrow> NumaPolicy" where
  "NumaPolicy_decode v =
     (let t = v AND 0xFFFFFFFF in
      if t = 0 then Local
      else if t = 1 then Interleave
      else if t = 2 then ArenaPolicy_numa
      else if t = 4 then Bind (unat (drop_bit 32 v))
      else OsDefault)"

lemma Bind_word:
  fixes n :: nat
  assumes "is_u32 n"
  shows "(4 OR push_bit 32 (of_nat n)) AND 0xFFFFFFFF = (4 :: u64w)"
    and "drop_bit 32 (push_bit 32 (of_nat n :: u64w)) = of_nat n"
    and "unat (of_nat n :: u64w) = n"
proof -
  have m: "(0xFFFFFFFF :: u64w) = mask 32" by (simp add: mask_eq_exp_minus_1)
  have "(4 OR push_bit 32 (of_nat n)) AND mask 32 = (4 AND mask 32 :: u64w)"
    by (rule bit_word_eqI) (auto simp: bit_simps)
  also have "\<dots> = 4" by (simp add: mask_eq_exp_minus_1)
  finally show "(4 OR push_bit 32 (of_nat n)) AND 0xFFFFFFFF = (4 :: u64w)" unfolding m .
  show u: "unat (of_nat n :: u64w) = n"
    using assms by (simp add: unat_of_nat)
  have "n < 2 ^ 32" using assms by simp
  then have hi: "bit n k \<Longrightarrow> k < 32" for k
    by (metis bit_take_bit_iff take_bit_nat_eq_self)
  show "drop_bit 32 (push_bit 32 (of_nat n :: u64w)) = of_nat n"
    by (rule bit_word_eqI) (auto simp: bit_simps bit_of_nat_iff dest: hi)
qed

text \<open>
  The packed NUMA policy decodes to the policy that was stored, for every policy and every
  32-bit node.
\<close>

theorem NumaPolicy_roundtrip:
  assumes "case p of Bind n \<Rightarrow> is_u32 n | _ \<Rightarrow> True"
  shows "NumaPolicy_decode (NumaPolicy_encode p) = p"
  using assms
  by (cases p) (simp_all add: NumaPolicy_decode_def Let_def Bind_word)

lemma NumaPolicy_roundtrip_witness:
  "NumaPolicy_decode (NumaPolicy_encode (Bind 4294967295)) = Bind 4294967295"
  using NumaPolicy_roundtrip [of "Bind 4294967295"] by simp

end
