(* ===== verification/Flags.thy ===== *)
theory Flags
  imports Ids
begin

text \<open>
  \<open>crates/topo-core/src/flags.rs\<close>: the packed 32-bit request flags. The bit fields are words;
  the lemmas read each mask as a field of the word and show that the decoder \<open>hints\<close> and
  \<open>arena\<close> invert the builders.
\<close>

datatype Lifetime = Unspecified | Short | Medium_life | Long
datatype HugepagePolicy = HugeDefault | Avoid | Prefer

record Hints =
  zero :: bool
  cache_bypass :: bool
  guarded :: bool
  hugepage :: HugepagePolicy
  lifetime :: Lifetime
  hotness :: "8 word"
  numa :: NumaPolicy

type_synonym RequestFlags = u32w

definition NONE :: RequestFlags where "NONE = 0"
definition ZERO :: u32w where "ZERO = push_bit 0 1"
definition CACHE_BYPASS :: u32w where "CACHE_BYPASS = push_bit 1 1"
definition GUARDED :: u32w where "GUARDED = push_bit 2 1"
definition NO_HUGEPAGE :: u32w where "NO_HUGEPAGE = push_bit 3 1"
definition PREFER_HUGEPAGE :: u32w where "PREFER_HUGEPAGE = push_bit 4 1"
definition LIFETIME_SHIFT :: nat where "LIFETIME_SHIFT = 5"
definition LIFETIME_MASK :: u32w where "LIFETIME_MASK = push_bit LIFETIME_SHIFT 0b11"
definition HOTNESS_SHIFT :: nat where "HOTNESS_SHIFT = 7"
definition HOTNESS_MASK :: u32w where "HOTNESS_MASK = push_bit HOTNESS_SHIFT 0xFF"
definition ARENA_SHIFT :: nat where "ARENA_SHIFT = 15"
definition ARENA_MASK :: u32w where "ARENA_MASK = push_bit ARENA_SHIFT 0xFF"
definition MAX_ARENA_ID :: nat where "MAX_ARENA_ID = 254"

definition KNOWN_MASK :: u32w where
  "KNOWN_MASK = ZERO OR CACHE_BYPASS OR GUARDED OR NO_HUGEPAGE OR PREFER_HUGEPAGE
     OR LIFETIME_MASK OR HOTNESS_MASK OR ARENA_MASK"

definition RESERVED_MASK :: u32w where
  "RESERVED_MASK = NOT KNOWN_MASK"

definition from_raw :: "u32w \<Rightarrow> RequestFlags option" where
  "from_raw raw =
     (if raw AND RESERVED_MASK \<noteq> 0 then None
      else if raw AND NO_HUGEPAGE \<noteq> 0 \<and> raw AND PREFER_HUGEPAGE \<noteq> 0 then None
      else Some raw)"

definition arena_of :: "RequestFlags \<Rightarrow> ArenaId" where
  "arena_of f =
     (let v = drop_bit ARENA_SHIFT (f AND ARENA_MASK)
      in if v = 0 then ArenaId_DEFAULT else unat (v - 1))"

definition hints :: "RequestFlags \<Rightarrow> Hints" where
  "hints f =
     (let hp = (if f AND NO_HUGEPAGE \<noteq> 0 then Avoid
                else if f AND PREFER_HUGEPAGE \<noteq> 0 then Prefer else HugeDefault);
          lv = drop_bit LIFETIME_SHIFT (f AND LIFETIME_MASK);
          lt = (if lv = 1 then Short else if lv = 2 then Medium_life
                else if lv = 3 then Long else Unspecified)
      in \<lparr>zero = (f AND ZERO \<noteq> 0), cache_bypass = (f AND CACHE_BYPASS \<noteq> 0),
          guarded = (f AND GUARDED \<noteq> 0), hugepage = hp, lifetime = lt,
          hotness = ucast (drop_bit HOTNESS_SHIFT (f AND HOTNESS_MASK)), numa = OsDefault\<rparr>)"

definition hints_with_numa :: "RequestFlags \<Rightarrow> NumaPolicy \<Rightarrow> Hints" where
  "hints_with_numa f n = (hints f)\<lparr>numa := n\<rparr>"

definition with_zero :: "RequestFlags \<Rightarrow> RequestFlags" where
  "with_zero f = f OR ZERO"

definition with_cache_bypass :: "RequestFlags \<Rightarrow> RequestFlags" where
  "with_cache_bypass f = f OR CACHE_BYPASS"

definition with_guarded :: "RequestFlags \<Rightarrow> RequestFlags" where
  "with_guarded f = f OR GUARDED"

definition with_hugepage :: "RequestFlags \<Rightarrow> HugepagePolicy \<Rightarrow> RequestFlags" where
  "with_hugepage f policy =
     (let cleared = f AND NOT (NO_HUGEPAGE OR PREFER_HUGEPAGE);
          b = (case policy of HugeDefault \<Rightarrow> 0 | Avoid \<Rightarrow> NO_HUGEPAGE | Prefer \<Rightarrow> PREFER_HUGEPAGE)
      in cleared OR b)"

definition with_lifetime :: "RequestFlags \<Rightarrow> Lifetime \<Rightarrow> RequestFlags" where
  "with_lifetime f l =
     (let v = (case l of Unspecified \<Rightarrow> 0 | Short \<Rightarrow> 1 | Medium_life \<Rightarrow> 2 | Long \<Rightarrow> 3)
      in (f AND NOT LIFETIME_MASK) OR push_bit LIFETIME_SHIFT v)"

definition with_hotness :: "RequestFlags \<Rightarrow> 8 word \<Rightarrow> RequestFlags" where
  "with_hotness f h = (f AND NOT HOTNESS_MASK) OR push_bit HOTNESS_SHIFT (ucast h)"

definition with_arena :: "RequestFlags \<Rightarrow> nat \<Rightarrow> RequestFlags option" where
  "with_arena f i =
     (if MAX_ARENA_ID < i then None
      else Some ((f AND NOT ARENA_MASK) OR push_bit ARENA_SHIFT (of_nat (i + 1))))"

section \<open>Masks as fields\<close>

lemma mask_fields:
  "LIFETIME_MASK = field_mask 5 2" "HOTNESS_MASK = field_mask 7 8" "ARENA_MASK = field_mask 15 8"
  "NO_HUGEPAGE OR PREFER_HUGEPAGE = field_mask 3 2"
  by (simp_all add: field_mask_def LIFETIME_MASK_def HOTNESS_MASK_def ARENA_MASK_def
      LIFETIME_SHIFT_def HOTNESS_SHIFT_def ARENA_SHIFT_def NO_HUGEPAGE_def PREFER_HUGEPAGE_def
      mask_eq_exp_minus_1)

lemma flag_bits:
  "f AND ZERO \<noteq> 0 \<longleftrightarrow> bit f 0" "f AND CACHE_BYPASS \<noteq> 0 \<longleftrightarrow> bit f 1"
  "f AND GUARDED \<noteq> 0 \<longleftrightarrow> bit f 2" "f AND NO_HUGEPAGE \<noteq> 0 \<longleftrightarrow> bit f 3"
  "f AND PREFER_HUGEPAGE \<noteq> 0 \<longleftrightarrow> bit f 4"
  unfolding ZERO_def CACHE_BYPASS_def GUARDED_def NO_HUGEPAGE_def PREFER_HUGEPAGE_def
    push_bit_of_1 and_exp_eq_0_iff_not_bit by simp_all

lemma bit_KNOWN_MASK: "bit KNOWN_MASK n \<longleftrightarrow> n < 23"
proof -
  have "KNOWN_MASK = mask 23"
    by (simp add: KNOWN_MASK_def ZERO_def CACHE_BYPASS_def GUARDED_def NO_HUGEPAGE_def
        PREFER_HUGEPAGE_def LIFETIME_MASK_def HOTNESS_MASK_def ARENA_MASK_def
        LIFETIME_SHIFT_def HOTNESS_SHIFT_def ARENA_SHIFT_def mask_eq_exp_minus_1)
  then have "bit KNOWN_MASK n \<longleftrightarrow> bit (mask 23 :: u32w) n" by (rule arg_cong)
  also have "\<dots> \<longleftrightarrow> n < 23" unfolding bit_mask_iff by (auto simp: possible_bit_word)
  finally show ?thesis .
qed

definition valid_flags :: "RequestFlags \<Rightarrow> bool" where
  "valid_flags f \<longleftrightarrow> (\<forall>n. bit f n \<longrightarrow> n < 23) \<and> \<not> (bit f 3 \<and> bit f 4)"

lemma from_raw_iff: "from_raw raw = (if valid_flags raw then Some raw else None)"
proof -
  have "bit raw n \<Longrightarrow> n < 32" for n using bit_imp_le_length [of raw n] by simp
  then have "raw AND RESERVED_MASK = 0 \<longleftrightarrow> (\<forall>n. bit raw n \<longrightarrow> n < 23)"
    unfolding word_bits_eq RESERVED_MASK_def bit_and_iff bit_not_iff bit_KNOWN_MASK
    by (auto simp: possible_bit_word)
  then show ?thesis
    unfolding from_raw_def flag_bits valid_flags_def by auto
qed

text \<open>Every decoder is a function of the fields, every builder a field update.\<close>

definition lifetime_of :: "u32w \<Rightarrow> Lifetime" where
  "lifetime_of lv = (if lv = 1 then Short else if lv = 2 then Medium_life
     else if lv = 3 then Long else Unspecified)"

definition lifetime_code :: "Lifetime \<Rightarrow> u32w" where
  "lifetime_code l = (case l of Unspecified \<Rightarrow> 0 | Short \<Rightarrow> 1 | Medium_life \<Rightarrow> 2 | Long \<Rightarrow> 3)"

definition hugepage_of :: "bool \<Rightarrow> bool \<Rightarrow> HugepagePolicy" where
  "hugepage_of no pr = (if no then Avoid else if pr then Prefer else HugeDefault)"

definition hugepage_code :: "HugepagePolicy \<Rightarrow> u32w" where
  "hugepage_code p = (case p of HugeDefault \<Rightarrow> 0 | Avoid \<Rightarrow> 1 | Prefer \<Rightarrow> 2)"

definition arena_code :: "nat \<Rightarrow> u32w" where
  "arena_code i = of_nat (i + 1)"

lemma hints_fields:
  "hints f = \<lparr>zero = bit f 0, cache_bypass = bit f 1, guarded = bit f 2,
     hugepage = hugepage_of (bit f 3) (bit f 4), lifetime = lifetime_of (field_get 5 2 f),
     hotness = ucast (field_get 7 8 f), numa = OsDefault\<rparr>"
  unfolding hints_def Let_def flag_bits
  by (simp add: mask_fields field_get_def hugepage_of_def lifetime_of_def
      LIFETIME_SHIFT_def HOTNESS_SHIFT_def)

lemma arena_field:
  "arena_of f = (if field_get 15 8 f = 0 then ArenaId_DEFAULT else unat (field_get 15 8 f - 1))"
  by (simp add: arena_of_def mask_fields field_get_def ARENA_SHIFT_def)

lemma builder_fields:
  "with_lifetime f l = field_put 5 2 (lifetime_code l) f"
  "with_hotness f h = field_put 7 8 (ucast h) f"
  "with_hugepage f p = field_put 3 2 (hugepage_code p) f"
  "with_arena f i = (if MAX_ARENA_ID < i then None else Some (field_put 15 8 (arena_code i) f))"
proof -
  show "with_lifetime f l = field_put 5 2 (lifetime_code l) f"
    by (simp add: with_lifetime_def field_put_def mask_fields lifetime_code_def LIFETIME_SHIFT_def
        del: push_bit_numeral split: Lifetime.split)
  show "with_hotness f h = field_put 7 8 (ucast h) f"
    by (simp add: with_hotness_def field_put_def mask_fields HOTNESS_SHIFT_def)
  show "with_hugepage f p = field_put 3 2 (hugepage_code p) f"
    unfolding with_hugepage_def Let_def mask_fields field_put_def hugepage_code_def
    by (cases p) (simp_all add: NO_HUGEPAGE_def PREFER_HUGEPAGE_def)
  show "with_arena f i = (if MAX_ARENA_ID < i then None else Some (field_put 15 8 (arena_code i) f))"
    by (simp add: with_arena_def field_put_def mask_fields ARENA_SHIFT_def arena_code_def)
qed

lemma code_fits [simp]:
  "take_bit 2 (lifetime_code l) = lifetime_code l" "take_bit 2 (hugepage_code p) = hugepage_code p"
  "take_bit 8 (ucast (h :: 8 word) :: u32w) = ucast h"
proof -
  show "take_bit 2 (lifetime_code l) = lifetime_code l"
    by (cases l) (simp_all add: lifetime_code_def)
  show "take_bit 2 (hugepage_code p) = hugepage_code p"
    by (cases p) (simp_all add: hugepage_code_def)
  show "take_bit 8 (ucast h :: u32w) = ucast h"
    unfolding word_bits_eq by (auto simp: bit_simps dest: bit_imp_le_length)
qed

lemma arena_code:
  assumes "i \<le> MAX_ARENA_ID"
  shows "take_bit 8 (arena_code i) = arena_code i" and "arena_code i \<noteq> 0" and "unat (arena_code i - 1) = i"
proof -
  have u: "unat (arena_code i) = i + 1"
    using assms unfolding MAX_ARENA_ID_def arena_code_def unat_of_nat by simp
  show "take_bit 8 (arena_code i) = arena_code i"
    using assms u unfolding MAX_ARENA_ID_def
    by (simp add: word_unat_eq_iff unsigned_take_bit_eq take_bit_nat_eq_self)
  show "arena_code i \<noteq> 0" using u by (metis add_is_0 unat_0 zero_neq_one)
  show "unat (arena_code i - 1) = i"
    using assms unfolding MAX_ARENA_ID_def arena_code_def by (simp add: unat_of_nat)
qed

lemma code_decode [simp]:
  "lifetime_of (lifetime_code l) = l"
  "hugepage_of (bit (hugepage_code p) 0) (bit (hugepage_code p) (Suc 0)) = p"
  by (cases l; simp add: lifetime_of_def lifetime_code_def)
     (cases p; simp add: hugepage_of_def hugepage_code_def bit_1_iff bit_numeral_rec)

text \<open>Setting one flag bit.\<close>

definition flag_put :: "nat \<Rightarrow> u32w \<Rightarrow> u32w" where
  "flag_put n f = f OR push_bit n 1"

lemma bit_flag_put [simp]: "n < 32 \<Longrightarrow> bit (flag_put n f) k \<longleftrightarrow> k = n \<or> bit f k"
  by (auto simp: flag_put_def bit_simps)

lemma field_get_flag_put:
  "n < 32 \<Longrightarrow> n < s \<or> s + w \<le> n \<Longrightarrow> field_get s w (flag_put n f) = field_get s w f"
  unfolding word_bits_eq by auto

lemma with_bits:
  "with_zero f = flag_put 0 f" "with_cache_bypass f = flag_put 1 f" "with_guarded f = flag_put 2 f"
  by (simp_all add: with_zero_def ZERO_def with_cache_bypass_def CACHE_BYPASS_def
      with_guarded_def GUARDED_def flag_put_def)

lemma hints_with_arena:
  assumes "i \<le> MAX_ARENA_ID"
  shows "hints (field_put 15 8 (arena_code i) f) = hints f"
    and "arena_of (field_put 15 8 (arena_code i) f) = i"
proof -
  note code = arena_code [OF assms]
  show "hints (field_put 15 8 (arena_code i) f) = hints f"
    unfolding hints_fields by (simp add: field_get_put_other [OF _ code(1)])
  show "arena_of (field_put 15 8 (arena_code i) f) = i"
    unfolding arena_field using code by (simp add: field_get_put_same)
qed

lemma ucast_ucast_u8 [simp]: "ucast (ucast h :: u32w) = (h :: 8 word)"
  unfolding word_bits_eq by (auto simp: bit_simps dest: bit_imp_le_length)

lemma valid_field_put:
  assumes "valid_flags f" and "take_bit w v = v" and "5 \<le> s" and "s + w \<le> 23"
  shows "valid_flags (field_put s w v f)"
proof -
  have v: "bit v k \<Longrightarrow> k < w" for k using assms(2) by (metis bit_take_bit_iff)
  have "s \<le> n \<Longrightarrow> bit v (n - s) \<Longrightarrow> n < 23" for n
    using v [of "n - s"] assms(4) by linarith
  with assms(1,3,4) show ?thesis unfolding valid_flags_def by auto
qed

lemma valid_flag_put: "valid_flags f \<Longrightarrow> n < 3 \<Longrightarrow> valid_flags (flag_put n f)"
  unfolding valid_flags_def by auto

lemma hugepage_code_bits: "bit (hugepage_code p) n \<longleftrightarrow> (case p of HugeDefault \<Rightarrow> False | Avoid \<Rightarrow> n = 0 | Prefer \<Rightarrow> n = 1)"
proof -
  have "(2 :: u32w) = push_bit 1 1" by simp
  then have "bit (2 :: u32w) n \<longleftrightarrow> n = 1" by (simp only: bit_simps) auto
  then show ?thesis by (cases p) (simp_all add: hugepage_code_def bit_1_iff)
qed

lemma valid_with_hugepage: "valid_flags f \<Longrightarrow> valid_flags (field_put 3 2 (hugepage_code p) f)"
  unfolding valid_flags_def by (cases p) (auto simp: hugepage_code_bits)

lemma valid_builders:
  assumes "valid_flags f"
  shows "valid_flags (with_zero f)" and "valid_flags (with_cache_bypass f)"
    and "valid_flags (with_guarded f)" and "valid_flags (with_hugepage f p)"
    and "valid_flags (with_lifetime f l)" and "valid_flags (with_hotness f h)"
    and "with_arena f i = Some f' \<Longrightarrow> valid_flags f'"
  unfolding builder_fields with_bits using assms
  by (auto intro!: valid_flag_put valid_field_put valid_with_hugepage arena_code split: if_splits)

text \<open>Each field holds the code of what it decodes to.\<close>

lemma field_get_less: "w < 32 \<Longrightarrow> unat (field_get s w f :: u32w) < 2 ^ w"
proof -
  have "take_bit w (field_get s w f) = field_get s w f"
    unfolding word_bits_eq by (auto simp: bit_simps)
  then show ?thesis
    by (metis take_bit_nat_less_exp unsigned_take_bit_eq)
qed

lemma lifetime_recode: "lifetime_code (lifetime_of (field_get 5 2 f)) = field_get 5 2 f"
proof -
  have "unat (field_get 5 2 f) < 4" using field_get_less [of 2 5 f] by simp
  then consider "unat (field_get 5 2 f) = 0" | "unat (field_get 5 2 f) = 1"
    | "unat (field_get 5 2 f) = 2" | "unat (field_get 5 2 f) = 3" by linarith
  then have "field_get 5 2 f \<in> {0, 1, 2, 3}"
    by cases (auto simp: word_unat_eq_iff)
  then show ?thesis by (auto simp: lifetime_of_def lifetime_code_def)
qed

lemma arena_recode:
  assumes "field_get 15 8 f \<noteq> 0"
  shows "arena_of f \<le> MAX_ARENA_ID" and "arena_code (arena_of f) = field_get 15 8 f"
proof -
  have lt: "unat (field_get 15 8 f) < 256" using field_get_less [of 8 15 f] by simp
  have a: "arena_of f + 1 = unat (field_get 15 8 f)"
    using assms by (simp add: arena_field unat_minus_one unat_gt_0)
  then show "arena_of f \<le> MAX_ARENA_ID" using lt by (simp add: MAX_ARENA_ID_def)
  show "arena_code (arena_of f) = field_get 15 8 f" unfolding arena_code_def a by simp
qed

lemma hotness_recode: "ucast (ucast (field_get s 8 f) :: 8 word) = (field_get s 8 f :: u32w)"
  unfolding word_bits_eq by (auto simp: bit_simps dest: bit_imp_le_length)

lemma hugepage_recode:
  assumes "\<not> (bit f 3 \<and> bit f 4)"
  shows "hugepage_code (hugepage_of (bit f 3) (bit f 4)) = field_get 3 2 f"
proof -
  have "bit (hugepage_code (hugepage_of (bit f 3) (bit f 4))) n \<longleftrightarrow> n < 2 \<and> bit f (3 + n)" for n
    using assms by (cases "n = 0"; cases "n = 1") (auto simp: hugepage_code_bits hugepage_of_def)
  then show ?thesis unfolding word_bits_eq by simp
qed

text \<open>Setting the decoded hints on the empty word, one builder after the other.\<close>

definition rebuild :: "Hints \<Rightarrow> RequestFlags" where
  "rebuild h =
     with_hotness (with_lifetime (with_hugepage
       ((if guarded h then with_guarded else id) ((if cache_bypass h then with_cache_bypass else id)
         ((if zero h then with_zero else id) NONE)))
       (hugepage h)) (lifetime h)) (hotness h)"

lemma bit_rebuild:
  assumes "valid_flags f"
  shows "bit (rebuild (hints f)) n \<longleftrightarrow> n < 15 \<and> bit f n"
proof -
  have nb: "\<not> (bit f 3 \<and> bit f 4)" using assms by (simp add: valid_flags_def)
  let ?b = "(if bit f 2 then flag_put 2 else id)
    ((if bit f 1 then flag_put 1 else id) ((if bit f 0 then flag_put 0 else id) (0 :: u32w)))"
  have base: "bit ?b n \<longleftrightarrow> n < 3 \<and> bit f n" for n
  proof -
    have "n < 3 \<longleftrightarrow> n = 0 \<or> n = 1 \<or> n = 2" by auto
    then show ?thesis by (cases "bit f 0"; cases "bit f 1"; cases "bit f 2") auto
  qed
  have r: "rebuild (hints f) = field_put 7 8 (field_get 7 8 f) (field_put 5 2 (field_get 5 2 f)
      (field_put 3 2 (field_get 3 2 f) ?b))"
    unfolding rebuild_def builder_fields hints_fields with_bits NONE_def
    by (simp add: hotness_recode lifetime_recode hugepage_recode [OF nb] cong: if_cong)
  have len: "bit f n \<Longrightarrow> n < 32" using bit_imp_le_length [of f n] by simp
  consider "n < 3" | "3 \<le> n" "n < 5" | "5 \<le> n" "n < 7" | "7 \<le> n" "n < 15" | "15 \<le> n"
    by linarith
  then show ?thesis
    unfolding r bit_field_put bit_field_get base using len
    by cases (simp_all add: less_diff_conv2)
qed

section \<open>Properties\<close>

text \<open>
  C19. Each builder sets the hint it names, leaves every other hint and the arena as they were;
  choosing an arena changes no hint and is read back exactly, and an identifier beyond the
  field is refused.
\<close>

theorem builders_set_one_field:
  "hints (with_zero f) = (hints f)\<lparr>zero := True\<rparr> \<and> arena_of (with_zero f) = arena_of f \<and>
   hints (with_cache_bypass f) = (hints f)\<lparr>cache_bypass := True\<rparr> \<and>
     arena_of (with_cache_bypass f) = arena_of f \<and>
   hints (with_guarded f) = (hints f)\<lparr>guarded := True\<rparr> \<and> arena_of (with_guarded f) = arena_of f \<and>
   hints (with_hugepage f p) = (hints f)\<lparr>hugepage := p\<rparr> \<and> arena_of (with_hugepage f p) = arena_of f \<and>
   hints (with_lifetime f l) = (hints f)\<lparr>lifetime := l\<rparr> \<and> arena_of (with_lifetime f l) = arena_of f \<and>
   hints (with_hotness f h) = (hints f)\<lparr>hotness := h\<rparr> \<and> arena_of (with_hotness f h) = arena_of f \<and>
   map_option (\<lambda>f'. (hints f', arena_of f')) (with_arena f i) =
     (if i \<le> MAX_ARENA_ID then Some (hints f, i) else None)"
proof -
  have "map_option (\<lambda>f'. (hints f', arena_of f')) (with_arena f i) =
     (if i \<le> MAX_ARENA_ID then Some (hints f, i) else None)"
    unfolding builder_fields by (simp add: hints_with_arena)
  then show ?thesis
    unfolding builder_fields(1-3) with_bits
    by (simp add: hints_fields arena_field field_get_flag_put field_get_put_other field_get_put_same)
qed

text \<open>
  C20. The flag word and its decoded form hold the same information: \<open>from_raw\<close> accepts a word
  only if setting its decoded hints and its arena on the empty word, one builder after the other,
  gives the word back, and every word so built is accepted.
\<close>


theorem from_raw_rebuild:
  "(\<forall>f. from_raw raw = Some f \<longrightarrow> f = raw \<and>
      (if f AND ARENA_MASK = 0 then rebuild (hints f) = f
       else with_arena (rebuild (hints f)) (arena_of f) = Some f)) \<and>
   from_raw (rebuild h) = Some (rebuild h) \<and>
   (\<forall>f i. with_arena (rebuild h) i = Some f \<longrightarrow> from_raw f = Some f)"
proof (intro conjI allI impI)
  fix f assume "from_raw raw = Some f"
  then show "f = raw" by (simp add: from_raw_iff split: if_splits)
  have v: "valid_flags f"
    using \<open>from_raw raw = Some f\<close> by (auto simp: from_raw_iff split: if_splits)
  then have hi: "bit f n \<Longrightarrow> n < 23" for n by (simp add: valid_flags_def)
  note rb = bit_rebuild [OF v]
  have mz: "f AND ARENA_MASK = 0 \<longleftrightarrow> (\<forall>n. 15 \<le> n \<longrightarrow> n < 23 \<longrightarrow> \<not> bit f n)"
    unfolding mask_fields word_bits_eq bit_and_iff bit_field_mask by auto
  show "if f AND ARENA_MASK = 0 then rebuild (hints f) = f
       else with_arena (rebuild (hints f)) (arena_of f) = Some f"
  proof (cases "f AND ARENA_MASK = 0")
    case True
    with mz hi rb show ?thesis by (auto simp: word_bits_eq) (meson not_le)
  next
    case False
    then obtain n where "15 \<le> n" "n < 23" "bit f n" unfolding mz by blast
    then have "bit (field_get 15 8 f) (n - 15)" by auto
    then have nz: "field_get 15 8 f \<noteq> 0" by force
    have "field_put 15 8 (field_get 15 8 f) (rebuild (hints f)) = f"
      unfolding word_bits_eq bit_field_put bit_field_get rb using hi
      by (auto dest: bit_imp_le_length)
    with False show ?thesis
      by (simp add: builder_fields arena_recode [OF nz] not_less)
  qed
next
  have none: "valid_flags NONE" by (simp add: valid_flags_def NONE_def)
  have "valid_flags (rebuild h)"
    unfolding rebuild_def using none by (auto intro!: valid_builders)
  then show "from_raw (rebuild h) = Some (rebuild h)" by (simp add: from_raw_iff)
  fix f i assume "with_arena (rebuild h) i = Some f"
  then show "from_raw f = Some f"
    using valid_builders(7) [OF \<open>valid_flags (rebuild h)\<close>] by (simp add: from_raw_iff)
qed

lemmas mask_values = KNOWN_MASK_def RESERVED_MASK_def ZERO_def CACHE_BYPASS_def GUARDED_def
  NO_HUGEPAGE_def PREFER_HUGEPAGE_def LIFETIME_MASK_def HOTNESS_MASK_def ARENA_MASK_def
  LIFETIME_SHIFT_def HOTNESS_SHIFT_def ARENA_SHIFT_def

lemma from_raw_rebuild_witness:
  "from_raw 0x18125 = Some 0x18125 \<and>
   with_arena (rebuild (hints 0x18125)) (arena_of 0x18125) = Some 0x18125"
proof -
  have "from_raw 0x18125 = Some 0x18125" and "(0x18125 :: u32w) AND ARENA_MASK \<noteq> 0"
    by (simp_all add: from_raw_def mask_values)
  then show ?thesis using from_raw_rebuild [of "0x18125"] by simp
qed

end
