(* ===== verification/Classify.thy ===== *)
theory Classify
  imports Overflow SizeClasses Flags
begin

text \<open>
  \<open>crates/topo-core/src/classify.rs\<close>: a request of a size, an alignment and raw flags becomes
  a small, medium or large request, or is refused. The theorems say that classification never
  panics, when it refuses, and that what it returns covers the request.
\<close>

datatype RequestKind =
    Small (sc: SizeClassId) (usable: usize)
  | Medium (bytes: usize)
  | Large (bytes: usize)

record Request =
  req_arena :: ArenaId
  req_label :: Label
  req_align :: usize
  req_flags :: RequestFlags
  req_kind :: RequestKind

definition choose_arena :: "RequestFlags \<Rightarrow> ArenaId" where
  "choose_arena f = arena_of f"

definition choose_label :: "ArenaId \<Rightarrow> RequestFlags \<Rightarrow> Label" where
  "choose_label a f = Label_PUBLIC"

definition classify :: "usize \<Rightarrow> usize \<Rightarrow> u32w \<Rightarrow> Request option outcome" where
  "classify sz align flags =
     (if \<not> is_power_of_two align then Ret None
      else case from_raw flags of
        None \<Rightarrow> Ret None
      | Some fl \<Rightarrow>
          (let effective = (if sz = 0 then 1 else sz);
               arena = choose_arena fl;
               label = choose_label arena fl
           in bind_outcome (size_class effective align) (\<lambda>found.
             case found of
               Some c \<Rightarrow>
                 bind_outcome (usable_size c) (\<lambda>u.
                   Ret (Some \<lparr>req_arena = arena, req_label = label, req_align = align,
                              req_flags = fl, req_kind = Small c u\<rparr>))
             | None \<Rightarrow>
                 (let span = max effective align
                  in case align_up span PAGE_SIZE of
                       None \<Rightarrow> Ret None
                     | Some b \<Rightarrow>
                         Ret (Some \<lparr>req_arena = arena, req_label = label, req_align = align,
                           req_flags = fl,
                           req_kind = (if HUGE_THRESHOLD \<le> span then Large b else Medium b)\<rparr>)))))"

text \<open>What a request of this kind must give the caller.\<close>

fun kind_serves :: "RequestKind \<Rightarrow> usize \<Rightarrow> usize \<Rightarrow> bool" where
  "kind_serves (Small c u) sz align \<longleftrightarrow>
     c < class_count \<and> u = row_size (SIZE_CLASSES ! c) \<and> 1 \<le> u \<and> sz \<le> u \<and>
     align dvd row_align (SIZE_CLASSES ! c) \<and> align dvd u"
| "kind_serves (Medium b) sz align \<longleftrightarrow>
     PAGE_SIZE dvd b \<and> sz \<le> b \<and> align \<le> b \<and> 0 < b \<and> is_usize b \<and> b \<le> HUGE_THRESHOLD"
| "kind_serves (Large b) sz align \<longleftrightarrow>
     PAGE_SIZE dvd b \<and> sz \<le> b \<and> align \<le> b \<and> is_usize b \<and> HUGE_THRESHOLD \<le> b"

lemma PAGE_SIZE_pow2: "is_power_of_two PAGE_SIZE" and PAGE_SIZE_usize: "is_usize PAGE_SIZE"
  by (simp_all add: PAGE_SIZE_def is_power_of_two_def)

lemma power_of_two_le_dvd:
  assumes "is_power_of_two a" and "is_power_of_two b" and "a \<le> b"
  shows "a dvd b"
proof -
  obtain j k where jk: "a = 2 ^ j" "b = 2 ^ k" using assms(1,2) by (auto simp: is_power_of_two_iff)
  with assms(3) have "j \<le> k" by simp
  with jk show ?thesis by (simp add: le_imp_power_dvd)
qed

lemma size_class_total: "\<exists>r. size_class sz al = Ret r"
proof (cases "0 < sz")
  case True
  then show ?thesis by (auto simp: size_class_shipped)
qed (simp add: size_class_def size_class_in_def)

lemma small_serves:
  assumes "size_class (if sz = 0 then 1 else sz) al = Ret (Some c)" and "is_power_of_two al"
  shows "usable_size c = Ret (row_size (SIZE_CLASSES ! c))"
    and "kind_serves (Small c (row_size (SIZE_CLASSES ! c))) sz al"
proof -
  note f = size_class_Some [OF assms(1)]
  note r = row_laws [OF f(2)]
  have d: "al dvd row_align (SIZE_CLASSES ! c)"
    using assms(2) r(2) f(4) by (rule power_of_two_le_dvd)
  then have "al dvd row_size (SIZE_CLASSES ! c)" using r(3) by (rule dvd_trans)
  with d f r show "kind_serves (Small c (row_size (SIZE_CLASSES ! c))) sz al"
    by (auto split: if_splits)
  show "usable_size c = Ret (row_size (SIZE_CLASSES ! c))"
    using f(2) by (simp add: usable_size_def row_of_def class_count_def)
qed

lemma paged_serves:
  assumes "align_up (max (if sz = 0 then 1 else sz) al) PAGE_SIZE = Some b"
  shows "kind_serves (if HUGE_THRESHOLD \<le> max (if sz = 0 then 1 else sz) al then Large b else Medium b) sz al"
proof -
  let ?m = "max (if sz = 0 then 1 else sz) al"
  note u = align_up_Some [OF PAGE_SIZE_pow2 PAGE_SIZE_usize assms]
  have le: "sz \<le> b" "al \<le> b" "0 < b"
    using u(1) by (auto split: if_splits)
  have "PAGE_SIZE dvd HUGE_THRESHOLD" by (simp add: PAGE_SIZE_def HUGE_THRESHOLD_def)
  then have "\<not> HUGE_THRESHOLD \<le> ?m \<Longrightarrow> b \<le> HUGE_THRESHOLD"
    using u(5) by (simp only: not_le less_imp_le)
  moreover have "HUGE_THRESHOLD \<le> ?m \<Longrightarrow> HUGE_THRESHOLD \<le> b" using u(1) by (rule le_trans [rotated])
  ultimately show ?thesis using u(2,4) le by (cases "HUGE_THRESHOLD \<le> ?m") simp_all
qed

section \<open>Properties\<close>

text \<open>
  C14. Classification never panics: every size, alignment and flag word is either refused or turned
  into a request, and it is refused exactly when the alignment is not a power of two, the flags
  are not valid, or no class fits and the page-rounded region exceeds the address space.
\<close>

theorem classify_total:
  "\<exists>r. classify sz al flags = Ret r \<and>
     (r = None \<longleftrightarrow> \<not> is_power_of_two al \<or> from_raw flags = None \<or>
        (\<not> (\<exists>i. fits SIZE_CLASSES (max 1 sz) al i) \<and>
         \<not> (\<exists>b. is_usize b \<and> PAGE_SIZE dvd b \<and> max (max 1 sz) al \<le> b)))"
proof (cases "is_power_of_two al \<and> from_raw flags \<noteq> None")
  case False
  then show ?thesis by (auto simp: classify_def)
next
  case True
  then obtain fl where fl: "from_raw flags = Some fl" and al: "is_power_of_two al" by auto
  have eff: "(if sz = 0 then 1 else sz) = max 1 sz" by auto
  have sc: "size_class (max 1 sz) al =
      Ret (if \<exists>i. fits SIZE_CLASSES (max 1 sz) al i
           then Some (LEAST i. fits SIZE_CLASSES (max 1 sz) al i) else None)"
    by (rule size_class_shipped) simp
  show ?thesis
  proof (cases "\<exists>i. fits SIZE_CLASSES (max 1 sz) al i")
    case fit: True
    with sc have c: "size_class (max 1 sz) al = Ret (Some (LEAST i. fits SIZE_CLASSES (max 1 sz) al i))"
      by simp
    with small_serves [where sz = sz and al = al, OF _ al] have
      "usable_size (LEAST i. fits SIZE_CLASSES (max 1 sz) al i) =
        Ret (row_size (SIZE_CLASSES ! (LEAST i. fits SIZE_CLASSES (max 1 sz) al i)))"
      unfolding eff by blast
    with fit al fl c show ?thesis by (simp add: classify_def eff Let_def)
  next
    case nofit: False
    with sc have c: "size_class (max 1 sz) al = Ret None" by simp
    have up: "align_up (max (max 1 sz) al) PAGE_SIZE = None \<longleftrightarrow>
        \<not> (\<exists>b. is_usize b \<and> PAGE_SIZE dvd b \<and> max (max 1 sz) al \<le> b)"
      by (rule align_up_None [OF PAGE_SIZE_pow2 PAGE_SIZE_usize])
    show ?thesis
    proof (cases "align_up (max (max 1 sz) al) PAGE_SIZE")
      case None
      with up nofit al fl c show ?thesis by (simp only: classify_def eff Let_def) simp
    next
      case (Some b)
      with up al fl c show ?thesis by (simp only: classify_def eff Let_def) simp
    qed
  qed
qed

lemma classify_total_witness: "classify 16 24 0 = Ret None"
  using classify_total [of 16 24 0] by (auto simp: is_power_of_two_def)

text \<open>
  C13. A classified request serves the caller: a small one names a class of the table whose usable
  size is at least the request and whose object alignment is a multiple of the requested one; a
  medium or large one is a whole number of pages that covers the size and the alignment, with the
  huge threshold separating the two. The arena is the one the flags choose.
\<close>

theorem classify_serves:
  assumes "classify sz al flags = Ret (Some r)"
  shows "kind_serves (req_kind r) sz al \<and> req_align r = al \<and> is_power_of_two al \<and>
    from_raw flags = Some (req_flags r) \<and> req_arena r = arena_of (req_flags r) \<and>
    req_label r = Label_PUBLIC"
proof -
  let ?e = "if sz = 0 then 1 else sz"
  have al: "is_power_of_two al" using assms by (auto simp: classify_def split: if_splits)
  with assms obtain fl where fl: "from_raw flags = Some fl"
    by (auto simp: classify_def split: option.splits)
  from size_class_total obtain found where f: "size_class ?e al = Ret found" by blast
  note unf = assms [unfolded classify_def Let_def f choose_arena_def choose_label_def]
  show ?thesis
  proof (cases found)
    case (Some c)
    with f small_serves [where sz = sz and al = al, OF _ al] unf al fl show ?thesis by auto
  next
    case None
    with unf al fl obtain b where "align_up (max ?e al) PAGE_SIZE = Some b"
      by (auto split: option.splits)
    with paged_serves [OF this] None unf al fl show ?thesis by auto
  qed
qed

lemma classify_serves_witness:
  "classify 40000 65536 0 = Ret (Some \<lparr>req_arena = 0, req_label = 0, req_align = 65536,
      req_flags = 0, req_kind = Medium 65536\<rparr>) \<and> kind_serves (Medium 65536) 40000 65536"
proof -
  have "classify 40000 65536 0 = Ret (Some \<lparr>req_arena = 0, req_label = 0, req_align = 65536,
      req_flags = 0, req_kind = Medium 65536\<rparr>)"
    by (simp add: classify_def is_power_of_two_def from_raw_def size_class_def size_class_in_def
        MAX_ALIGN_def SMALL_MAX_def HUGE_THRESHOLD_def align_up_eq PAGE_SIZE_pow2 PAGE_SIZE_usize
        PAGE_SIZE_def choose_arena_def choose_label_def Label_PUBLIC_def arena_of_def ArenaId_DEFAULT_def)
  with classify_serves [OF this] show ?thesis by simp
qed

end
