(* ===== verification/Slab.thy ===== *)
theory Slab
  imports Classify "HOL-Library.Monad_Syntax"
begin

text \<open>
  \<open>crates/topo-core/src/slab.rs\<close>: where the objects of a slab lie. The theorems say that every
  object of a computed layout is inside the slab, aligned and disjoint from the others, that an
  address is an object's exactly when \<open>addr_to_index\<close> finds it, and that at a page-aligned base
  every class packs its full object count.
\<close>

record SlabLayout =
  object0 :: usize
  object_size :: usize
  l_align :: usize
  object_count :: usize
  l_slab_bytes :: usize

definition compute :: "SizeClassId \<Rightarrow> addr \<Rightarrow> usize \<Rightarrow> SlabLayout option" where
  "compute c base slab_header = do {
     row \<leftarrow> checked_row c;
     slab_bytes \<leftarrow> checked_mul (row_slab_pages row) PAGE_SIZE;
     start \<leftarrow> checked_add base slab_header;
     o0 \<leftarrow> align_up start (row_align row);
     slab_end \<leftarrow> checked_add base slab_bytes;
     (if row_size row = 0 \<or> slab_end \<le> o0 then None
      else let fit = (slab_end - o0) div row_size row;
               cnt = min fit (row_objects_per_slab row)
           in if cnt = 0 then None
              else do {
                m \<leftarrow> checked_sub cnt 1;
                off \<leftarrow> checked_mul m (row_size row);
                last_obj \<leftarrow> checked_add o0 off;
                last_obj_end \<leftarrow> checked_add last_obj (row_size row);
                (if slab_end < last_obj_end then None
                 else Some \<lparr>object0 = o0, object_size = row_size row, l_align = row_align row,
                            object_count = cnt, l_slab_bytes = slab_bytes\<rparr>)
              })
   }"

definition object_addr :: "SlabLayout \<Rightarrow> usize \<Rightarrow> addr option" where
  "object_addr l i =
     (if object_count l \<le> i then None
      else do {
        off \<leftarrow> checked_mul i (object_size l);
        checked_add (object0 l) off
      })"

definition objects_end :: "SlabLayout \<Rightarrow> addr option" where
  "objects_end l =
     (if object_count l = 0 then None
      else do {
        a \<leftarrow> object_addr l (object_count l - 1);
        checked_add a (object_size l)
      })"

definition is_valid :: "SlabLayout \<Rightarrow> addr \<Rightarrow> bool" where
  "is_valid l base \<longleftrightarrow>
     (if object_count l = 0 then True
      else if object_size l = 0 \<or> \<not> l_align l dvd object_size l then False
      else if \<not> l_align l dvd object0 l \<or> object0 l < base then False
      else case checked_add base (l_slab_bytes l) of
             None \<Rightarrow> False
           | Some slab_end \<Rightarrow>
               (case objects_end l of
                  Some e \<Rightarrow> e \<le> slab_end
                | None \<Rightarrow> False))"

definition addr_to_index :: "SlabLayout \<Rightarrow> addr \<Rightarrow> usize option" where
  "addr_to_index l a =
     (if object_size l = 0 \<or> a < object0 l then None
      else let delta = a - object0 l;
               idx = delta div object_size l
           in if object_count l \<le> idx \<or> \<not> object_size l dvd delta then None else Some idx)"

section \<open>What a computed layout satisfies\<close>

text \<open>The facts about a layout the later components rest on.\<close>

definition layout_ok :: "SlabLayout \<Rightarrow> addr \<Rightarrow> usize \<Rightarrow> bool" where
  "layout_ok l base h \<longleftrightarrow>
     0 < object_count l \<and> 0 < object_size l \<and> l_align l dvd object_size l \<and> l_align l dvd object0 l \<and>
     base + h \<le> object0 l \<and> object0 l + object_count l * object_size l \<le> base + l_slab_bytes l \<and>
     is_usize (base + l_slab_bytes l)"

lemma compute_row:
  assumes "compute c base h = Some l"
  shows "c < class_count" and "object_size l = row_size (SIZE_CLASSES ! c)"
    and "l_align l = row_align (SIZE_CLASSES ! c)"
    and "object_count l \<le> row_objects_per_slab (SIZE_CLASSES ! c)"
    and "l_slab_bytes l = row_slab_pages (SIZE_CLASSES ! c) * PAGE_SIZE"
    and "is_usize (base + l_slab_bytes l)" and "0 < object_count l"
    and "object0 l < base + l_slab_bytes l"
    and "object_count l \<le> (base + l_slab_bytes l - object0 l) div object_size l"
    and "align_up (base + h) (l_align l) = Some (object0 l)"
proof -
  obtain row where
    "c < class_count \<and> row = SIZE_CLASSES ! c \<and> object_size l = row_size row \<and> l_align l = row_align row \<and>
     object_count l \<le> row_objects_per_slab row \<and> l_slab_bytes l = row_slab_pages row * PAGE_SIZE \<and>
     is_usize (base + l_slab_bytes l) \<and> 0 < object_count l \<and> object0 l < base + l_slab_bytes l \<and>
     object_count l \<le> (base + l_slab_bytes l - object0 l) div object_size l \<and>
     align_up (base + h) (l_align l) = Some (object0 l)"
    using assms
    unfolding compute_def bind_eq_Some_conv checked_simps checked_row_def get_Some_iff Let_def
      result_simps class_count_def
    by (auto simp: not_le)
  then show "c < class_count" and "object_size l = row_size (SIZE_CLASSES ! c)"
    and "l_align l = row_align (SIZE_CLASSES ! c)"
    and "object_count l \<le> row_objects_per_slab (SIZE_CLASSES ! c)"
    and "l_slab_bytes l = row_slab_pages (SIZE_CLASSES ! c) * PAGE_SIZE"
    and "is_usize (base + l_slab_bytes l)" and "0 < object_count l"
    and "object0 l < base + l_slab_bytes l"
    and "object_count l \<le> (base + l_slab_bytes l - object0 l) div object_size l"
    and "align_up (base + h) (l_align l) = Some (object0 l)"
    by blast+
qed

lemma row_align_usize: "c < class_count \<Longrightarrow> is_usize (row_align (SIZE_CLASSES ! c))"
  using shipped.bounded [of c] by (simp add: class_count_def MAX_ALIGN_def)

lemma compute_layout_ok: "compute c base h = Some l \<Longrightarrow> layout_ok l base h"
proof -
  assume c: "compute c base h = Some l"
  note r = compute_row [OF c]
  note laws = row_laws [OF r(1), folded r(2,3)]
  note up = align_up_Some [OF laws(2) row_align_usize [OF r(1), folded r(3)] r(10)]
  have "object_count l * object_size l \<le>
      (base + l_slab_bytes l - object0 l) div object_size l * object_size l"
    using r(9) by (rule mult_le_mono1)
  also have "\<dots> \<le> base + l_slab_bytes l - object0 l" by simp
  finally have "object0 l + object_count l * object_size l \<le> base + l_slab_bytes l"
    using r(8) by linarith
  with r laws up show ?thesis by (simp add: layout_ok_def)
qed

lemma layout_ok_object:
  assumes "layout_ok l base h" and "i < object_count l"
  shows "object_addr l i = Some (object0 l + i * object_size l)"
    and "object0 l + i * object_size l + object_size l \<le> base + l_slab_bytes l"
    and "l_align l dvd object0 l + i * object_size l"
proof -
  have "i * object_size l + object_size l \<le> object_count l * object_size l"
    using mult_le_mono1 [of "Suc i" "object_count l" "object_size l"] assms(2) by simp
  then show end_le: "object0 l + i * object_size l + object_size l \<le> base + l_slab_bytes l"
    using assms(1) by (simp add: layout_ok_def)
  then have "is_usize (object0 l + i * object_size l)"
    using assms(1) unfolding layout_ok_def by linarith
  then show "object_addr l i = Some (object0 l + i * object_size l)"
    using assms(2) by (simp add: object_addr_def checked_add_def checked_mul_def USIZE_MAX_def)
  show "l_align l dvd object0 l + i * object_size l"
    using assms(1) by (simp add: layout_ok_def)
qed

lemma objects_disjoint:
  fixes i j :: nat
  assumes "i \<noteq> j" shows "o0 + i * s + s \<le> o0 + j * s \<or> o0 + j * s + s \<le> o0 + i * s"
proof (cases "i < j")
  case True
  then have "Suc i * s \<le> j * s" by (intro mult_le_mono1) simp
  then show ?thesis by simp
next
  case False
  then have "Suc j * s \<le> i * s" using assms by (intro mult_le_mono1) simp
  then show ?thesis by simp
qed

lemma addr_to_index_iff:
  assumes "layout_ok l base h"
  shows "addr_to_index l a = Some i \<longleftrightarrow> object_addr l i = Some a"
proof
  assume "addr_to_index l a = Some i"
  then have i: "i = (a - object0 l) div object_size l" and lt: "i < object_count l"
    and a: "object0 l \<le> a" and d: "object_size l dvd a - object0 l"
    by (auto simp: addr_to_index_def Let_def split: if_splits)
  have "i * object_size l = a - object0 l" using d unfolding i by simp
  then have "object0 l + i * object_size l = a" using a by simp
  with layout_ok_object(1) [OF assms lt] show "object_addr l i = Some a" by simp
next
  assume s: "object_addr l i = Some a"
  then have lt: "i < object_count l" by (auto simp: object_addr_def split: if_splits)
  with s layout_ok_object(1) [OF assms] have a: "a = object0 l + i * object_size l" by simp
  have "0 < object_size l" using assms by (simp add: layout_ok_def)
  then show "addr_to_index l a = Some i"
    using lt unfolding a addr_to_index_def by (simp add: Let_def)
qed

lemma layout_ok_valid: "layout_ok l base h \<Longrightarrow> is_valid l base"
proof -
  assume ok: "layout_ok l base h"
  then have lt: "object_count l - 1 < object_count l" by (simp add: layout_ok_def)
  note last_obj = layout_ok_object [OF ok lt]
  have "is_usize (base + l_slab_bytes l)" using ok by (simp add: layout_ok_def)
  with ok last_obj show ?thesis
    by (auto simp: is_valid_def objects_end_def layout_ok_def checked_add_def USIZE_MAX_def
        split: if_splits)
qed

lemma row_align_page: "c < class_count \<Longrightarrow> row_align (SIZE_CLASSES ! c) dvd PAGE_SIZE"
  using row_laws(2) PAGE_SIZE_pow2 shipped.bounded [of c]
  by (intro power_of_two_le_dvd) (auto simp: class_count_def MAX_ALIGN_def PAGE_SIZE_def)

lemma min_le_div:
  fixes n s b :: nat
  assumes "n * s \<le> b" and "0 < s" shows "min (b div s) n = n"
  using assms by (simp add: less_eq_div_iff_mult_less_eq)

lemma compute_at_page:
  assumes "c < class_count" and "PAGE_SIZE dvd base"
    and "is_usize (base + row_slab_pages (SIZE_CLASSES ! c) * PAGE_SIZE)"
  shows "compute c base 0 = Some \<lparr>object0 = base, object_size = row_size (SIZE_CLASSES ! c),
    l_align = row_align (SIZE_CLASSES ! c), object_count = row_objects_per_slab (SIZE_CLASSES ! c),
    l_slab_bytes = row_slab_pages (SIZE_CLASSES ! c) * PAGE_SIZE\<rparr>"
proof -
  let ?r = "SIZE_CLASSES ! c"
  note laws = row_laws [OF assms(1)]
  have sb: "is_usize (row_slab_pages ?r * PAGE_SIZE)" and b: "is_usize base"
    using assms(3) by linarith+
  have dv: "row_align ?r dvd base" using row_align_page [OF assms(1)] assms(2) by (rule dvd_trans)
  have up: "align_up base (row_align ?r) = Some base"
    using laws(2) row_align_usize [OF assms(1)] dv b by (rule align_up_id)
  let ?n = "row_objects_per_slab ?r" and ?s = "row_size ?r"
  have mn: "min (row_slab_pages ?r * PAGE_SIZE div ?s) ?n = ?n"
    using laws(5,1) by (rule min_le_div)
  have pos: "0 < row_slab_pages ?r * PAGE_SIZE" using laws(1,4,5) by (metis le_zero_eq mult_pos_pos not_gr_zero)
  have n: "(?n - 1) * ?s + ?s = ?n * ?s" using laws(4) by (cases ?n) simp_all
  have cr: "checked_row c = Some ?r" using assms(1) by (simp add: checked_row_def class_count_def)
  have fits: "base + ?n * ?s \<le> base + row_slab_pages ?r * PAGE_SIZE" using laws(5) by simp
  have adds: "checked_mul (row_slab_pages ?r) PAGE_SIZE = Some (row_slab_pages ?r * PAGE_SIZE)"
    "checked_add base (row_slab_pages ?r * PAGE_SIZE) = Some (base + row_slab_pages ?r * PAGE_SIZE)"
    "checked_add base 0 = Some base" "checked_sub ?n 1 = Some (?n - 1)"
    "checked_mul (?n - 1) ?s = Some ((?n - 1) * ?s)"
    "checked_add base ((?n - 1) * ?s) = Some (base + (?n - 1) * ?s)"
    "checked_add (base + (?n - 1) * ?s) ?s = Some (base + ?n * ?s)"
    unfolding checked_simps using laws(4) sb b assms(3) fits n by linarith+
  show ?thesis
    unfolding compute_def cr adds up Let_def bind.bind_lunit
    using laws(1,4,5) pos mn adds by simp
qed

text \<open>The slab of class 0 at the second page, evaluated.\<close>

lemma slab0:
  "compute 0 16384 0 = Some \<lparr>object0 = 16384, object_size = 16, l_align = 16, object_count = 1024,
     l_slab_bytes = 16384\<rparr>"
proof -
  have "SIZE_CLASSES ! 0 = mk_row 16 16 1 1024 32 256" by (simp add: SIZE_CLASSES_def)
  then show ?thesis
    using compute_at_page [of 0 16384] by (simp add: class_count_def PAGE_SIZE_def mk_row_def)
qed

section \<open>Properties\<close>

text \<open>
  C25. A computed layout passes the allocator's own validity check, and each of its objects lies
  inside the slab, behind the header, at a multiple of the class alignment, and overlaps no other
  object.
\<close>

theorem compute_objects_sound:
  assumes "compute c base h = Some l"
  shows "is_valid l base \<and>
    (\<forall>i<object_count l. \<exists>a. object_addr l i = Some a \<and> base + h \<le> a \<and>
       a + row_size (SIZE_CLASSES ! c) \<le> base + l_slab_bytes l \<and>
       row_align (SIZE_CLASSES ! c) dvd a \<and>
       (\<forall>j<object_count l. \<forall>b. j \<noteq> i \<longrightarrow> object_addr l j = Some b \<longrightarrow>
          a + row_size (SIZE_CLASSES ! c) \<le> b \<or> b + row_size (SIZE_CLASSES ! c) \<le> a))"
proof -
  note ok = compute_layout_ok [OF assms] and r = compute_row [OF assms]
  note obj = layout_ok_object [OF ok]
  have lo: "base + h \<le> object0 l + i * object_size l" for i
    using ok by (simp add: layout_ok_def)
  show ?thesis
    unfolding r(2,3) [symmetric]
  proof (intro conjI allI impI)
    show "is_valid l base" by (rule layout_ok_valid [OF ok])
    fix i assume i: "i < object_count l"
    have "object0 l + i * object_size l + object_size l \<le> b \<or>
        b + object_size l \<le> object0 l + i * object_size l"
      if "j < object_count l" "j \<noteq> i" "object_addr l j = Some b" for j b
      using that obj(1) [OF that(1)]
        objects_disjoint [of i j "object0 l" "object_size l"] by auto
    with obj [OF i] lo show "\<exists>a. object_addr l i = Some a \<and> base + h \<le> a \<and>
       a + object_size l \<le> base + l_slab_bytes l \<and> l_align l dvd a \<and>
       (\<forall>j<object_count l. \<forall>b. j \<noteq> i \<longrightarrow> object_addr l j = Some b \<longrightarrow>
          a + object_size l \<le> b \<or> b + object_size l \<le> a)" by blast
  qed
qed

lemma compute_objects_sound_witness:
  "\<exists>l. compute 0 16384 0 = Some l \<and> is_valid l 16384 \<and> object_count l = 1024 \<and>
     (\<forall>i<1024. \<exists>a. object_addr l i = Some a \<and> 16384 \<le> a)"
  using compute_objects_sound [OF slab0] slab0 by auto

text \<open>
  C26. On a computed layout \<open>addr_to_index\<close> inverts \<open>object_addr\<close>: an address has an index
  exactly when it is the first byte of the object with that index.
\<close>

theorem addr_to_index_inverse:
  assumes "compute c base h = Some l"
  shows "addr_to_index l a = Some i \<longleftrightarrow> object_addr l i = Some a"
  by (rule addr_to_index_iff [OF compute_layout_ok [OF assms]])

lemma addr_to_index_inverse_witness:
  "\<exists>l. compute 0 16384 0 = Some l \<and> addr_to_index l 16432 = Some 3 \<and> object_addr l 3 = Some 16432"
  using addr_to_index_inverse [OF slab0, of 16432 3] slab0 by (simp add: addr_to_index_def)

text \<open>
  Without a header, at any page-aligned base whose slab fits the address space, every class of
  the table has a layout, with the first object at the base and the full object count of its row.
\<close>

theorem compute_page_aligned:
  assumes "c < class_count" and "PAGE_SIZE dvd base"
    and "is_usize (base + row_slab_pages (SIZE_CLASSES ! c) * PAGE_SIZE)"
  shows "compute c base 0 = Some \<lparr>object0 = base, object_size = row_size (SIZE_CLASSES ! c),
    l_align = row_align (SIZE_CLASSES ! c), object_count = row_objects_per_slab (SIZE_CLASSES ! c),
    l_slab_bytes = row_slab_pages (SIZE_CLASSES ! c) * PAGE_SIZE\<rparr>"
  using assms by (rule compute_at_page)

lemma compute_page_aligned_witness:
  "\<exists>l. compute 0 32768 0 = Some l \<and> object0 l = 32768"
  using compute_page_aligned [of 0 32768]
  by (simp add: class_count_def PAGE_SIZE_def SIZE_CLASSES_def mk_row_def)

end
