(* ===== verification/Bootstrap.thy ===== *)
theory Bootstrap
  imports Overflow "HOL-Library.Monad_Syntax"
begin

text \<open>
  \<open>crates/topo-core/src/bootstrap.rs\<close>: the metadata allocator. \<open>BumpArena\<close> carves disjoint
  regions by advancing a cursor with a compare-and-exchange loop; \<open>Bootstrap\<close> wraps one arena in
  an initialisation and hand-off state machine. The locale \<open>metadata_alloc\<close> is the contract of the
  \<open>MetadataAlloc\<close> trait, which both implement; the step relation interleaves any number of
  threads in the lock-free loop.
\<close>

section \<open>The bump arena\<close>

record BumpArena =
  ba_base :: addr
  ba_capacity :: usize
  cursor :: usize

definition BumpArena_new :: "addr \<Rightarrow> usize \<Rightarrow> BumpArena" where
  "BumpArena_new base capacity = \<lparr>ba_base = base, ba_capacity = capacity, cursor = 0\<rparr>"

definition BumpArena_used :: "BumpArena \<Rightarrow> usize" where
  "BumpArena_used a = cursor a"

definition BumpArena_contains :: "BumpArena \<Rightarrow> addr \<Rightarrow> bool" where
  "BumpArena_contains a p \<longleftrightarrow> ba_base a \<le> p \<and> p - ba_base a < ba_capacity a"

text \<open>
  One round of the loop of \<open>alloc\<close> for the cursor value \<open>cur\<close> it loaded: the offset of the
  region and the new cursor, or the early return.
\<close>

definition bump_round :: "BumpArena \<Rightarrow> usize \<Rightarrow> usize \<Rightarrow> usize \<Rightarrow> (usize \<times> usize) option" where
  "bump_round a cur sz align = do {
     start_abs \<leftarrow> checked_add (ba_base a) cur;
     aligned_abs \<leftarrow> align_up start_abs align;
     (let pad = aligned_abs - start_abs
      in do {
        padded \<leftarrow> checked_add cur pad;
        e \<leftarrow> checked_add padded sz;
        (if ba_capacity a < e then None else Some (cur + pad, e))
      })
   }"

text \<open>A call that runs alone: the exchange succeeds in the first round.\<close>

definition BumpArena_alloc :: "BumpArena \<Rightarrow> usize \<Rightarrow> usize \<Rightarrow> addr option \<times> BumpArena" where
  "BumpArena_alloc a sz align =
     (case bump_round a (cursor a) (max sz 1) align of
        None \<Rightarrow> (None, a)
      | Some (offset, e) \<Rightarrow> (Some (ba_base a + offset), a\<lparr>cursor := e\<rparr>))"

definition bump_inv :: "BumpArena \<Rightarrow> bool" where
  "bump_inv a \<longleftrightarrow> 0 < ba_base a \<and> is_usize (ba_base a + ba_capacity a) \<and> cursor a \<le> ba_capacity a"

lemma bump_round_Some:
  assumes "bump_round a cur sz align = Some (off, e)" and "is_power_of_two align" and "is_usize align"
  shows "cur \<le> off" and "e = off + sz" and "e \<le> ba_capacity a" and "align dvd ba_base a + off"
proof -
  from assms(1) obtain al where al: "align_up (ba_base a + cur) align = Some al"
    and off: "off = cur + (al - (ba_base a + cur))" and e: "e = off + sz" and le: "e \<le> ba_capacity a"
    unfolding bump_round_def bind_eq_Some_conv checked_simps Let_def by (auto split: if_splits)
  note up = align_up_Some [OF assms(2,3) al]
  show "cur \<le> off" using off by simp
  show "e = off + sz" by (fact e)
  show "e \<le> ba_capacity a" by (fact le)
  have "ba_base a + off = al" using up(1) off by simp
  then show "align dvd ba_base a + off" using up(2) by simp
qed

section \<open>The contract of the MetadataAlloc trait\<close>

text \<open>
  \<open>owned m\<close> is the memory handed out so far. A successful call returns fresh aligned non-null
  memory; a failed call changes nothing.
\<close>

locale metadata_alloc =
  fixes alloc :: "'m \<Rightarrow> usize \<Rightarrow> usize \<Rightarrow> addr option \<times> 'm"
    and owned :: "'m \<Rightarrow> addr set"
    and inv :: "'m \<Rightarrow> bool"
  assumes alloc_Some: "inv m \<Longrightarrow> is_power_of_two al \<Longrightarrow> is_usize al \<Longrightarrow> alloc m sz al = (Some p, m') \<Longrightarrow>
      inv m' \<and> p \<noteq> 0 \<and> al dvd p \<and> {p..<p + max sz 1} \<inter> owned m = {} \<and>
      owned m \<union> {p..<p + max sz 1} \<subseteq> owned m'"
    and alloc_None: "alloc m sz al = (None, m') \<Longrightarrow> m' = m"
begin

text \<open>A list of requests served in turn, dropping the failures.\<close>

fun alloc_all :: "'m \<Rightarrow> (usize \<times> usize) list \<Rightarrow> (addr \<times> usize) list" where
  "alloc_all m [] = []"
| "alloc_all m ((sz, al) # rs) =
     (case alloc m sz al of
        (None, m') \<Rightarrow> alloc_all m' rs
      | (Some p, m') \<Rightarrow> (p, sz) # alloc_all m' rs)"

definition requests_ok :: "(usize \<times> usize) list \<Rightarrow> bool" where
  "requests_ok rs \<longleftrightarrow> (\<forall>(sz, al)\<in>set rs. is_power_of_two al \<and> is_usize al)"

lemma alloc_all_fresh:
  "inv m \<Longrightarrow> requests_ok rs \<Longrightarrow> (p, sz) \<in> set (alloc_all m rs) \<Longrightarrow>
   {p..<p + max sz 1} \<inter> owned m = {}"
proof (induction m rs rule: alloc_all.induct)
  case (2 m s al rs)
  from "2.prems"(2) have req: "is_power_of_two al" "is_usize al" "requests_ok rs"
    by (auto simp: requests_ok_def)
  show ?case
  proof (cases "alloc m s al")
    case (Pair r m')
    show ?thesis
    proof (cases r)
      case None
      with Pair alloc_None have "m' = m" by blast
      with Pair None "2.IH"(1) "2.prems" req(3) show ?thesis by simp
    next
      case (Some q)
      note ok = alloc_Some [OF "2.prems"(1) req(1,2) Pair [unfolded Some]]
      have "(p, sz) = (q, s) \<or> (p, sz) \<in> set (alloc_all m' rs)"
        using "2.prems"(3) Pair Some by simp
      then show ?thesis
      proof
        assume "(p, sz) \<in> set (alloc_all m' rs)"
        then have "{p..<p + max sz 1} \<inter> owned m' = {}"
          using "2.IH"(2) Pair Some ok req(3) by simp
        with ok show ?thesis by blast
      qed (use ok in simp)
    qed
  qed
qed simp

lemma alloc_all_disjoint:
  "inv m \<Longrightarrow> requests_ok rs \<Longrightarrow> i < j \<Longrightarrow> j < length (alloc_all m rs) \<Longrightarrow>
   alloc_all m rs ! i = (p, sz) \<Longrightarrow> alloc_all m rs ! j = (q, t) \<Longrightarrow>
   {p..<p + max sz 1} \<inter> {q..<q + max t 1} = {}"
proof (induction m rs arbitrary: i j rule: alloc_all.induct)
  case (2 m s al rs)
  from "2.prems"(2) have req: "is_power_of_two al" "is_usize al" "requests_ok rs"
    by (auto simp: requests_ok_def)
  show ?case
  proof (cases "alloc m s al")
    case (Pair r m')
    show ?thesis
    proof (cases r)
      case None
      with Pair alloc_None have "m' = m" by blast
      with Pair None "2.IH"(1) "2.prems" req(3) show ?thesis by simp
    next
      case (Some x)
      note ok = alloc_Some [OF "2.prems"(1) req(1,2) Pair [unfolded Some]]
      have all: "alloc_all m ((s, al) # rs) = (x, s) # alloc_all m' rs" using Pair Some by simp
      obtain j' where j': "j = Suc j'" using "2.prems"(3) by (cases j) auto
      have qin: "(q, t) \<in> set (alloc_all m' rs)"
        using "2.prems"(4,6) unfolding all j' by (simp add: in_set_conv_nth) blast
      show ?thesis
      proof (cases i)
        case 0
        with "2.prems"(5) all have "(p, sz) = (x, s)" by simp
        moreover have "{q..<q + max t 1} \<inter> owned m' = {}"
          using alloc_all_fresh ok req(3) qin by blast
        ultimately show ?thesis using ok by blast
      next
        case (Suc i')
        with "2.IH"(2) Pair Some ok req(3) "2.prems"(3-6) show ?thesis
          unfolding all j' by simp
      qed
    qed
  qed
qed simp

end

definition bump_owned :: "BumpArena \<Rightarrow> addr set" where
  "bump_owned a = {ba_base a..<ba_base a + cursor a}"

interpretation bump: metadata_alloc BumpArena_alloc bump_owned bump_inv
proof
  fix m al sz p m'
  assume "bump_inv m" "is_power_of_two al" "is_usize al" "BumpArena_alloc m sz al = (Some p, m')"
  then obtain off e where r: "bump_round m (cursor m) (max sz 1) al = Some (off, e)"
    and p: "p = ba_base m + off" and m': "m' = m\<lparr>cursor := e\<rparr>"
    by (auto simp: BumpArena_alloc_def split: option.splits prod.splits)
  note f = bump_round_Some [OF r \<open>is_power_of_two al\<close> \<open>is_usize al\<close>]
  show "bump_inv m' \<and> p \<noteq> 0 \<and> al dvd p \<and> {p..<p + max sz 1} \<inter> bump_owned m = {} \<and>
      bump_owned m \<union> {p..<p + max sz 1} \<subseteq> bump_owned m'"
    using f \<open>bump_inv m\<close> by (auto simp: p m' bump_inv_def bump_owned_def)
next
  fix m sz al m' assume "BumpArena_alloc m sz al = (None, m')"
  then show "m' = m" by (auto simp: BumpArena_alloc_def split: option.splits prod.splits)
qed

text \<open>A round fails only when no aligned region of the size is left beyond the cursor.\<close>

lemma bump_round_None:
  assumes "bump_round a cur sz align = None" and "is_power_of_two align" and "is_usize align"
    and "bump_inv a" and "cur \<le> off" and "align dvd ba_base a + off"
  shows "ba_capacity a < off + sz"
proof (rule ccontr)
  assume "\<not> ba_capacity a < off + sz"
  then have fit: "off + sz \<le> ba_capacity a" by simp
  with assms(4,5) have u: "is_usize (ba_base a + cur)" "is_usize (ba_base a + off)"
    unfolding bump_inv_def by linarith+
  then obtain al where al: "align_up (ba_base a + cur) align = Some al"
    using align_up_None [OF assms(2,3), of "ba_base a + cur"] assms(5,6) by fastforce
  note up = align_up_Some [OF assms(2,3) al]
  have le: "al \<le> ba_base a + off" using up(5) assms(5,6) by simp
  let ?off = "cur + (al - (ba_base a + cur))"
  have "?off \<le> off" using le up(1) by linarith
  with fit have e: "?off + sz \<le> ba_capacity a" by simp
  with assms(4) have "is_usize (?off + sz)" "is_usize ?off" unfolding bump_inv_def by linarith+
  with e u al assms(1) show False
    by (simp add: bump_round_def checked_add_def USIZE_MAX_def Let_def)
qed

section \<open>The lock-free loop under any interleaving\<close>

text \<open>
  A thread is idle, or has loaded the cursor in a call for a size (already raised to at least one)
  and an alignment. \<open>vended\<close> records the regions returned.
\<close>

datatype bump_pc = Idle | Loaded (lcur: usize) (lsize: usize) (lalign: usize)

record bump_world =
  w_arena :: BumpArena
  pcs :: "nat \<Rightarrow> bump_pc"
  vended :: "(addr \<times> usize \<times> usize) list"

inductive bump_step :: "bump_world \<Rightarrow> bump_world \<Rightarrow> bool" where
  bump_load: "pcs w t = Idle \<Longrightarrow> is_power_of_two al \<Longrightarrow> is_usize al \<Longrightarrow>
    bump_step w (w\<lparr>pcs := (pcs w)(t := Loaded (cursor (w_arena w)) (max sz 1) al)\<rparr>)"
| bump_exhausted: "pcs w t = Loaded cur sz al \<Longrightarrow> bump_round (w_arena w) cur sz al = None \<Longrightarrow>
    bump_step w (w\<lparr>pcs := (pcs w)(t := Idle)\<rparr>)"
| bump_retry: "pcs w t = Loaded cur sz al \<Longrightarrow> bump_round (w_arena w) cur sz al = Some (off, e) \<Longrightarrow>
    bump_step w (w\<lparr>pcs := (pcs w)(t := Loaded (cursor (w_arena w)) sz al)\<rparr>)"
| bump_commit: "pcs w t = Loaded cur sz al \<Longrightarrow> bump_round (w_arena w) cur sz al = Some (off, e) \<Longrightarrow>
    cursor (w_arena w) = cur \<Longrightarrow>
    bump_step w (w\<lparr>w_arena := (w_arena w)\<lparr>cursor := e\<rparr>, pcs := (pcs w)(t := Idle),
      vended := (ba_base (w_arena w) + off, sz, al) # vended w\<rparr>)"

definition bump_start :: "addr \<Rightarrow> usize \<Rightarrow> bump_world" where
  "bump_start base capacity =
     \<lparr>w_arena = BumpArena_new base capacity, pcs = (\<lambda>_. Idle), vended = []\<rparr>"

definition disjoint_region :: "addr \<times> usize \<times> usize \<Rightarrow> addr \<times> usize \<times> usize \<Rightarrow> bool" where
  "disjoint_region x y \<longleftrightarrow> fst x + fst (snd x) \<le> fst y \<or> fst y + fst (snd y) \<le> fst x"

definition bump_world_inv :: "addr \<Rightarrow> usize \<Rightarrow> bump_world \<Rightarrow> bool" where
  "bump_world_inv base capacity w \<longleftrightarrow>
     ba_base (w_arena w) = base \<and> ba_capacity (w_arena w) = capacity \<and> bump_inv (w_arena w) \<and>
     (\<forall>t cur sz al. pcs w t = Loaded cur sz al \<longrightarrow> 0 < sz \<and> is_power_of_two al \<and> is_usize al) \<and>
     (\<forall>(p, sz, al)\<in>set (vended w). 0 < sz \<and> al dvd p \<and> base \<le> p \<and> p + sz \<le> base + cursor (w_arena w)) \<and>
     sorted_wrt disjoint_region (vended w)"

lemma bump_step_inv: "bump_step w w' \<Longrightarrow> bump_world_inv base capacity w \<Longrightarrow> bump_world_inv base capacity w'"
proof (induction rule: bump_step.induct)
  case (bump_load w t al sz)
  then show ?case by (auto simp: bump_world_inv_def)
next
  case (bump_exhausted w t cur sz al)
  then show ?case by (auto simp: bump_world_inv_def)
next
  case (bump_retry w t cur sz al off e)
  then show ?case by (auto simp: bump_world_inv_def)
next
  case (bump_commit w t cur sz al off e)
  from bump_commit.prems bump_commit.hyps(1) have
    req: "0 < sz" "is_power_of_two al" "is_usize al" and inv: "bump_inv (w_arena w)"
    and base: "ba_base (w_arena w) = base"
    and old: "\<forall>(p, s, a)\<in>set (vended w). 0 < s \<and> a dvd p \<and> base \<le> p \<and> p + s \<le> base + cur"
    using bump_commit.hyps(3) by (auto simp: bump_world_inv_def)
  note r = bump_round_Some [OF bump_commit.hyps(2) req(2,3)]
  have "\<forall>y\<in>set (vended w). disjoint_region (base + off, sz, al) y"
    using old r(1) by (fastforce simp: disjoint_region_def)
  moreover have "\<forall>(p, s, a)\<in>set (vended w). 0 < s \<and> a dvd p \<and> base \<le> p \<and> p + s \<le> base + e"
    using old r(1,2) by fastforce
  ultimately show ?case
    using bump_commit.prems r req inv base by (auto simp: bump_world_inv_def bump_inv_def)
qed

lemma bump_reachable_inv:
  assumes "0 < base" and "is_usize (base + capacity)" and "bump_step\<^sup>*\<^sup>* (bump_start base capacity) w"
  shows "bump_world_inv base capacity w"
  using assms(3)
proof (induction rule: rtranclp_induct)
  case base
  then show ?case
    using assms(1,2) by (simp add: bump_world_inv_def bump_start_def BumpArena_new_def bump_inv_def)
next
  case (step y z)
  then show ?case using bump_step_inv by blast
qed

text \<open>
  C24. Whatever the interleaving of threads in the compare-and-exchange loop of \<open>BumpArena::alloc\<close>,
  spurious failures included, every region handed out is aligned as asked, lies inside the arena,
  and is disjoint from every other.
\<close>

theorem bump_alloc_concurrent:
  assumes "0 < base" and "is_usize (base + capacity)" and "bump_step\<^sup>*\<^sup>* (bump_start base capacity) w"
  shows "(\<forall>(p, sz, al)\<in>set (vended w). al dvd p \<and> base \<le> p \<and> p + sz \<le> base + capacity) \<and>
    (\<forall>i j. i < j \<longrightarrow> j < length (vended w) \<longrightarrow> disjoint_region (vended w ! i) (vended w ! j))"
proof -
  note inv = bump_reachable_inv [OF assms]
  have "cursor (w_arena w) \<le> capacity" using inv by (auto simp: bump_world_inv_def bump_inv_def)
  then show ?thesis
    using inv by (fastforce simp: bump_world_inv_def sorted_wrt_iff_nth_less)
qed

text \<open>Two threads load the same cursor; the first commits, the second retries and commits.\<close>

lemma bump_alloc_concurrent_witness:
  "\<exists>w. bump_step\<^sup>*\<^sup>* (bump_start 4096 64) w \<and> vended w = [(4112, 8, 16), (4096, 8, 8)] \<and>
     disjoint_region (vended w ! 0) (vended w ! 1)"
proof -
  let ?a = "BumpArena_new 4096 64" and ?b = "\<lparr>ba_base = 4096, ba_capacity = 64, cursor = 8\<rparr>"
  let ?w = "\<lambda>a p v. \<lparr>w_arena = a, pcs = p, vended = v\<rparr>"
  have al: "is_power_of_two 8" "is_power_of_two 16" "is_usize 8" "is_usize 16"
    by (simp_all add: is_power_of_two_def)
  have r1: "bump_round ?a 0 8 8 = Some (0, 8)" and r2: "bump_round ?a 0 8 16 = Some (0, 8)"
    and r2': "bump_round ?b 0 8 16 = Some (0, 8)" and r3: "bump_round ?b 8 8 16 = Some (16, 24)"
    by (simp_all add: bump_round_def BumpArena_new_def checked_add_def USIZE_MAX_def align_up_eq al Let_def)
  let ?p1 = "(\<lambda>_. Idle)(0 := Loaded 0 8 8)"
  let ?p2 = "?p1(1 := Loaded 0 8 16)"
  let ?p3 = "?p2(0 := Idle)"
  let ?p4 = "?p3(1 := Loaded 8 8 16)"
  have s1: "bump_step (?w ?a (\<lambda>_. Idle) []) (?w ?a ?p1 [])"
    using bump_load [of "?w ?a (\<lambda>_. Idle) []" 0 8 8] al by (simp add: BumpArena_new_def)
  have s2: "bump_step (?w ?a ?p1 []) (?w ?a ?p2 [])"
    using bump_load [of "?w ?a ?p1 []" 1 16 8] al by (simp add: BumpArena_new_def)
  have s3: "bump_step (?w ?a ?p2 []) (?w ?b ?p3 [(4096, 8, 8)])"
    using bump_commit [of "?w ?a ?p2 []" 0 0 8 8 0 8] r1 by (simp add: BumpArena_new_def)
  have s4: "bump_step (?w ?b ?p3 [(4096, 8, 8)]) (?w ?b ?p4 [(4096, 8, 8)])"
    using bump_retry [of "?w ?b ?p3 [(4096, 8, 8)]" 1 0 8 16 0 8] r2' by simp
  have s5: "bump_step (?w ?b ?p4 [(4096, 8, 8)])
      (?w (?b\<lparr>cursor := 24\<rparr>) (?p4(1 := Idle)) [(4112, 8, 16), (4096, 8, 8)])"
    using bump_commit [of "?w ?b ?p4 [(4096, 8, 8)]" 1 8 8 16 16 24] r3 by simp
  have run: "bump_step\<^sup>*\<^sup>* (bump_start 4096 64)
      (?w (?b\<lparr>cursor := 24\<rparr>) (?p4(1 := Idle)) [(4112, 8, 16), (4096, 8, 8)])"
    unfolding bump_start_def using s1 s2 s3 s4 s5 by (meson r_into_rtranclp rtranclp.rtrancl_into_rtrancl)
  have "i < j \<Longrightarrow> j < 2 \<Longrightarrow> disjoint_region ([(4112, 8, 16), (4096, 8, 8)] ! i)
      ([(4112, 8, 16), (4096, 8, 8)] ! j)" for i j
    using bump_alloc_concurrent [OF _ _ run] by simp
  from this [of 0 1] have "disjoint_region (4112, 8, 16) (4096, 8, 8)" by simp
  with run show ?thesis by fastforce
qed

section \<open>The bootstrap state machine\<close>

datatype BState = Uninit | Initializing | BActive | HandingOff | HandedOff

fun BState_rank :: "BState \<Rightarrow> nat" where
  "BState_rank Uninit = 0"
| "BState_rank Initializing = 1"
| "BState_rank BActive = 2"
| "BState_rank HandingOff = 3"
| "BState_rank HandedOff = 4"

text \<open>
  The arena cell is \<open>MaybeUninit\<close>, hence an option; a successor, once installed, is its state.
\<close>

record 'm Bootstrap =
  b_state :: BState
  b_arena :: "BumpArena option"
  b_successor :: "'m option"

definition Bootstrap_new :: "'m Bootstrap" where
  "Bootstrap_new = \<lparr>b_state = Uninit, b_arena = None, b_successor = None\<rparr>"

definition Bootstrap_init :: "'m Bootstrap \<Rightarrow> addr \<Rightarrow> usize \<Rightarrow> bool \<times> 'm Bootstrap" where
  "Bootstrap_init b base capacity =
     (if b_state b \<noteq> Uninit then (False, b)
      else (True, b\<lparr>b_arena := Some (BumpArena_new base capacity), b_state := BActive\<rparr>))"

definition is_initialized :: "'m Bootstrap \<Rightarrow> bool" where
  "is_initialized b \<longleftrightarrow> BState_rank BActive \<le> BState_rank (b_state b)"

definition is_handed_off :: "'m Bootstrap \<Rightarrow> bool" where
  "is_handed_off b \<longleftrightarrow> b_state b = HandedOff"

definition hand_off :: "'m Bootstrap \<Rightarrow> bool \<times> 'm Bootstrap" where
  "hand_off b = (if b_state b = BActive then (True, b\<lparr>b_state := HandedOff\<rparr>) else (False, b))"

definition hand_off_to :: "'m Bootstrap \<Rightarrow> 'm \<Rightarrow> bool \<times> 'm Bootstrap" where
  "hand_off_to b successor =
     (if b_state b \<noteq> BActive then (False, b)
      else (True, b\<lparr>b_successor := Some successor, b_state := HandedOff\<rparr>))"

definition arena_cell :: "'m Bootstrap \<Rightarrow> BumpArena option" where
  "arena_cell b = (if is_initialized b then b_arena b else None)"

text \<open>
  \<open>entered\<close> is the thread-local re-entry flag of \<open>reentry::Guard\<close>; \<open>succ_alloc\<close> is the successor's
  \<open>alloc\<close>.
\<close>

definition Bootstrap_alloc ::
  "('m \<Rightarrow> usize \<Rightarrow> usize \<Rightarrow> addr option \<times> 'm) \<Rightarrow> bool \<Rightarrow> 'm Bootstrap \<Rightarrow> usize \<Rightarrow> usize \<Rightarrow>
   addr option \<times> 'm Bootstrap" where
  "Bootstrap_alloc succ_alloc entered b sz align =
     (if entered then (None, b)
      else let own = (case arena_cell b of
                        None \<Rightarrow> (None, b)
                      | Some a \<Rightarrow>
                          (case BumpArena_alloc a sz align of
                             (r, a') \<Rightarrow> (r, b\<lparr>b_arena := Some a'\<rparr>)))
           in if is_handed_off b
              then (case b_successor b of
                      Some m \<Rightarrow> (case succ_alloc m sz align of (r, m') \<Rightarrow> (r, b\<lparr>b_successor := Some m'\<rparr>))
                    | None \<Rightarrow> own)
              else own)"

definition Bootstrap_contains :: "'m Bootstrap \<Rightarrow> addr \<Rightarrow> bool" where
  "Bootstrap_contains b p \<longleftrightarrow> (case arena_cell b of None \<Rightarrow> False | Some a \<Rightarrow> BumpArena_contains a p)"

definition Bootstrap_used :: "'m Bootstrap \<Rightarrow> usize" where
  "Bootstrap_used b = (case arena_cell b of None \<Rightarrow> 0 | Some a \<Rightarrow> BumpArena_used a)"

text \<open>
  The bootstrap allocator over a bump successor also meets the contract: the two regions must not
  overlap, and after a hand-off the arena's memory stays owned.
\<close>

definition boot_owned :: "BumpArena Bootstrap \<Rightarrow> addr set" where
  "boot_owned b =
     (case b_arena b of None \<Rightarrow> {} | Some a \<Rightarrow> bump_owned a) \<union>
     (case b_successor b of None \<Rightarrow> {} | Some a \<Rightarrow> bump_owned a)"

definition bump_extent :: "BumpArena \<Rightarrow> addr set" where
  "bump_extent a = {ba_base a..<ba_base a + ba_capacity a}"

definition boot_inv :: "BumpArena Bootstrap \<Rightarrow> bool" where
  "boot_inv b \<longleftrightarrow>
     (\<forall>a. b_arena b = Some a \<longrightarrow> bump_inv a) \<and> (\<forall>a. b_successor b = Some a \<longrightarrow> bump_inv a) \<and>
     (\<forall>a s. b_arena b = Some a \<longrightarrow> b_successor b = Some s \<longrightarrow> bump_extent a \<inter> bump_extent s = {})"

lemma BumpArena_alloc_region:
  assumes "bump_inv a" and "is_power_of_two al" and "is_usize al" and "BumpArena_alloc a sz al = (r, a')"
  shows "bump_inv a'" and "bump_extent a' = bump_extent a" and "bump_owned a' \<subseteq> bump_extent a'"
    and "bump_owned a \<subseteq> bump_owned a'"
proof -
  show "bump_inv a'"
    using bump.alloc_Some [OF assms(1-3)] bump.alloc_None assms(1,4) by (cases r) blast+
  show "bump_owned a \<subseteq> bump_owned a'"
    using bump.alloc_Some [OF assms(1-3)] bump.alloc_None assms(4) by (cases r) blast+
  show "bump_extent a' = bump_extent a"
    using assms(4) by (auto simp: BumpArena_alloc_def bump_extent_def split: option.splits prod.splits)
  show "bump_owned a' \<subseteq> bump_extent a'"
    using \<open>bump_inv a'\<close> by (auto simp: bump_owned_def bump_extent_def bump_inv_def)
qed

interpretation boot: metadata_alloc "Bootstrap_alloc BumpArena_alloc False" boot_owned boot_inv
proof
  fix b :: "BumpArena Bootstrap" and al sz p b'
  assume inv: "boot_inv b" and al: "is_power_of_two al" "is_usize al"
    and call: "Bootstrap_alloc BumpArena_alloc False b sz al = (Some p, b')"
  show "boot_inv b' \<and> p \<noteq> 0 \<and> al dvd p \<and> {p..<p + max sz 1} \<inter> boot_owned b = {} \<and>
      boot_owned b \<union> {p..<p + max sz 1} \<subseteq> boot_owned b'"
  proof (cases "is_handed_off b \<and> b_successor b \<noteq> None")
    case True
    then obtain s where s: "b_successor b = Some s" by blast
    with True call obtain s' where a: "BumpArena_alloc s sz al = (Some p, s')"
      and b': "b' = b\<lparr>b_successor := Some s'\<rparr>"
      by (auto simp: Bootstrap_alloc_def Let_def split: prod.splits)
    have bi: "bump_inv s" using inv s by (simp add: boot_inv_def)
    note law = bump.alloc_Some [OF bi al a] and reg = BumpArena_alloc_region [OF bi al a]
    have "bump_owned r \<inter> {p..<p + max sz 1} = {}" if "b_arena b = Some r" for r
    proof -
      have "bump_owned r \<subseteq> bump_extent r" using inv that
        by (auto simp: boot_inv_def bump_owned_def bump_extent_def bump_inv_def)
      then have "bump_owned r \<inter> bump_owned s' = {}" using inv that s reg by (auto simp: boot_inv_def)
      then show ?thesis using law by blast
    qed
    then show ?thesis using law reg s inv
      by (auto simp: b' boot_inv_def boot_owned_def split: option.splits)
  next
    case False
    with call obtain r r' where r: "b_arena b = Some r" and a: "BumpArena_alloc r sz al = (Some p, r')"
      and b': "b' = b\<lparr>b_arena := Some r'\<rparr>"
      by (auto simp: Bootstrap_alloc_def arena_cell_def Let_def split: prod.splits option.splits if_splits)
    have bi: "bump_inv r" using inv r by (simp add: boot_inv_def)
    note law = bump.alloc_Some [OF bi al a] and reg = BumpArena_alloc_region [OF bi al a]
    have "bump_owned s \<inter> {p..<p + max sz 1} = {}" if "b_successor b = Some s" for s
    proof -
      have "bump_owned s \<subseteq> bump_extent s" using inv that
        by (auto simp: boot_inv_def bump_owned_def bump_extent_def bump_inv_def)
      then have "bump_owned s \<inter> bump_owned r' = {}" using inv that r reg by (auto simp: boot_inv_def)
      then show ?thesis using law by blast
    qed
    then show ?thesis using law reg r inv
      by (auto simp: b' boot_inv_def boot_owned_def split: option.splits)
  qed
next
  fix b :: "BumpArena Bootstrap" and sz al b'
  assume call: "Bootstrap_alloc BumpArena_alloc False b sz al = (None, b')"
  show "b' = b"
    using call bump.alloc_None
    by (cases b) (fastforce simp: Bootstrap_alloc_def Let_def arena_cell_def
        split: if_splits option.splits prod.splits)
qed



end
