(* ===== verification/Bitmap.thy ===== *)
theory Bitmap
  imports Bootstrap
begin

text \<open>
  The two bitmaps of a span descriptor in \<open>crates/topo-core/src/span.rs\<close>: \<open>FreeBitmap\<close>, inline or
  out of line, and \<open>CachedBits\<close>. Both implement the locale \<open>obj_set\<close>, a mutable set of object
  indices; the span proofs use its laws. An out-of-line block belongs to one bitmap, so it is a
  value of the record; an access past its end, which the code leaves undefined, is \<open>Panic\<close>.
\<close>

section \<open>Words\<close>

text \<open>\<open>u64::count_ones\<close> and \<open>u64::trailing_zeros\<close>, over the ascending list of the set bits.\<close>

definition set_bits_list :: "u64w \<Rightarrow> nat list" where
  "set_bits_list x = filter (bit x) [0..<64]"

definition count_ones :: "u64w \<Rightarrow> nat" where
  "count_ones x = length (set_bits_list x)"

definition trailing_zeros :: "u64w \<Rightarrow> nat" where
  "trailing_zeros x = (case set_bits_list x of [] \<Rightarrow> 64 | p # ps \<Rightarrow> p)"

definition word_bit :: "nat \<Rightarrow> u64w" where
  "word_bit i = push_bit (i mod 64) 1"

lemma bit_word_bit [simp]: "bit (word_bit i) n \<longleftrightarrow> n = i mod 64"
  by (auto simp: word_bit_def bit_simps)

lemma bit_u64_less: "bit (x :: u64w) n \<Longrightarrow> n < 64"
  using bit_imp_le_length [of x n] by simp

lemma and_word_bit: "x AND word_bit i = 0 \<longleftrightarrow> \<not> bit x (i mod 64)"
  unfolding word_bits_eq by (auto simp: bit_and_iff)

lemma set_bits_list_Nil [simp]: "set_bits_list x = [] \<longleftrightarrow> x = 0"
  using bit_u64_less [of x] unfolding word_bits_eq set_bits_list_def filter_empty_conv by auto

lemma set_bits_list_0 [simp]: "set_bits_list 0 = []"
  by simp

lemma sorted_set_bits_list: "sorted_wrt (<) (set_bits_list x)"
  unfolding set_bits_list_def by (rule sorted_wrt_filter) (simp add: sorted_wrt_upt)

lemma set_bits_list_Cons:
  assumes "x \<noteq> 0"
  shows "set_bits_list x = trailing_zeros x # set_bits_list (x AND NOT (word_bit (trailing_zeros x)))"
    and "trailing_zeros x < 64"
proof -
  obtain p ps where l: "set_bits_list x = p # ps"
    using assms by (cases "set_bits_list x") auto
  then have tz: "trailing_zeros x = p" by (simp add: trailing_zeros_def)
  have "p \<in> set (set_bits_list x)" by (simp add: l)
  then show p: "trailing_zeros x < 64" by (simp add: tz set_bits_list_def)
  have "set_bits_list (x AND NOT (word_bit p)) = filter (\<lambda>n. n \<noteq> p) (set_bits_list x)"
    using p unfolding tz set_bits_list_def filter_filter
    by (intro filter_cong) (auto simp: bit_and_iff bit_not_iff_eq)
  also have "\<dots> = ps"
  proof -
    have "\<forall>q\<in>set ps. p < q" using sorted_set_bits_list [of x] l by simp
    then have "filter (\<lambda>n. n \<noteq> p) ps = ps" by (intro filter_True) auto
    then show ?thesis by (simp add: l)
  qed
  finally show "set_bits_list x = trailing_zeros x # set_bits_list (x AND NOT (word_bit (trailing_zeros x)))"
    by (simp add: tz l)
qed

section \<open>Arrays of words\<close>

text \<open>The indices whose bit is set in the first \<open>n\<close> words, in ascending order.\<close>

definition index_list :: "nat \<Rightarrow> u64w list \<Rightarrow> nat list" where
  "index_list n ws = filter (\<lambda>i. bit (ws ! (i div 64)) (i mod 64)) [0..<64 * n]"

definition index_set :: "nat \<Rightarrow> u64w list \<Rightarrow> nat set" where
  "index_set n ws = {i. i < 64 * n \<and> bit (ws ! (i div 64)) (i mod 64)}"

lemma set_index_list [simp]: "set (index_list n ws) = index_set n ws"
  by (auto simp: index_list_def index_set_def)

lemma finite_index_set [simp]: "finite (index_set n ws)"
  using finite_set [of "index_list n ws"] by simp

lemma sorted_index_list: "sorted_wrt (<) (index_list n ws)"
  unfolding index_list_def by (rule sorted_wrt_filter) (simp add: sorted_wrt_upt)

lemma distinct_index_list: "distinct (index_list n ws)"
  by (simp add: index_list_def)

lemma index_list_Suc: "index_list (Suc n) ws = index_list n ws @ map ((+) (64 * n)) (set_bits_list (ws ! n))"
proof -
  have "[0..<64 * Suc n] = [0..<64 * n] @ map ((+) (64 * n)) [0..<64]"
    by (rule nth_equalityI) (auto simp: nth_append)
  moreover have "filter (\<lambda>i. bit (ws ! (i div 64)) (i mod 64)) (map ((+) (64 * n)) [0..<64]) =
      map ((+) (64 * n)) (filter (bit (ws ! n)) [0..<64])"
    unfolding filter_map by (rule arg_cong [of _ _ "map _"], rule filter_cong) auto
  ultimately show ?thesis
    unfolding index_list_def set_bits_list_def by (simp only: filter_append)
qed

lemma count_ones_sum: "(\<Sum>w\<leftarrow>[0..<n]. count_ones (ws ! w)) = card (index_set n ws)"
proof -
  have "(\<Sum>w\<leftarrow>[0..<n]. count_ones (ws ! w)) = length (index_list n ws)"
  proof (induction n)
    case (Suc n)
    then show ?case by (simp add: index_list_Suc count_ones_def)
  qed (simp add: index_list_def)
  then show ?thesis
    using distinct_card [OF distinct_index_list [of n ws]] by simp
qed

lemma same_word_bit: "j div 64 = i div 64 \<Longrightarrow> j mod 64 = i mod 64 \<longleftrightarrow> j = (i :: nat)"
  using div_mult_mod_eq [of j 64] div_mult_mod_eq [of i 64] by auto

lemma bit_word_update:
  assumes "i div 64 < length ws"
  shows "bit (ws[i div 64 := ws ! (i div 64) OR word_bit i] ! (j div 64)) (j mod 64) \<longleftrightarrow>
      j = i \<or> bit (ws ! (j div 64)) (j mod 64)"
    and "bit (ws[i div 64 := ws ! (i div 64) AND NOT (word_bit i)] ! (j div 64)) (j mod 64) \<longleftrightarrow>
      j \<noteq> i \<and> bit (ws ! (j div 64)) (j mod 64)"
proof -
  show "bit (ws[i div 64 := ws ! (i div 64) OR word_bit i] ! (j div 64)) (j mod 64) \<longleftrightarrow>
      j = i \<or> bit (ws ! (j div 64)) (j mod 64)"
  proof (cases "j div 64 = i div 64")
    case True
    with assms same_word_bit [OF True] show ?thesis by (simp add: bit_or_iff) blast
  qed auto
  show "bit (ws[i div 64 := ws ! (i div 64) AND NOT (word_bit i)] ! (j div 64)) (j mod 64) \<longleftrightarrow>
      j \<noteq> i \<and> bit (ws ! (j div 64)) (j mod 64)"
  proof (cases "j div 64 = i div 64")
    case True
    with assms same_word_bit [OF True] show ?thesis by (simp add: bit_and_iff bit_not_iff_eq not_le) blast
  qed auto
qed

lemma index_set_update:
  assumes "i div 64 < length ws"
  shows "i < 64 * n \<Longrightarrow> index_set n (ws[i div 64 := ws ! (i div 64) OR word_bit i]) = insert i (index_set n ws)"
    and "index_set n (ws[i div 64 := ws ! (i div 64) AND NOT (word_bit i)]) = index_set n ws - {i}"
  unfolding index_set_def bit_word_update [OF assms] by auto

section \<open>The interface: a mutable set of object indices\<close>

locale obj_set =
  fixes inv :: "'b \<Rightarrow> bool"
    and members :: "'b \<Rightarrow> nat set"
    and cap :: "'b \<Rightarrow> nat"
    and ins rem :: "'b \<Rightarrow> nat \<Rightarrow> (bool \<times> 'b) outcome"
    and mem :: "'b \<Rightarrow> nat \<Rightarrow> bool outcome"
  assumes members_bound: "inv b \<Longrightarrow> members b \<subseteq> {..<cap b}"
    and ins_law: "inv b \<Longrightarrow> i < cap b \<Longrightarrow> \<exists>b'. ins b i = Ret (i \<notin> members b, b') \<and> inv b' \<and>
      members b' = insert i (members b) \<and> cap b' = cap b"
    and rem_law: "inv b \<Longrightarrow> i < cap b \<Longrightarrow> \<exists>b'. rem b i = Ret (i \<in> members b, b') \<and> inv b' \<and>
      members b' = members b - {i} \<and> cap b' = cap b"
    and mem_law: "inv b \<Longrightarrow> i < cap b \<Longrightarrow> mem b i = Ret (i \<in> members b)"
begin

lemma finite_members: "inv b \<Longrightarrow> finite (members b)"
  using members_bound finite_subset by blast

text \<open>Only the first of two insertions, and the first of two removals, reports a change.\<close>

lemma ins_ins:
  assumes "inv b" and "i < cap b"
  shows "\<exists>b' b''. ins b i = Ret (i \<notin> members b, b') \<and> ins b' i = Ret (False, b'') \<and> inv b''
    \<and> members b'' = members b'"
proof -
  obtain b' where b': "ins b i = Ret (i \<notin> members b, b')" "inv b'" "i \<in> members b'" "cap b' = cap b"
    using ins_law [OF assms] by auto
  moreover obtain b'' where "ins b' i = Ret (False, b'')" "inv b''" "members b'' = members b'"
    using ins_law [OF b'(2), of i] b' assms(2) by (auto simp: insert_absorb)
  ultimately show ?thesis by blast
qed

lemma rem_rem:
  assumes "inv b" and "i < cap b"
  shows "\<exists>b' b''. rem b i = Ret (i \<in> members b, b') \<and> rem b' i = Ret (False, b'') \<and> inv b''
    \<and> members b'' = members b'"
proof -
  obtain b' where b': "rem b i = Ret (i \<in> members b, b')" "inv b'" "i \<notin> members b'" "cap b' = cap b"
    using rem_law [OF assms] by auto
  moreover obtain b'' where "rem b' i = Ret (False, b'')" "inv b''" "members b'' = members b'"
    using rem_law [OF b'(2), of i] b' assms(2) by auto
  ultimately show ?thesis by blast
qed

lemma card_ins:
  assumes "inv b" and "ins b i = Ret (r, b')" and "i < cap b"
  shows "card (members b') = card (members b) + (if r then 1 else 0)" and "r \<longleftrightarrow> i \<notin> members b"
    and "inv b'" and "members b' = insert i (members b)" and "cap b' = cap b"
  using ins_law [OF assms(1,3)] assms(2) finite_members [OF assms(1)] by (auto simp: insert_absorb)

lemma card_rem:
  assumes "inv b" and "rem b i = Ret (r, b')" and "i < cap b"
  shows "card (members b) = card (members b') + (if r then 1 else 0)" and "r \<longleftrightarrow> i \<in> members b"
    and "inv b'" and "members b' = members b - {i}" and "cap b' = cap b"
proof -
  show r: "r \<longleftrightarrow> i \<in> members b" "inv b'" and m: "members b' = members b - {i}" and "cap b' = cap b"
    using rem_law [OF assms(1,3)] assms(2) by auto
  show "card (members b) = card (members b') + (if r then 1 else 0)"
    using card_Suc_Diff1 [OF finite_members [OF assms(1)], of i] r(1) unfolding m by (cases r) simp_all
qed

end

section \<open>FreeBitmap\<close>

definition INLINE_WORDS :: nat where "INLINE_WORDS = 2"

definition words_for :: "nat \<Rightarrow> nat" where
  "words_for n = max ((n + 63) div 64) 1"

definition alloc_bitmap_words ::
  "('m \<Rightarrow> usize \<Rightarrow> usize \<Rightarrow> addr option \<times> 'm) \<Rightarrow> 'm \<Rightarrow> nat \<Rightarrow> u64w list option \<times> 'm" where
  "alloc_bitmap_words alloc m words =
     (case checked_mul words 8 of
        None \<Rightarrow> (None, m)
      | Some bytes \<Rightarrow>
          (case alloc m bytes 8 of
             (None, m') \<Rightarrow> (None, m')
           | (Some p, m') \<Rightarrow> (Some (replicate words 0), m')))"

record FreeBitmap =
  inline_words :: "u64w list"
  out_of_line :: "u64w list option"
  fb_words :: nat
  fb_cap_words :: nat

definition FreeBitmap_new_for ::
  "('m \<Rightarrow> usize \<Rightarrow> usize \<Rightarrow> addr option \<times> 'm) \<Rightarrow> 'm \<Rightarrow> nat \<Rightarrow> FreeBitmap option \<times> 'm" where
  "FreeBitmap_new_for alloc m object_count =
     (let words = words_for object_count in
      if words \<le> INLINE_WORDS
      then (Some \<lparr>inline_words = replicate INLINE_WORDS 0, out_of_line = None, fb_words = words,
                  fb_cap_words = INLINE_WORDS\<rparr>, m)
      else case alloc_bitmap_words alloc m words of
             (None, m') \<Rightarrow> (None, m')
           | (Some ws, m') \<Rightarrow>
               (Some \<lparr>inline_words = replicate INLINE_WORDS 0, out_of_line = Some ws,
                      fb_words = words, fb_cap_words = words\<rparr>, m'))"

definition capacity_bits :: "FreeBitmap \<Rightarrow> nat" where
  "capacity_bits b = fb_words b * 64"

definition fb_word :: "FreeBitmap \<Rightarrow> nat \<Rightarrow> u64w outcome" where
  "fb_word b w =
     (case out_of_line b of None \<Rightarrow> index (inline_words b) w | Some ws \<Rightarrow> index ws w)"

definition fb_store :: "nat \<Rightarrow> u64w \<Rightarrow> FreeBitmap \<Rightarrow> FreeBitmap outcome" where
  "fb_store w v b =
     bind_outcome (fb_word b w) (\<lambda>_.
       Ret (case out_of_line b of
              None \<Rightarrow> b\<lparr>inline_words := (inline_words b)[w := v]\<rparr>
            | Some ws \<Rightarrow> b\<lparr>out_of_line := Some (ws[w := v])\<rparr>))"

definition FreeBitmap_insert :: "FreeBitmap \<Rightarrow> nat \<Rightarrow> (bool \<times> FreeBitmap) outcome" where
  "FreeBitmap_insert b i =
     bind_outcome (fb_word b (i div 64)) (\<lambda>old.
       bind_outcome (fb_store (i div 64) (old OR word_bit i) b) (\<lambda>b'.
         Ret (old AND word_bit i = 0, b')))"

definition FreeBitmap_remove :: "FreeBitmap \<Rightarrow> nat \<Rightarrow> (bool \<times> FreeBitmap) outcome" where
  "FreeBitmap_remove b i =
     bind_outcome (fb_word b (i div 64)) (\<lambda>old.
       bind_outcome (fb_store (i div 64) (old AND NOT (word_bit i)) b) (\<lambda>b'.
         Ret (old AND word_bit i \<noteq> 0, b')))"

definition FreeBitmap_contains :: "FreeBitmap \<Rightarrow> nat \<Rightarrow> bool outcome" where
  "FreeBitmap_contains b i =
     bind_outcome (fb_word b (i div 64)) (\<lambda>x. Ret (x AND word_bit i \<noteq> 0))"

definition FreeBitmap_count :: "FreeBitmap \<Rightarrow> nat outcome" where
  "FreeBitmap_count b =
     fold_outcome (\<lambda>w n. bind_outcome (fb_word b w) (\<lambda>x. Ret (n + count_ones x))) [0..<fb_words b] 0"

definition fill_word :: "nat \<Rightarrow> nat \<Rightarrow> u64w" where
  "fill_word n w =
     (let lo = w * 64 in
      if lo + 64 \<le> n then - 1
      else if n \<le> lo then 0
      else push_bit (n - lo) 1 - 1)"

definition fill_below :: "nat \<Rightarrow> FreeBitmap \<Rightarrow> FreeBitmap outcome" where
  "fill_below n b = fold_outcome (\<lambda>w. fb_store w (fill_word n w)) [0..<fb_words b] b"

definition FreeBitmap_clear :: "FreeBitmap \<Rightarrow> FreeBitmap outcome" where
  "FreeBitmap_clear b = fold_outcome (\<lambda>w. fb_store w 0) [0..<fb_words b] b"

definition FreeBitmap_recycle_to ::
  "('m \<Rightarrow> usize \<Rightarrow> usize \<Rightarrow> addr option \<times> 'm) \<Rightarrow> FreeBitmap \<Rightarrow> nat \<Rightarrow> 'm \<Rightarrow>
   (bool \<times> FreeBitmap \<times> 'm) outcome" where
  "FreeBitmap_recycle_to alloc b object_count m =
     (let new_words = words_for object_count;
          finish = (\<lambda>b m. bind_outcome (FreeBitmap_clear (b\<lparr>fb_words := new_words\<rparr>))
                            (\<lambda>b'. Ret (True, b', m)))
      in if fb_cap_words b < new_words
         then (case alloc_bitmap_words alloc m new_words of
                 (None, m') \<Rightarrow> Ret (False, b, m')
               | (Some ws, m') \<Rightarrow> finish (b\<lparr>out_of_line := Some ws, fb_cap_words := new_words\<rparr>) m')
         else finish b m)"

subsection \<open>Invariant and abstraction\<close>

definition fb_storage :: "FreeBitmap \<Rightarrow> u64w list" where
  "fb_storage b = (case out_of_line b of None \<Rightarrow> inline_words b | Some ws \<Rightarrow> ws)"

definition fb_inv :: "FreeBitmap \<Rightarrow> bool" where
  "fb_inv b \<longleftrightarrow> 1 \<le> fb_words b \<and> fb_words b \<le> fb_cap_words b \<and> length (fb_storage b) = fb_cap_words b"

definition fb_set :: "FreeBitmap \<Rightarrow> nat set" where
  "fb_set b = index_set (fb_words b) (fb_storage b)"

lemma fb_word_eq: "fb_word b w = index (fb_storage b) w"
  by (simp add: fb_word_def fb_storage_def split: option.split)

lemma fb_storage_fb_words [simp]: "fb_storage (b\<lparr>fb_words := n\<rparr>) = fb_storage b"
  by (simp add: fb_storage_def split: option.split)

lemma fb_store_Ret:
  assumes "w < length (fb_storage b)"
  obtains b' where "fb_store w v b = Ret b'" and "fb_storage b' = (fb_storage b)[w := v]"
    and "fb_words b' = fb_words b" and "fb_cap_words b' = fb_cap_words b"
  using assms by (auto simp: fb_store_def fb_word_eq fb_storage_def split: option.splits)

lemma fb_index_in_range: "fb_inv b \<Longrightarrow> i < capacity_bits b \<Longrightarrow> i div 64 < length (fb_storage b)"
  by (simp add: fb_inv_def capacity_bits_def div_less_iff_less_mult)

lemma fb_count: "fb_inv b \<Longrightarrow> FreeBitmap_count b = Ret (card (fb_set b))"
proof -
  assume inv: "fb_inv b"
  have "k \<le> fb_words b \<Longrightarrow>
    fold_outcome (\<lambda>w n. bind_outcome (fb_word b w) (\<lambda>x. Ret (n + count_ones x))) [0..<k] 0 =
      Ret (\<Sum>w\<leftarrow>[0..<k]. count_ones (fb_storage b ! w))" for k
  proof (induction k)
    case (Suc k)
    then show ?case using inv by (simp add: fold_outcome_append fb_word_eq fb_inv_def)
  qed simp
  then show ?thesis unfolding FreeBitmap_count_def fb_set_def by (simp add: count_ones_sum)
qed

text \<open>A loop that stores a word at every index below the active count.\<close>

lemma fb_store_loop:
  assumes "fb_inv b"
  shows "\<exists>b'. fold_outcome (\<lambda>w. fb_store w (f w)) [0..<fb_words b] b = Ret b' \<and> fb_inv b' \<and>
    fb_words b' = fb_words b \<and> fb_cap_words b' = fb_cap_words b \<and>
    (\<forall>w<fb_words b. fb_storage b' ! w = f w)"
proof -
  have "k \<le> fb_words b \<Longrightarrow> \<exists>b'. fold_outcome (\<lambda>w. fb_store w (f w)) [0..<k] b = Ret b' \<and> fb_inv b' \<and>
    fb_words b' = fb_words b \<and> fb_cap_words b' = fb_cap_words b \<and> (\<forall>w<k. fb_storage b' ! w = f w)" for k
  proof (induction k)
    case (Suc k)
    then obtain b' where b': "fold_outcome (\<lambda>w. fb_store w (f w)) [0..<k] b = Ret b'" "fb_inv b'"
      "fb_words b' = fb_words b" "fb_cap_words b' = fb_cap_words b" "\<forall>w<k. fb_storage b' ! w = f w"
      by auto
    have lt: "k < length (fb_storage b')" using Suc.prems b' assms by (simp add: fb_inv_def)
    obtain b'' where "fb_store k (f k) b' = Ret b''" "fb_storage b'' = (fb_storage b')[k := f k]"
      "fb_words b'' = fb_words b'" "fb_cap_words b'' = fb_cap_words b'"
      using fb_store_Ret [OF lt] .
    with b' lt show ?case
      by (auto simp: fold_outcome_append fb_inv_def nth_list_update less_Suc_eq)
  qed (simp add: assms)
  then show ?thesis by blast
qed

interpretation fb: obj_set fb_inv fb_set capacity_bits FreeBitmap_insert FreeBitmap_remove
  FreeBitmap_contains
proof
  fix b :: FreeBitmap and i
  show "fb_set b \<subseteq> {..<capacity_bits b}"
    by (auto simp: fb_set_def index_set_def capacity_bits_def)
  assume inv: "fb_inv b" and i: "i < capacity_bits b"
  let ?w = "i div 64"
  have lt: "?w < length (fb_storage b)" using fb_index_in_range [OF inv i] .
  have i64: "i < 64 * fb_words b" using i by (simp add: capacity_bits_def)
  then have mem: "fb_storage b ! ?w AND word_bit i \<noteq> 0 \<longleftrightarrow> i \<in> fb_set b"
    by (simp add: and_word_bit fb_set_def index_set_def)
  then have mem0: "fb_storage b ! ?w AND word_bit i = 0 \<longleftrightarrow> i \<notin> fb_set b" by blast
  show "FreeBitmap_contains b i = Ret (i \<in> fb_set b)"
    using lt mem by (simp add: FreeBitmap_contains_def fb_word_eq)
  obtain b1 where "fb_store ?w (fb_storage b ! ?w OR word_bit i) b = Ret b1"
    "fb_storage b1 = (fb_storage b)[?w := fb_storage b ! ?w OR word_bit i]"
    "fb_words b1 = fb_words b" "fb_cap_words b1 = fb_cap_words b"
    using fb_store_Ret [OF lt] .
  then show "\<exists>b'. FreeBitmap_insert b i = Ret (i \<notin> fb_set b, b') \<and> fb_inv b' \<and>
      fb_set b' = insert i (fb_set b) \<and> capacity_bits b' = capacity_bits b"
    using lt mem0 inv index_set_update(1) [OF lt i64]
    by (simp add: FreeBitmap_insert_def fb_word_eq fb_inv_def fb_set_def capacity_bits_def)
  obtain b2 where "fb_store ?w (fb_storage b ! ?w AND NOT (word_bit i)) b = Ret b2"
    "fb_storage b2 = (fb_storage b)[?w := fb_storage b ! ?w AND NOT (word_bit i)]"
    "fb_words b2 = fb_words b" "fb_cap_words b2 = fb_cap_words b"
    using fb_store_Ret [OF lt] .
  then show "\<exists>b'. FreeBitmap_remove b i = Ret (i \<in> fb_set b, b') \<and> fb_inv b' \<and>
      fb_set b' = fb_set b - {i} \<and> capacity_bits b' = capacity_bits b"
    using lt mem inv index_set_update(2) [OF lt, of "fb_words b"]
    by (simp add: FreeBitmap_remove_def fb_word_eq fb_inv_def fb_set_def capacity_bits_def)
qed

lemma bit_fill_word: "p < 64 \<Longrightarrow> bit (fill_word n w) p \<longleftrightarrow> w * 64 + p < n"
  by (auto simp: fill_word_def Let_def push_bit_of_1 mask_eq_exp_minus_1 [symmetric] bit_mask_iff
      possible_bit_word bit_minus_1_iff)

lemma fill_below_Ret:
  assumes "fb_inv b" and "n \<le> capacity_bits b"
  shows "\<exists>b'. fill_below n b = Ret b' \<and> fb_inv b' \<and> fb_set b' = {..<n} \<and>
    capacity_bits b' = capacity_bits b"
proof -
  obtain b' where b': "fill_below n b = Ret b'" "fb_inv b'" "fb_words b' = fb_words b"
    "\<forall>w<fb_words b. fb_storage b' ! w = fill_word n w"
    using fb_store_loop [OF assms(1), of "fill_word n"] unfolding fill_below_def by blast
  have "bit (fb_storage b' ! (i div 64)) (i mod 64) \<longleftrightarrow> i < n" if "i < 64 * fb_words b" for i
    using that b'(4) by (simp add: div_less_iff_less_mult bit_fill_word)
  then have "fb_set b' = {..<n}"
    using b'(3) assms(2) by (auto simp: fb_set_def index_set_def capacity_bits_def)
  with b' show ?thesis by (simp add: capacity_bits_def)
qed

lemma FreeBitmap_clear_Ret:
  assumes "fb_inv b"
  shows "\<exists>b'. FreeBitmap_clear b = Ret b' \<and> fb_inv b' \<and> fb_set b' = {} \<and>
    capacity_bits b' = capacity_bits b"
proof -
  obtain b' where b': "FreeBitmap_clear b = Ret b'" "fb_inv b'" "fb_words b' = fb_words b"
    "\<forall>w<fb_words b. fb_storage b' ! w = 0"
    using fb_store_loop [OF assms, of "\<lambda>_. 0"] unfolding FreeBitmap_clear_def by blast
  then have "fb_set b' = {}"
    by (auto simp: fb_set_def index_set_def div_less_iff_less_mult)
  with b' show ?thesis by (simp add: capacity_bits_def)
qed

lemma words_for_covers: "n \<le> words_for n * 64" and words_for_pos: "1 \<le> words_for n"
proof -
  have "n + 63 < (n + 63) div 64 * 64 + 64" using div_mult_mod_eq [of "n + 63" 64]
    by (metis add_less_cancel_left mod_less_divisor zero_less_numeral)
  moreover have "(n + 63) div 64 * 64 \<le> words_for n * 64" by (simp add: words_for_def)
  ultimately show "n \<le> words_for n * 64" by linarith
  show "1 \<le> words_for n" by (simp add: words_for_def)
qed

lemma alloc_bitmap_words_Some:
  "alloc_bitmap_words alloc m n = (Some ws, m') \<Longrightarrow> ws = replicate n 0"
  by (auto simp: alloc_bitmap_words_def split: option.splits prod.splits)

lemma FreeBitmap_new_for_Some:
  assumes "FreeBitmap_new_for alloc m n = (Some b, m')"
  shows "fb_inv b" and "fb_set b = {}" and "n \<le> capacity_bits b"
proof -
  have st: "fb_words b = words_for n" "fb_words b \<le> fb_cap_words b"
    "fb_storage b = replicate (fb_cap_words b) 0"
    using assms by (auto simp: FreeBitmap_new_for_def Let_def fb_storage_def
        split: if_splits option.splits prod.splits dest: alloc_bitmap_words_Some)
  then show "fb_inv b" using words_for_pos by (simp add: fb_inv_def)
  show "n \<le> capacity_bits b" using st(1) words_for_covers by (simp add: capacity_bits_def)
  show "fb_set b = {}"
    using st by (auto simp: fb_set_def index_set_def div_less_iff_less_mult)
qed

lemma FreeBitmap_recycle_to_Ret:
  assumes "fb_inv b"
  shows "\<exists>r b' m'. FreeBitmap_recycle_to alloc b n m = Ret (r, b', m') \<and> fb_inv b' \<and>
    (if r then fb_set b' = {} \<and> capacity_bits b' = words_for n * 64
     else b' = b \<and> fb_cap_words b < words_for n)"
proof -
  let ?n = "words_for n"
  have fin: "\<exists>b'. FreeBitmap_clear (c\<lparr>fb_words := ?n\<rparr>) = Ret b' \<and> fb_inv b' \<and> fb_set b' = {} \<and>
      capacity_bits b' = ?n * 64" if "?n \<le> fb_cap_words c" "length (fb_storage c) = fb_cap_words c" for c
  proof -
    have "fb_inv (c\<lparr>fb_words := ?n\<rparr>)"
      using that words_for_pos by (simp add: fb_inv_def)
    from FreeBitmap_clear_Ret [OF this] show ?thesis
      by (auto simp: capacity_bits_def)
  qed
  show ?thesis
  proof (cases "fb_cap_words b < ?n")
    case True
    show ?thesis
    proof (cases "alloc_bitmap_words alloc m ?n")
      case (Pair r m')
      show ?thesis
      proof (cases r)
        case None
        with True Pair assms show ?thesis by (auto simp: FreeBitmap_recycle_to_def Let_def)
      next
        case (Some ws)
        then have "length ws = ?n" using Pair alloc_bitmap_words_Some by fastforce
        then obtain b' where "FreeBitmap_clear (b\<lparr>out_of_line := Some ws, fb_cap_words := ?n, fb_words := ?n\<rparr>) = Ret b'"
          "fb_inv b'" "fb_set b' = {}" "capacity_bits b' = ?n * 64"
          using fin [of "b\<lparr>out_of_line := Some ws, fb_cap_words := ?n\<rparr>"] by (auto simp: fb_storage_def)
        with True Pair Some show ?thesis by (auto simp: FreeBitmap_recycle_to_def Let_def)
      qed
    qed
  next
    case False
    with fin [of b] assms show ?thesis by (auto simp: FreeBitmap_recycle_to_def Let_def fb_inv_def)
  qed
qed

section \<open>CachedBits\<close>

record CachedBits =
  cb_words :: "u64w list option"
  cb_cap_words :: nat

definition CachedBits_new_for ::
  "('m \<Rightarrow> usize \<Rightarrow> usize \<Rightarrow> addr option \<times> 'm) \<Rightarrow> 'm \<Rightarrow> nat \<Rightarrow> CachedBits option \<times> 'm" where
  "CachedBits_new_for alloc m object_count =
     (let words = words_for object_count in
      case alloc_bitmap_words alloc m words of
        (None, m') \<Rightarrow> (None, m')
      | (Some ws, m') \<Rightarrow> (Some \<lparr>cb_words = Some ws, cb_cap_words = words\<rparr>, m'))"

definition cb_word :: "CachedBits \<Rightarrow> nat \<Rightarrow> u64w option" where
  "cb_word b w =
     (case cb_words b of
        None \<Rightarrow> None
      | Some ws \<Rightarrow> if cb_cap_words b \<le> w then None else get ws w)"

definition cb_store :: "nat \<Rightarrow> u64w \<Rightarrow> CachedBits \<Rightarrow> CachedBits" where
  "cb_store w v b = b\<lparr>cb_words := map_option (\<lambda>ws. ws[w := v]) (cb_words b)\<rparr>"

definition CachedBits_set :: "CachedBits \<Rightarrow> nat \<Rightarrow> bool \<times> CachedBits" where
  "CachedBits_set b i =
     (case cb_word b (i div 64) of
        None \<Rightarrow> (False, b)
      | Some old \<Rightarrow> (old AND word_bit i = 0, cb_store (i div 64) (old OR word_bit i) b))"

definition CachedBits_clear :: "CachedBits \<Rightarrow> nat \<Rightarrow> bool \<times> CachedBits" where
  "CachedBits_clear b i =
     (case cb_word b (i div 64) of
        None \<Rightarrow> (False, b)
      | Some old \<Rightarrow> (old AND word_bit i \<noteq> 0, cb_store (i div 64) (old AND NOT (word_bit i)) b))"

definition CachedBits_contains :: "CachedBits \<Rightarrow> nat \<Rightarrow> bool" where
  "CachedBits_contains b i \<longleftrightarrow>
     (case cb_word b (i div 64) of None \<Rightarrow> False | Some x \<Rightarrow> x AND word_bit i \<noteq> 0)"

definition CachedBits_count :: "CachedBits \<Rightarrow> nat \<Rightarrow> nat" where
  "CachedBits_count b words =
     (\<Sum>w\<leftarrow>[0..<words]. case cb_word b w of None \<Rightarrow> 0 | Some x \<Rightarrow> count_ones x)"

definition clear_all :: "nat \<Rightarrow> CachedBits \<Rightarrow> CachedBits" where
  "clear_all words b =
     fold (\<lambda>w b. case cb_word b w of None \<Rightarrow> b | Some _ \<Rightarrow> cb_store w 0 b) [0..<words] b"

definition CachedBits_recycle_to ::
  "('m \<Rightarrow> usize \<Rightarrow> usize \<Rightarrow> addr option \<times> 'm) \<Rightarrow> CachedBits \<Rightarrow> nat \<Rightarrow> 'm \<Rightarrow>
   bool \<times> CachedBits \<times> 'm" where
  "CachedBits_recycle_to alloc b object_count m =
     (let new_words = words_for object_count in
      if cb_cap_words b < new_words \<or> cb_words b = None
      then (case alloc_bitmap_words alloc m new_words of
              (None, m') \<Rightarrow> (False, b, m')
            | (Some ws, m') \<Rightarrow> (True, b\<lparr>cb_words := Some ws, cb_cap_words := new_words\<rparr>, m'))
      else (True, clear_all new_words b, m))"

definition cb_storage :: "CachedBits \<Rightarrow> u64w list" where
  "cb_storage b = (case cb_words b of None \<Rightarrow> [] | Some ws \<Rightarrow> ws)"

definition cb_inv :: "CachedBits \<Rightarrow> bool" where
  "cb_inv b \<longleftrightarrow> (\<forall>ws. cb_words b = Some ws \<longrightarrow> length ws = cb_cap_words b)"

definition cb_set :: "CachedBits \<Rightarrow> nat set" where
  "cb_set b = index_set (length (cb_storage b)) (cb_storage b)"

definition cb_cap :: "CachedBits \<Rightarrow> nat" where
  "cb_cap b = length (cb_storage b) * 64"

lemma cb_word_eq: "cb_inv b \<Longrightarrow> cb_word b w = get (cb_storage b) w"
  by (auto simp: cb_word_def cb_storage_def cb_inv_def get_def split: option.split)

lemma cb_storage_store [simp]: "cb_storage (cb_store w v b) = (cb_storage b)[w := v]"
  by (simp add: cb_store_def cb_storage_def split: option.split)

lemma cb_inv_store [simp]: "cb_inv b \<Longrightarrow> cb_inv (cb_store w v b)"
  by (auto simp: cb_store_def cb_inv_def)

interpretation cb: obj_set cb_inv cb_set cb_cap "\<lambda>b i. Ret (CachedBits_set b i)"
  "\<lambda>b i. Ret (CachedBits_clear b i)" "\<lambda>b i. Ret (CachedBits_contains b i)"
proof
  fix b :: CachedBits and i
  show "cb_set b \<subseteq> {..<cb_cap b}" by (auto simp: cb_set_def index_set_def cb_cap_def)
  assume inv: "cb_inv b" and i: "i < cb_cap b"
  let ?w = "i div 64"
  have lt: "?w < length (cb_storage b)" and i64: "i < 64 * length (cb_storage b)"
    using i by (auto simp: cb_cap_def div_less_iff_less_mult)
  then have mem: "cb_storage b ! ?w AND word_bit i \<noteq> 0 \<longleftrightarrow> i \<in> cb_set b"
    by (simp add: and_word_bit cb_set_def index_set_def)
  then have mem0: "cb_storage b ! ?w AND word_bit i = 0 \<longleftrightarrow> i \<notin> cb_set b" by blast
  show "Ret (CachedBits_contains b i) = Ret (i \<in> cb_set b)"
    using lt mem by (simp add: CachedBits_contains_def cb_word_eq [OF inv])
  show "\<exists>b'. Ret (CachedBits_set b i) = Ret (i \<notin> cb_set b, b') \<and> cb_inv b' \<and>
      cb_set b' = insert i (cb_set b) \<and> cb_cap b' = cb_cap b"
    using lt mem0 inv index_set_update(1) [OF lt i64]
    by (simp add: CachedBits_set_def cb_word_eq [OF inv] cb_set_def cb_cap_def)
  show "\<exists>b'. Ret (CachedBits_clear b i) = Ret (i \<in> cb_set b, b') \<and> cb_inv b' \<and>
      cb_set b' = cb_set b - {i} \<and> cb_cap b' = cb_cap b"
    using lt mem inv index_set_update(2) [OF lt, of "length (cb_storage b)"]
    by (simp add: CachedBits_clear_def cb_word_eq [OF inv] cb_set_def cb_cap_def)
qed

lemma CachedBits_new_for_Some:
  assumes "CachedBits_new_for alloc m n = (Some b, m')"
  shows "cb_inv b" and "cb_set b = {}" and "n \<le> cb_cap b"
proof -
  have st: "cb_words b = Some (replicate (words_for n) 0)" "cb_cap_words b = words_for n"
    using assms by (auto simp: CachedBits_new_for_def Let_def
        split: option.splits prod.splits dest: alloc_bitmap_words_Some)
  then show "cb_inv b" by (simp add: cb_inv_def)
  show "n \<le> cb_cap b" using st words_for_covers by (simp add: cb_cap_def cb_storage_def)
  show "cb_set b = {}"
    using st by (auto simp: cb_set_def cb_storage_def index_set_def div_less_iff_less_mult)
qed

lemma CachedBits_count_eq:
  assumes "cb_inv b" and "n \<le> length (cb_storage b)"
  shows "CachedBits_count b n = card (index_set n (cb_storage b))"
proof -
  have "CachedBits_count b n = (\<Sum>w\<leftarrow>[0..<n]. count_ones (cb_storage b ! w))"
    unfolding CachedBits_count_def
    by (rule arg_cong [of _ _ sum_list], rule map_cong)
       (use assms in \<open>auto simp: cb_word_eq\<close>)
  then show ?thesis by (simp add: count_ones_sum)
qed

lemma clear_all_storage:
  assumes "cb_inv b" and "n \<le> length (cb_storage b)"
  shows "cb_inv (clear_all n b) \<and> length (cb_storage (clear_all n b)) = length (cb_storage b) \<and>
    (\<forall>w<length (cb_storage b). cb_storage (clear_all n b) ! w = (if w < n then 0 else cb_storage b ! w))"
  using assms(2)
proof (induction n)
  case 0
  then show ?case using assms(1) by (simp add: clear_all_def)
next
  case (Suc n)
  let ?c = "clear_all n b"
  have c: "cb_inv ?c" "n < length (cb_storage ?c)" using Suc by auto
  then have step: "clear_all (Suc n) b = cb_store n 0 ?c"
    unfolding clear_all_def by (simp add: cb_word_eq clear_all_def [symmetric])
  show ?case
    unfolding step using Suc c by (auto simp: nth_list_update)
qed

lemma CachedBits_recycle_to_Ret:
  assumes "cb_inv b" and "CachedBits_recycle_to alloc b n m = (r, b', m')"
  shows "cb_inv b'" and "r \<Longrightarrow> cb_set b' \<inter> {..<64 * words_for n} = {} \<and> n \<le> cb_cap b'"
    and "\<not> r \<Longrightarrow> b' = b \<and> cb_cap b < 64 * words_for n"
proof -
  let ?n = "words_for n"
  have small: "cb_cap b < 64 * ?n" if "cb_cap_words b < ?n \<or> cb_words b = None"
    using that assms(1) words_for_pos [of n] by (auto simp: cb_cap_def cb_storage_def cb_inv_def split: option.splits)
  have "cb_inv b' \<and> (r \<longrightarrow> cb_set b' \<inter> {..<64 * ?n} = {} \<and> n \<le> cb_cap b') \<and>
      (\<not> r \<longrightarrow> b' = b \<and> cb_cap b < 64 * ?n)"
  proof (cases "cb_cap_words b < ?n \<or> cb_words b = None")
    case True
    show ?thesis
    proof (cases "alloc_bitmap_words alloc m ?n")
      case (Pair x m'')
      then show ?thesis
      proof (cases x)
        case None
        with True Pair assms small [OF True] show ?thesis by (auto simp: CachedBits_recycle_to_def Let_def)
      next
        case (Some ws)
        with Pair have ws: "ws = replicate ?n 0" using alloc_bitmap_words_Some by fastforce
        with True Pair Some assms(2) have "b' = b\<lparr>cb_words := Some ws, cb_cap_words := ?n\<rparr>" "r"
          by (auto simp: CachedBits_recycle_to_def Let_def)
        then show ?thesis using words_for_covers [of n]
          by (auto simp: ws cb_inv_def cb_set_def cb_cap_def cb_storage_def index_set_def
              div_less_iff_less_mult)
      qed
    qed
  next
    case False
    then have len: "?n \<le> length (cb_storage b)"
      using assms(1) by (auto simp: cb_inv_def cb_storage_def)
    have b': "b' = clear_all ?n b" "r" using False assms(2) by (auto simp: CachedBits_recycle_to_def Let_def)
    note c = clear_all_storage [OF assms(1) len]
    have "n \<le> cb_cap b'"
      using words_for_covers [of n] mult_le_mono1 [OF len, of 64] c unfolding b' cb_cap_def by linarith
    moreover have "cb_set b' \<inter> {..<64 * ?n} = {}"
      using c len unfolding b' by (auto simp: cb_set_def index_set_def div_less_iff_less_mult)
    ultimately show ?thesis using c b' by simp
  qed
  then show "cb_inv b'" and "r \<Longrightarrow> cb_set b' \<inter> {..<64 * ?n} = {} \<and> n \<le> cb_cap b'"
    and "\<not> r \<Longrightarrow> b' = b \<and> cb_cap b < 64 * ?n"
    by blast+
qed

text \<open>
  C28. Filling a free bitmap below \<open>n\<close> and counting it gives \<open>n\<close>; inserting an object adds exactly
  that object, removing it takes exactly that object away, each reports whether it changed the
  set, and the count is the size of the set throughout. Nothing panics in range.
\<close>

theorem FreeBitmap_is_a_set:
  assumes "fb_inv b" and "i < capacity_bits b" and "n \<le> capacity_bits b"
  shows "\<exists>b1 b2 b3. FreeBitmap_insert b i = Ret (i \<notin> fb_set b, b1) \<and> fb_set b1 = insert i (fb_set b) \<and>
    FreeBitmap_remove b i = Ret (i \<in> fb_set b, b2) \<and> fb_set b2 = fb_set b - {i} \<and>
    fill_below n b = Ret b3 \<and> fb_set b3 = {..<n} \<and>
    FreeBitmap_contains b i = Ret (i \<in> fb_set b) \<and>
    FreeBitmap_count b1 = Ret (card (insert i (fb_set b))) \<and>
    FreeBitmap_count b2 = Ret (card (fb_set b - {i})) \<and> FreeBitmap_count b3 = Ret n \<and>
    fb_inv b1 \<and> fb_inv b2 \<and> fb_inv b3"
proof -
  obtain b1 where "FreeBitmap_insert b i = Ret (i \<notin> fb_set b, b1)" "fb_inv b1"
    "fb_set b1 = insert i (fb_set b)" using fb.ins_law [OF assms(1,2)] by blast
  moreover obtain b2 where "FreeBitmap_remove b i = Ret (i \<in> fb_set b, b2)" "fb_inv b2"
    "fb_set b2 = fb_set b - {i}" using fb.rem_law [OF assms(1,2)] by blast
  moreover obtain b3 where "fill_below n b = Ret b3" "fb_inv b3" "fb_set b3 = {..<n}"
    using fill_below_Ret [OF assms(1,3)] by blast
  ultimately show ?thesis
    using fb.mem_law [OF assms(1,2)] fb_count [of b1] fb_count [of b2] fb_count [of b3] by auto
qed

lemma FreeBitmap_is_a_set_witness:
  "\<exists>b. fst (FreeBitmap_new_for BumpArena_alloc (BumpArena_new 4096 4096) 100) = Some b \<and>
     FreeBitmap_contains b 70 = Ret False \<and> (\<exists>b1. FreeBitmap_insert b 70 = Ret (True, b1) \<and> fb_set b1 = {70})"
proof -
  obtain b m' where b: "FreeBitmap_new_for BumpArena_alloc (BumpArena_new 4096 4096) 100 = (Some b, m')"
    by (simp add: FreeBitmap_new_for_def words_for_def INLINE_WORDS_def Let_def)
  note f = FreeBitmap_new_for_Some [OF b]
  have "70 < capacity_bits b" using f(3) by simp
  from FreeBitmap_is_a_set [OF f(1) this, of 0] show ?thesis using b f(2) by auto
qed

end
