(* ===== verification/Span.thy ===== *)
theory Span
  imports Slab Bitmap Ids
begin

text \<open>
  \<open>crates/topo-core/src/span.rs\<close>: span and large descriptors. A descriptor is the record of its
  atomic fields; the operations a \<open>SpanGuard\<close> offers run under the span lock, so each is one
  state transformer. The quarantine bitmap exists in builds with that feature, hence an option.
  The invariant \<open>span_wf\<close> ties the free bitmap to the central free count; every guarded operation
  keeps it.
\<close>

section \<open>Descriptors\<close>

datatype SpanState = SpanActive | SpanReleased

definition QUARANTINED :: u32w where "QUARANTINED = push_bit 0 1"
definition PLACE_CLASS_SHIFT :: nat where "PLACE_CLASS_SHIFT = 1"
definition PLACE_CLASS_MASK :: u32w where "PLACE_CLASS_MASK = push_bit PLACE_CLASS_SHIFT 0b11"

record NonCentralResidency =
  local_cached :: nat
  transfer_cached :: nat
  nc_quarantined :: nat

definition NonCentralResidency_NONE :: NonCentralResidency where
  "NonCentralResidency_NONE = \<lparr>local_cached = 0, transfer_cached = 0, nc_quarantined = 0\<rparr>"

definition NonCentralResidency_total :: "NonCentralResidency \<Rightarrow> nat" where
  "NonCentralResidency_total r =
     saturating_add 32 (saturating_add 32 (local_cached r) (transfer_cached r)) (nc_quarantined r)"

definition header_checksum :: "u64w list \<Rightarrow> u64w" where
  "header_checksum parts =
     foldl (\<lambda>h p. (h XOR p) * 0x100000001b3) 0xcbf29ce484222325 parts"

record SpanDescriptor =
  sp_base :: addr
  sp_id :: SpanId
  sp_arena :: ArenaId
  sp_page_count :: nat
  sp_object_count :: nat
  sp_slab_header :: nat
  sp_generation :: Generation
  sp_seq :: nat
  sp_flags :: u32w
  sp_integrity :: u64w
  sp_live_count :: nat
  sp_central_free_count :: nat
  sp_sc :: SizeClassId
  sp_state :: SpanState
  free_bitmap :: FreeBitmap
  quarantined_bitmap :: "FreeBitmap option"
  cached_bitmap :: CachedBits
  central_next :: "addr option"

definition compute_integrity :: "SpanDescriptor \<Rightarrow> u64w" where
  "compute_integrity s = header_checksum (map of_nat
     [sp_id s, sp_base s, sp_arena s, sp_page_count s, sp_object_count s, sp_slab_header s,
      sp_sc s, sp_generation s])"

definition refresh_integrity :: "SpanDescriptor \<Rightarrow> SpanDescriptor" where
  "refresh_integrity s = s\<lparr>sp_integrity := compute_integrity s\<rparr>"

definition validate_integrity :: "SpanDescriptor \<Rightarrow> bool" where
  "validate_integrity s \<longleftrightarrow> sp_integrity s = compute_integrity s"

definition SpanDescriptor_new ::
  "bool \<Rightarrow> ('m \<Rightarrow> usize \<Rightarrow> usize \<Rightarrow> addr option \<times> 'm) \<Rightarrow> 'm \<Rightarrow> SpanId \<Rightarrow> ArenaId \<Rightarrow> SizeClassId \<Rightarrow>
   addr \<Rightarrow> nat \<Rightarrow> nat \<Rightarrow> nat \<Rightarrow> SpanDescriptor option \<times> 'm" where
  "SpanDescriptor_new quarantine alloc m i arena c base page_count obj_count slab_header =
     (case FreeBitmap_new_for alloc m obj_count of
        (None, m1) \<Rightarrow> (None, m1)
      | (Some fb, m1) \<Rightarrow>
          (case (if quarantine
                 then (case FreeBitmap_new_for alloc m1 obj_count of
                         (None, m2) \<Rightarrow> (None, m2)
                       | (Some qb, m2) \<Rightarrow> (Some (Some qb), m2))
                 else (Some None, m1)) of
             (None, m2) \<Rightarrow> (None, m2)
           | (Some qb, m2) \<Rightarrow>
               (case CachedBits_new_for alloc m2 obj_count of
                  (None, m3) \<Rightarrow> (None, m3)
                | (Some cb, m3) \<Rightarrow>
                    (Some (refresh_integrity
                       \<lparr>sp_base = base, sp_id = i, sp_arena = arena, sp_page_count = page_count,
                        sp_object_count = obj_count, sp_slab_header = slab_header,
                        sp_generation = Generation_FIRST, sp_seq = 0, sp_flags = 0,
                        sp_integrity = 0, sp_live_count = 0, sp_central_free_count = 0,
                        sp_sc = c, sp_state = SpanActive, free_bitmap = fb,
                        quarantined_bitmap = qb, cached_bitmap = cb, central_next = None\<rparr>), m3))))"

definition place_class :: "SpanDescriptor \<Rightarrow> nat" where
  "place_class s = unat (drop_bit PLACE_CLASS_SHIFT (sp_flags s AND PLACE_CLASS_MASK))"

definition set_place_class :: "SpanDescriptor \<Rightarrow> nat \<Rightarrow> SpanDescriptor" where
  "set_place_class s cls =
     (let bits = push_bit PLACE_CLASS_SHIFT (of_nat cls AND 0b11)
      in s\<lparr>sp_flags := (sp_flags s AND NOT PLACE_CLASS_MASK) OR bits\<rparr>)"

definition byte_len :: "SpanDescriptor \<Rightarrow> usize" where
  "byte_len s = sp_page_count s * PAGE_SIZE"

definition object0_base :: "SpanDescriptor \<Rightarrow> addr option" where
  "object0_base s = do {
     row \<leftarrow> checked_row (sp_sc s);
     header \<leftarrow> checked_add (sp_base s) (sp_slab_header s);
     align_up header (row_align row)
   }"

definition is_quarantined :: "SpanDescriptor \<Rightarrow> bool" where
  "is_quarantined s \<longleftrightarrow> sp_flags s AND QUARANTINED \<noteq> 0"

definition set_quarantined :: "SpanDescriptor \<Rightarrow> bool \<Rightarrow> SpanDescriptor" where
  "set_quarantined s on =
     s\<lparr>sp_flags := (if on then sp_flags s OR QUARANTINED else sp_flags s AND NOT QUARANTINED)\<rparr>"

definition set_state :: "SpanDescriptor \<Rightarrow> SpanState \<Rightarrow> SpanDescriptor" where
  "set_state s st = s\<lparr>sp_state := st\<rparr>"

record ClassifyGeometry =
  cg_base :: addr
  cg_object0 :: addr
  cg_object_size :: usize
  cg_object_count :: usize
  cg_sc :: SizeClassId
  cg_arena :: ArenaId
  cg_state :: SpanState
  cg_quarantined :: bool

text \<open>One round of the reader: \<open>None\<close> asks for another round.\<close>

definition geometry_of :: "SpanDescriptor \<Rightarrow> ClassifyGeometry option" where
  "geometry_of s = do {
     row \<leftarrow> checked_row (sp_sc s);
     start \<leftarrow> checked_add (sp_base s) (sp_slab_header s);
     o0 \<leftarrow> align_up start (row_align row);
     Some \<lparr>cg_base = sp_base s, cg_object0 = o0, cg_object_size = row_size row,
           cg_object_count = sp_object_count s, cg_sc = sp_sc s, cg_arena = sp_arena s,
           cg_state = sp_state s, cg_quarantined = is_quarantined s\<rparr>
   }"

definition SEQLOCK_RETRIES :: nat where "SEQLOCK_RETRIES = 64"

text \<open>
  The reader of a descriptor nobody is writing: with an odd sequence every round fails, with an
  even one the first round returns. Concurrent writers are not modelled.
  \<open>debug_checks\<close> is the feature of that name.
\<close>

fun geometry_rounds :: "bool \<Rightarrow> SpanDescriptor \<Rightarrow> nat \<Rightarrow> ClassifyGeometry option" where
  "geometry_rounds debug_checks s 0 = None"
| "geometry_rounds debug_checks s (Suc n) =
     (if odd (sp_seq s) then geometry_rounds debug_checks s n
      else if debug_checks \<and> \<not> validate_integrity s then None
      else geometry_of s)"

definition read_consistent_geometry :: "bool \<Rightarrow> SpanDescriptor \<Rightarrow> ClassifyGeometry option" where
  "read_consistent_geometry debug_checks s = geometry_rounds debug_checks s SEQLOCK_RETRIES"

text \<open>The stores between the two sequence increments of \<open>recycle\<close>.\<close>

definition recycle_fields ::
  "SpanDescriptor \<Rightarrow> ArenaId \<Rightarrow> SizeClassId \<Rightarrow> addr \<Rightarrow> nat \<Rightarrow> nat \<Rightarrow> nat \<Rightarrow> SpanDescriptor" where
  "recycle_fields s arena c base page_count obj_count slab_header =
     refresh_integrity (s\<lparr>sp_generation := Generation_next (sp_generation s), sp_arena := arena,
       sp_sc := c, sp_base := base, sp_page_count := page_count, sp_object_count := obj_count,
       sp_slab_header := slab_header, sp_flags := 0, sp_state := SpanActive, central_next := None\<rparr>)"

definition recycle ::
  "('m \<Rightarrow> usize \<Rightarrow> usize \<Rightarrow> addr option \<times> 'm) \<Rightarrow> SpanDescriptor \<Rightarrow> ArenaId \<Rightarrow> SizeClassId \<Rightarrow>
   addr \<Rightarrow> nat \<Rightarrow> nat \<Rightarrow> nat \<Rightarrow> 'm \<Rightarrow> (bool \<times> SpanDescriptor \<times> 'm) outcome" where
  "recycle alloc s arena c base page_count obj_count slab_header m =
     bind_outcome (FreeBitmap_recycle_to alloc (free_bitmap s) obj_count m) (\<lambda>(ok1, fb, m1).
       let s1 = s\<lparr>free_bitmap := fb\<rparr> in
       if \<not> ok1 then Ret (False, s1, m1)
       else bind_outcome
         (case quarantined_bitmap s1 of
            None \<Rightarrow> Ret (True, s1, m1)
          | Some qb \<Rightarrow>
              bind_outcome (FreeBitmap_recycle_to alloc qb obj_count m1) (\<lambda>(ok2, qb', m2).
                Ret (ok2, s1\<lparr>quarantined_bitmap := Some qb'\<rparr>, m2)))
         (\<lambda>(ok2, s2, m2).
           if \<not> ok2 then Ret (False, s2, m2)
           else case CachedBits_recycle_to alloc (cached_bitmap s2) obj_count m2 of
             (ok3, cb, m3) \<Rightarrow>
               (let s3 = s2\<lparr>cached_bitmap := cb\<rparr> in
                if \<not> ok3 then Ret (False, s3, m3)
                else let s4 = s3\<lparr>sp_live_count := 0, sp_central_free_count := 0,
                                 sp_seq := wrapping_add 32 (sp_seq s3) 1\<rparr>;
                         s5 = recycle_fields s4 arena c base page_count obj_count slab_header
                     in Ret (True, s5\<lparr>sp_seq := wrapping_add 32 (sp_seq s5) 1\<rparr>, m3))))"

section \<open>Front-end residency bits\<close>

definition try_mark_cached :: "SpanDescriptor \<Rightarrow> nat \<Rightarrow> bool \<times> SpanDescriptor" where
  "try_mark_cached s i =
     (if sp_object_count s \<le> i then (False, s)
      else case CachedBits_set (cached_bitmap s) i of (r, cb) \<Rightarrow> (r, s\<lparr>cached_bitmap := cb\<rparr>))"

definition unmark_cached :: "SpanDescriptor \<Rightarrow> nat \<Rightarrow> bool \<times> SpanDescriptor" where
  "unmark_cached s i =
     (if sp_object_count s \<le> i then (False, s)
      else case CachedBits_clear (cached_bitmap s) i of (r, cb) \<Rightarrow> (r, s\<lparr>cached_bitmap := cb\<rparr>))"

definition is_cached :: "SpanDescriptor \<Rightarrow> nat \<Rightarrow> bool" where
  "is_cached s i \<longleftrightarrow> i < sp_object_count s \<and> CachedBits_contains (cached_bitmap s) i"

definition cached_count :: "SpanDescriptor \<Rightarrow> nat" where
  "cached_count s = CachedBits_count (cached_bitmap s) (fb_words (free_bitmap s)) mod 2 ^ 32"

definition is_central_free :: "SpanDescriptor \<Rightarrow> nat \<Rightarrow> bool outcome" where
  "is_central_free s i = FreeBitmap_contains (free_bitmap s) i"

definition is_free_awaiting_reuse :: "SpanDescriptor \<Rightarrow> nat \<Rightarrow> bool outcome" where
  "is_free_awaiting_reuse s i =
     (if is_cached s i then Ret True else is_central_free s i)"

definition words_disjoint :: "SpanDescriptor \<Rightarrow> FreeBitmap \<Rightarrow> nat \<Rightarrow> bool \<Rightarrow> bool outcome" where
  "words_disjoint s fb w ok =
     (if \<not> ok then Ret False
      else bind_outcome (fb_word fb w) (\<lambda>free.
        Ret (free AND (case cb_word (cached_bitmap s) w of Some c \<Rightarrow> c | None \<Rightarrow> 0) = 0)))"

definition cached_and_central_free_are_disjoint :: "SpanDescriptor \<Rightarrow> bool outcome" where
  "cached_and_central_free_are_disjoint s =
     fold_outcome (words_disjoint s (free_bitmap s)) [0..<fb_words (free_bitmap s)] True"

definition cached_and_quarantined_are_disjoint :: "SpanDescriptor \<Rightarrow> bool outcome" where
  "cached_and_quarantined_are_disjoint s =
     (case quarantined_bitmap s of
        None \<Rightarrow> Ret True
      | Some qb \<Rightarrow> fold_outcome (words_disjoint s qb) [0..<fb_words (free_bitmap s)] True)"

definition is_object_quarantined :: "SpanDescriptor \<Rightarrow> nat \<Rightarrow> bool outcome" where
  "is_object_quarantined s i =
     (case quarantined_bitmap s of None \<Rightarrow> Ret False | Some qb \<Rightarrow> FreeBitmap_contains qb i)"

section \<open>Guarded operations\<close>

definition central_insert :: "SpanDescriptor \<Rightarrow> nat \<Rightarrow> (bool \<times> SpanDescriptor) outcome" where
  "central_insert s i =
     (if sp_object_count s \<le> i then Ret (False, s)
      else bind_outcome (FreeBitmap_insert (free_bitmap s) i) (\<lambda>(fresh, fb).
        if fresh
        then Ret (True, s\<lparr>free_bitmap := fb,
                          sp_central_free_count := wrapping_add 32 (sp_central_free_count s) 1\<rparr>)
        else Ret (False, s\<lparr>free_bitmap := fb\<rparr>)))"

definition central_remove :: "SpanDescriptor \<Rightarrow> nat \<Rightarrow> (bool \<times> SpanDescriptor) outcome" where
  "central_remove s i =
     (if sp_object_count s \<le> i then Ret (False, s)
      else bind_outcome (FreeBitmap_remove (free_bitmap s) i) (\<lambda>(present, fb).
        if present
        then Ret (True, s\<lparr>free_bitmap := fb,
                          sp_central_free_count := wrapping_sub 32 (sp_central_free_count s) 1\<rparr>)
        else Ret (False, s\<lparr>free_bitmap := fb\<rparr>)))"

text \<open>These exist only in builds with the quarantine bitmap.\<close>

definition mark_quarantined :: "SpanDescriptor \<Rightarrow> FreeBitmap \<Rightarrow> nat \<Rightarrow> (bool \<times> SpanDescriptor) outcome" where
  "mark_quarantined s qb i =
     (if sp_object_count s \<le> i then Ret (False, s)
      else bind_outcome (FreeBitmap_insert qb i) (\<lambda>(r, qb').
        Ret (r, s\<lparr>quarantined_bitmap := Some qb'\<rparr>)))"

definition clear_quarantined :: "SpanDescriptor \<Rightarrow> FreeBitmap \<Rightarrow> nat \<Rightarrow> (bool \<times> SpanDescriptor) outcome" where
  "clear_quarantined s qb i =
     (if sp_object_count s \<le> i then Ret (False, s)
      else bind_outcome (FreeBitmap_remove qb i) (\<lambda>(r, qb').
        Ret (r, s\<lparr>quarantined_bitmap := Some qb'\<rparr>)))"

definition set_live_count :: "SpanDescriptor \<Rightarrow> nat \<Rightarrow> SpanDescriptor" where
  "set_live_count s n = s\<lparr>sp_live_count := n\<rparr>"

definition central_count_matches_bitmap :: "SpanDescriptor \<Rightarrow> bool outcome" where
  "central_count_matches_bitmap s =
     bind_outcome (FreeBitmap_count (free_bitmap s)) (\<lambda>n. Ret (sp_central_free_count s = n))"

definition span_partition :: "SpanDescriptor \<Rightarrow> NonCentralResidency \<Rightarrow> nat list" where
  "span_partition s nc =
     [sp_live_count s, local_cached nc, transfer_cached nc, sp_central_free_count s, nc_quarantined nc]"

definition conservation_holds :: "SpanDescriptor \<Rightarrow> NonCentralResidency \<Rightarrow> bool outcome" where
  "conservation_holds s nc =
     bind_outcome (central_count_matches_bitmap s) (\<lambda>ok.
       if \<not> ok then Ret False
       else Ret (saturating_add 32 (saturating_add 32 (sp_live_count s) (NonCentralResidency_total nc))
                   (sp_central_free_count s) = sp_object_count s))"

definition span_is_empty :: "SpanDescriptor \<Rightarrow> NonCentralResidency \<Rightarrow> bool" where
  "span_is_empty s nc \<longleftrightarrow>
     sp_live_count s = 0 \<and> local_cached nc = 0 \<and> transfer_cached nc = 0 \<and> nc_quarantined nc = 0 \<and>
     sp_central_free_count s = sp_object_count s"

text \<open>
  The inner loop of \<open>central_remove_batch\<close>: \<open>acc\<close> is the filled prefix of the caller's buffer, so
  \<open>removed\<close> is its length.
\<close>

function take_word :: "nat \<Rightarrow> nat \<Rightarrow> nat \<Rightarrow> u64w \<Rightarrow> u64w \<Rightarrow> nat list \<Rightarrow> u64w \<times> nat list" where
  "take_word w obj_count mx bits clear_mask acc =
     (if bits \<noteq> 0 \<and> length acc < mx then
        let bit_pos = trailing_zeros bits in
        if 64 \<le> bit_pos then (clear_mask, acc)
        else let idx = w * 64 + bit_pos in
          if obj_count \<le> idx then (clear_mask, acc)
          else take_word w obj_count mx (bits AND NOT (word_bit bit_pos)) (clear_mask OR word_bit bit_pos)
                 (acc @ [idx mod 2 ^ 16])
      else (clear_mask, acc))"
  by pat_completeness auto
termination
  by (relation "measure (\<lambda>(w, obj_count, mx, bits, clear_mask, acc). mx - length acc)") auto

declare take_word.simps [simp del]

definition batch_word ::
  "nat \<Rightarrow> nat \<Rightarrow> nat \<Rightarrow> FreeBitmap \<times> nat list \<Rightarrow> (FreeBitmap \<times> nat list) outcome" where
  "batch_word obj_count mx w st =
     (case st of (fb, acc) \<Rightarrow>
        if mx \<le> length acc then Ret (fb, acc)
        else bind_outcome (fb_word fb w) (\<lambda>bits.
          case take_word w obj_count mx bits 0 acc of (clear_mask, acc') \<Rightarrow>
            if clear_mask \<noteq> 0
            then bind_outcome (fb_word fb w) (\<lambda>old.
                   bind_outcome (fb_store w (old AND NOT clear_mask) fb) (\<lambda>fb'. Ret (fb', acc')))
            else Ret (fb, acc')))"

definition central_remove_batch ::
  "SpanDescriptor \<Rightarrow> nat \<Rightarrow> nat \<Rightarrow> (nat list \<times> SpanDescriptor) outcome" where
  "central_remove_batch s out_len max_count =
     (let mx = min max_count out_len in
      if mx = 0 then Ret ([], s)
      else bind_outcome
        (fold_outcome (batch_word (sp_object_count s) mx) [0..<fb_words (free_bitmap s)]
           (free_bitmap s, []))
        (\<lambda>(fb, acc).
          Ret (acc, if 0 < length acc
                    then s\<lparr>free_bitmap := fb, sp_central_free_count :=
                             wrapping_sub 32 (sp_central_free_count s) (length acc)\<rparr>
                    else s\<lparr>free_bitmap := fb\<rparr>)))"

definition activate :: "SpanDescriptor \<Rightarrow> nat \<Rightarrow> SpanDescriptor outcome" where
  "activate s obj_count =
     bind_outcome (fill_below obj_count (free_bitmap s)) (\<lambda>fb.
       Ret (s\<lparr>free_bitmap := fb, sp_central_free_count := obj_count, sp_live_count := 0\<rparr>))"

definition deactivate :: "SpanDescriptor \<Rightarrow> SpanDescriptor outcome" where
  "deactivate s =
     bind_outcome (FreeBitmap_clear (free_bitmap s)) (\<lambda>fb.
       Ret (s\<lparr>free_bitmap := fb, sp_central_free_count := 0, sp_live_count := 0\<rparr>))"

definition quarantine_consistent :: "SpanDescriptor \<Rightarrow> FreeBitmap \<Rightarrow> bool outcome" where
  "quarantine_consistent s qb =
     bind_outcome (FreeBitmap_count qb) (\<lambda>n.
       if sp_live_count s < n then Ret False
       else fold_outcome (\<lambda>i ok.
         if \<not> ok then Ret False
         else bind_outcome (FreeBitmap_contains (free_bitmap s) i) (\<lambda>c.
           if c then bind_outcome (FreeBitmap_contains qb i) (\<lambda>q. Ret (\<not> q)) else Ret True))
         [0..<sp_object_count s] True)"

definition check_invariants_locked :: "bool \<Rightarrow> SpanDescriptor \<Rightarrow> bool outcome" where
  "check_invariants_locked debug_checks s =
     (if checked_row (sp_sc s) = None then Ret False
      else case compute (sp_sc s) (sp_base s) (sp_slab_header s) of
        None \<Rightarrow> Ret False
      | Some l \<Rightarrow>
          if \<not> sp_object_count s \<le> object_count l then Ret False
          else case Option.bind (checked_mul (sp_page_count s) PAGE_SIZE) (checked_add (sp_base s)) of
            None \<Rightarrow> Ret False
          | Some span_end \<Rightarrow>
              (case Option.bind (checked_mul (sp_object_count s) (object_size l)) (checked_add (object0 l)) of
                 None \<Rightarrow> Ret False
               | Some last_obj_end \<Rightarrow>
                   if span_end < last_obj_end then Ret False
                   else bind_outcome (central_count_matches_bitmap s) (\<lambda>ok.
                     if \<not> ok then Ret False
                     else if sp_object_count s < sp_live_count s + sp_central_free_count s then Ret False
                     else bind_outcome
                       (case quarantined_bitmap s of
                          None \<Rightarrow> Ret True
                        | Some qb \<Rightarrow> quarantine_consistent s qb)
                       (\<lambda>qok.
                         if \<not> qok then Ret False
                         else if debug_checks \<and> \<not> validate_integrity s then Ret False
                         else Ret True))))"

record GenGuard =
  gg_id :: SpanId
  gg_generation :: Generation

definition gen_guard :: "SpanDescriptor \<Rightarrow> GenGuard" where
  "gen_guard s = \<lparr>gg_id = sp_id s, gg_generation = sp_generation s\<rparr>"

definition GenGuard_matches :: "GenGuard \<Rightarrow> SpanDescriptor \<Rightarrow> bool" where
  "GenGuard_matches g s \<longleftrightarrow> sp_id s = gg_id g \<and> sp_generation s = gg_generation g"

section \<open>Large descriptors\<close>

datatype LargeState = LargeActive | LargeReleased

record LargeDescriptor =
  lg_base :: addr
  lg_usable_size :: usize
  lg_requested :: usize
  lg_align :: usize
  lg_integrity :: u64w
  lg_id :: LargeId
  lg_arena :: ArenaId
  lg_generation :: Generation
  lg_seq :: nat
  lg_state :: LargeState

definition lg_compute_integrity :: "LargeDescriptor \<Rightarrow> u64w" where
  "lg_compute_integrity d = header_checksum (map of_nat
     [lg_id d, lg_base d, lg_usable_size d, lg_align d, lg_arena d, lg_generation d])"

definition lg_refresh_integrity :: "LargeDescriptor \<Rightarrow> LargeDescriptor" where
  "lg_refresh_integrity d = d\<lparr>lg_integrity := lg_compute_integrity d\<rparr>"

definition lg_validate_integrity :: "LargeDescriptor \<Rightarrow> bool" where
  "lg_validate_integrity d \<longleftrightarrow> lg_integrity d = lg_compute_integrity d"

definition LargeDescriptor_new :: "LargeId \<Rightarrow> ArenaId \<Rightarrow> addr \<Rightarrow> usize \<Rightarrow> usize \<Rightarrow> LargeDescriptor" where
  "LargeDescriptor_new i arena base usable_sz align =
     lg_refresh_integrity \<lparr>lg_base = base, lg_usable_size = usable_sz, lg_requested = usable_sz,
       lg_align = align, lg_integrity = 0, lg_id = i, lg_arena = arena,
       lg_generation = Generation_FIRST, lg_seq = 0, lg_state = LargeActive\<rparr>"

fun large_rounds :: "bool \<Rightarrow> LargeDescriptor \<Rightarrow> nat \<Rightarrow> (addr \<times> LargeState) option" where
  "large_rounds debug_checks d 0 = None"
| "large_rounds debug_checks d (Suc n) =
     (if odd (lg_seq d) then large_rounds debug_checks d n
      else if debug_checks \<and> \<not> lg_validate_integrity d then None
      else Some (lg_base d, lg_state d))"

definition read_consistent :: "bool \<Rightarrow> LargeDescriptor \<Rightarrow> (addr \<times> LargeState) option" where
  "read_consistent debug_checks d = large_rounds debug_checks d SEQLOCK_RETRIES"

definition set_requested :: "LargeDescriptor \<Rightarrow> usize \<Rightarrow> LargeDescriptor" where
  "set_requested d r = d\<lparr>lg_requested := min r (lg_usable_size d)\<rparr>"

definition lg_end :: "LargeDescriptor \<Rightarrow> addr" where
  "lg_end d = wrapping_add 64 (lg_base d) (lg_usable_size d)"

definition lg_set_state :: "LargeDescriptor \<Rightarrow> LargeState \<Rightarrow> LargeDescriptor" where
  "lg_set_state d st = d\<lparr>lg_state := st\<rparr>"

definition lg_bump_seq :: "LargeDescriptor \<Rightarrow> LargeDescriptor" where
  "lg_bump_seq d = d\<lparr>lg_seq := wrapping_add 32 (lg_seq d) 1\<rparr>"

definition lg_recycle :: "LargeDescriptor \<Rightarrow> ArenaId \<Rightarrow> addr \<Rightarrow> usize \<Rightarrow> usize \<Rightarrow> LargeDescriptor" where
  "lg_recycle d arena base usable_sz align =
     (let d1 = lg_bump_seq d in
      lg_bump_seq (lg_refresh_integrity (d1\<lparr>lg_generation := Generation_next (lg_generation d1),
        lg_arena := arena, lg_base := base, lg_usable_size := usable_sz, lg_requested := usable_sz,
        lg_align := align, lg_state := LargeActive\<rparr>)))"

definition resize_usable :: "LargeDescriptor \<Rightarrow> usize \<Rightarrow> LargeDescriptor" where
  "resize_usable d n = lg_bump_seq (lg_refresh_integrity ((lg_bump_seq d)\<lparr>lg_usable_size := n\<rparr>))"

definition shrink_usable :: "LargeDescriptor \<Rightarrow> usize \<Rightarrow> LargeDescriptor" where
  "shrink_usable d new_usable = resize_usable d new_usable"

definition grow_usable :: "LargeDescriptor \<Rightarrow> usize \<Rightarrow> LargeDescriptor" where
  "grow_usable d new_usable = resize_usable d new_usable"

section \<open>The invariant\<close>

definition free_set :: "SpanDescriptor \<Rightarrow> nat set" where
  "free_set s = fb_set (free_bitmap s)"

definition span_wf :: "SpanDescriptor \<Rightarrow> bool" where
  "span_wf s \<longleftrightarrow>
     fb_inv (free_bitmap s) \<and> sp_object_count s \<le> capacity_bits (free_bitmap s) \<and>
     free_set s \<subseteq> {..<sp_object_count s} \<and> sp_central_free_count s = card (free_set s) \<and>
     sp_object_count s \<le> 2 ^ 16 \<and>
     cb_inv (cached_bitmap s) \<and> sp_object_count s \<le> cb_cap (cached_bitmap s) \<and>
     (\<forall>qb. quarantined_bitmap s = Some qb \<longrightarrow> fb_inv qb \<and> sp_object_count s \<le> capacity_bits qb)"

lemma span_wf_count:
  assumes "span_wf s"
  shows "card (free_set s) \<le> sp_object_count s" and "sp_central_free_count s < 2 ^ 32"
proof -
  show "card (free_set s) \<le> sp_object_count s"
    using card_mono [of "{..<sp_object_count s}" "free_set s"] assms by (simp add: span_wf_def)
  then show "sp_central_free_count s < 2 ^ 32" using assms by (simp add: span_wf_def)
qed

lemma count_unchanged:
  "sp_central_free_count s = n \<Longrightarrow> s\<lparr>free_bitmap := b, sp_central_free_count := n\<rparr> = s\<lparr>free_bitmap := b\<rparr>"
  by (cases s) simp

lemma central_insert_wf:
  assumes "span_wf s"
  shows "\<exists>s'. central_insert s i = Ret (i < sp_object_count s \<and> i \<notin> free_set s, s') \<and> span_wf s' \<and>
    free_set s' = (if i < sp_object_count s then insert i (free_set s) else free_set s) \<and>
    sp_object_count s' = sp_object_count s \<and> sp_live_count s' = sp_live_count s"
proof (cases "i < sp_object_count s")
  case False
  with assms show ?thesis by (simp add: central_insert_def)
next
  case True
  have inv: "fb_inv (free_bitmap s)" and i: "i < capacity_bits (free_bitmap s)"
    using assms True by (auto simp: span_wf_def)
  obtain fb where ins: "FreeBitmap_insert (free_bitmap s) i = Ret (i \<notin> free_set s, fb)"
    using fb.ins_law [OF inv i] unfolding free_set_def by blast
  note c = fb.card_ins [OF inv ins i, folded free_set_def]
  have "wrapping_add 32 (sp_central_free_count s) 1 = sp_central_free_count s + 1"
    if "i \<notin> free_set s"
  proof -
    have "sp_central_free_count s \<le> 2 ^ 16" using span_wf_count [OF assms] assms by (simp add: span_wf_def)
    then show ?thesis by (simp add: wrapping_add_def)
  qed
  with True ins c assms show ?thesis
    by (auto simp: central_insert_def span_wf_def free_set_def)
qed

lemma central_remove_wf:
  assumes "span_wf s"
  shows "\<exists>s'. central_remove s i = Ret (i \<in> free_set s, s') \<and> span_wf s' \<and>
    free_set s' = free_set s - {i} \<and> sp_object_count s' = sp_object_count s \<and>
    sp_live_count s' = sp_live_count s"
proof (cases "i < sp_object_count s")
  case False
  with assms have "i \<notin> free_set s" by (auto simp: span_wf_def)
  with False assms show ?thesis by (simp add: central_remove_def)
next
  case True
  have inv: "fb_inv (free_bitmap s)" and i: "i < capacity_bits (free_bitmap s)"
    using assms True by (auto simp: span_wf_def)
  obtain fb where rem: "FreeBitmap_remove (free_bitmap s) i = Ret (i \<in> free_set s, fb)"
    using fb.rem_law [OF inv i] unfolding free_set_def by blast
  note c = fb.card_rem [OF inv rem i, folded free_set_def]
  have "wrapping_sub 32 (sp_central_free_count s) 1 = sp_central_free_count s - 1"
    if "i \<in> free_set s"
  proof (rule wrapping_sub_exact)
    show "1 \<le> sp_central_free_count s" using c(1) that assms unfolding span_wf_def by auto
    show "sp_central_free_count s < 2 ^ 32" by (rule span_wf_count(2) [OF assms])
  qed
  then have cnt: "i \<in> free_set s \<Longrightarrow> wrapping_sub 32 (sp_central_free_count s) 1 = card (fb_set fb)"
    using c(1) assms unfolding span_wf_def by simp
  let ?s = "s\<lparr>free_bitmap := fb, sp_central_free_count := card (fb_set fb)\<rparr>"
  have eq: "?s = s\<lparr>free_bitmap := fb\<rparr>" if "i \<notin> free_set s"
    using that c(1) assms by (intro count_unchanged) (simp add: span_wf_def)
  have "central_remove s i = Ret (i \<in> free_set s, ?s)"
  proof (cases "i \<in> free_set s")
    case mem: True
    with True rem have "central_remove s i = Ret (True, s\<lparr>free_bitmap := fb, sp_central_free_count :=
        wrapping_sub 32 (sp_central_free_count s) 1\<rparr>)" by (simp add: central_remove_def)
    then show ?thesis unfolding cnt [OF mem] using mem by simp
  next
    case nmem: False
    with True rem show ?thesis unfolding eq [OF nmem] by (simp add: central_remove_def)
  qed
  moreover have "span_wf ?s"
    using c(3-5) assms unfolding span_wf_def free_set_def by auto
  ultimately show ?thesis using c(4) by (simp add: free_set_def)
qed

lemma activate_wf:
  assumes "span_wf s"
  shows "\<exists>s'. activate s (sp_object_count s) = Ret s' \<and> span_wf s' \<and>
    free_set s' = {..<sp_object_count s} \<and> sp_live_count s' = 0 \<and> sp_object_count s' = sp_object_count s"
proof -
  obtain fb where "fill_below (sp_object_count s) (free_bitmap s) = Ret fb" "fb_inv fb"
    "fb_set fb = {..<sp_object_count s}" "capacity_bits fb = capacity_bits (free_bitmap s)"
    using fill_below_Ret [of "free_bitmap s" "sp_object_count s"] assms by (auto simp: span_wf_def)
  with assms show ?thesis by (auto simp: activate_def span_wf_def free_set_def)
qed

lemma deactivate_wf:
  assumes "span_wf s"
  shows "\<exists>s'. deactivate s = Ret s' \<and> span_wf s' \<and> free_set s' = {} \<and> sp_live_count s' = 0 \<and>
    sp_object_count s' = sp_object_count s"
proof -
  obtain fb where "FreeBitmap_clear (free_bitmap s) = Ret fb" "fb_inv fb" "fb_set fb = {}"
    "capacity_bits fb = capacity_bits (free_bitmap s)"
    using FreeBitmap_clear_Ret [of "free_bitmap s"] assms by (auto simp: span_wf_def)
  with assms show ?thesis by (auto simp: deactivate_def span_wf_def free_set_def)
qed

section \<open>Batch removal\<close>

lemma take_word_spec:
  assumes "\<forall>p. bit bits p \<longrightarrow> w * 64 + p < obj_count" and "obj_count \<le> 2 ^ 16"
  shows "\<exists>msk. take_word w obj_count mx bits clear_mask acc =
      (msk, acc @ map ((+) (64 * w)) (take (mx - length acc) (set_bits_list bits))) \<and>
    (\<forall>n. bit msk n \<longleftrightarrow> bit clear_mask n \<or> n \<in> set (take (mx - length acc) (set_bits_list bits)))"
  using assms
proof (induction w obj_count mx bits clear_mask acc rule: take_word.induct)
  case (1 w oc mx bits cm acc)
  show ?case
  proof (cases "bits \<noteq> 0 \<and> length acc < mx")
    case False
    then have nil: "take (mx - length acc) (set_bits_list bits) = []" by auto
    have "take_word w oc mx bits cm acc = (cm, acc)"
      using False by (subst take_word.simps) auto
    then show ?thesis unfolding nil by simp
  next
    case True
    let ?p = "trailing_zeros bits"
    let ?b = "bits AND NOT (word_bit ?p)"
    have tz: "set_bits_list bits = ?p # set_bits_list ?b" "?p < 64"
      using set_bits_list_Cons True by blast+
    have "?p \<in> set (set_bits_list bits)" by (simp add: tz(1))
    then have "bit bits ?p" by (simp add: set_bits_list_def)
    with "1.prems" have idx: "w * 64 + ?p < oc" by blast
    then have u16: "(w * 64 + ?p) mod 2 ^ 16 = w * 64 + ?p" using "1.prems"(2) by simp
    have sub: "\<forall>q. bit ?b q \<longrightarrow> w * 64 + q < oc" using "1.prems"(1) by (simp add: bit_and_iff)
    have rec: "take_word w oc mx bits cm acc =
        take_word w oc mx ?b (cm OR word_bit ?p) (acc @ [w * 64 + ?p])"
      using True tz(2) idx u16 by (subst take_word.simps) (simp add: Let_def not_le)
    have tk: "take (mx - length acc) (set_bits_list bits) =
        ?p # take (mx - length (acc @ [w * 64 + ?p])) (set_bits_list ?b)"
    proof -
      have "mx - length acc = Suc (mx - length (acc @ [w * 64 + ?p]))"
        using True by (simp add: Suc_diff_Suc)
      then show ?thesis by (subst tz(1)) (simp only: take_Suc_Cons)
    qed
    obtain msk where "take_word w oc mx ?b (cm OR word_bit ?p) (acc @ [w * 64 + ?p]) =
        (msk, (acc @ [w * 64 + ?p]) @
           map ((+) (64 * w)) (take (mx - length (acc @ [w * 64 + ?p])) (set_bits_list ?b)))"
      and "\<forall>n. bit msk n \<longleftrightarrow> bit (cm OR word_bit ?p) n \<or>
             n \<in> set (take (mx - length (acc @ [w * 64 + ?p])) (set_bits_list ?b))"
      using "1.IH" [OF True refl _ refl] tz(2) idx sub "1.prems"(2) u16 by (auto simp: not_le)
    then show ?thesis
      unfolding rec tk using tz(2) by (auto simp: bit_or_iff ac_simps)
  qed
qed

lemma index_set_clear:
  assumes "k < length ws" and "\<forall>n. bit msk n \<longleftrightarrow> n \<in> set ps"
  shows "index_set n (ws[k := ws ! k AND NOT msk]) = index_set n ws - ((+) (64 * k)) ` set ps"
proof -
  have "bit (ws[k := ws ! k AND NOT msk] ! (j div 64)) (j mod 64) \<longleftrightarrow>
      bit (ws ! (j div 64)) (j mod 64) \<and> j \<notin> ((+) (64 * k)) ` set ps" for j
  proof (cases "j div 64 = k")
    case True
    have "j \<in> ((+) (64 * k)) ` set ps \<longleftrightarrow> j mod 64 \<in> set ps"
    proof
      assume "j \<in> ((+) (64 * k)) ` set ps"
      then obtain p where p: "p \<in> set ps" "j = 64 * k + p" by auto
      then have "p < 64" using assms(2) bit_u64_less by blast
      with p show "j mod 64 \<in> set ps" by simp
    next
      assume "j mod 64 \<in> set ps"
      moreover have "j = 64 * k + j mod 64" using True by (metis mult.commute div_mult_mod_eq)
      ultimately show "j \<in> ((+) (64 * k)) ` set ps" by blast
    qed
    with True assms show ?thesis by (simp add: bit_and_iff bit_not_iff_eq not_le)
  next
    case False
    have "j \<notin> ((+) (64 * k)) ` set ps"
    proof
      assume "j \<in> ((+) (64 * k)) ` set ps"
      then obtain p where p: "p \<in> set ps" "j = 64 * k + p" by auto
      then have "p < 64" using assms(2) bit_u64_less by blast
      with p False show False by simp
    qed
    with False show ?thesis by simp
  qed
  then show ?thesis unfolding index_set_def by auto
qed

text \<open>The loop over the words, after \<open>k\<close> of them.\<close>

lemma batch_words_spec:
  assumes "fb_inv fb" and "fb_set fb \<subseteq> {..<obj_count}" and "obj_count \<le> 2 ^ 16" and "k \<le> fb_words fb"
  shows "\<exists>fb'. fold_outcome (batch_word obj_count mx) [0..<k] (fb, []) =
      Ret (fb', take mx (index_list k (fb_storage fb))) \<and> fb_inv fb' \<and>
    fb_words fb' = fb_words fb \<and>
    fb_set fb' = fb_set fb - set (take mx (index_list k (fb_storage fb))) \<and>
    (\<forall>j. k \<le> j \<longrightarrow> fb_storage fb' ! j = fb_storage fb ! j)"
  using assms(4)
proof (induction k)
  case 0
  then show ?case using assms(1) by (simp add: index_list_def)
next
  case (Suc k)
  let ?ws = "fb_storage fb" and ?l = "index_list k (fb_storage fb)"
  from Suc obtain b where b: "fold_outcome (batch_word obj_count mx) [0..<k] (fb, []) = Ret (b, take mx ?l)"
    "fb_inv b" "fb_words b = fb_words fb" "fb_set b = fb_set fb - set (take mx ?l)"
    "\<forall>j. k \<le> j \<longrightarrow> fb_storage b ! j = ?ws ! j"
    by auto
  have k: "k < length (fb_storage b)" using b(2,3) Suc.prems by (simp add: fb_inv_def)
  have fold: "fold_outcome (batch_word obj_count mx) [0..<Suc k] (fb, []) =
      batch_word obj_count mx k (b, take mx ?l)"
    using b(1) by (cases "batch_word obj_count mx k (b, take mx ?l)") (simp_all add: fold_outcome_append)
  let ?ps = "take (mx - length ?l) (set_bits_list (?ws ! k))"
  have tk: "take mx (index_list (Suc k) ?ws) = take mx ?l @ map ((+) (64 * k)) ?ps"
    by (simp add: index_list_Suc take_map)
  show ?case
  proof (cases "mx \<le> length (take mx ?l)")
    case True
    then have nil: "?ps = []" by simp
    show ?thesis unfolding fold tk nil using True b by (simp add: batch_word_def)
  next
    case False
    then have len: "take mx ?l = ?l" "length ?l < mx" by auto
    have low: "\<forall>p. bit (?ws ! k) p \<longrightarrow> k * 64 + p < obj_count"
    proof (intro allI impI)
      fix p assume p: "bit (?ws ! k) p"
      then have "p < 64" by (rule bit_u64_less)
      with p Suc.prems have "k * 64 + p \<in> fb_set fb" by (simp add: fb_set_def index_set_def)
      with assms(2) show "k * 64 + p < obj_count" by auto
    qed
    obtain msk where tw: "take_word k obj_count mx (?ws ! k) 0 ?l = (msk, ?l @ map ((+) (64 * k)) ?ps)"
      and msk: "\<forall>n. bit msk n \<longleftrightarrow> n \<in> set ?ps"
      using take_word_spec [OF low assms(3), of mx 0 ?l] by auto
    have word: "fb_word b k = Ret (?ws ! k)" using k b(5) by (simp add: fb_word_eq)
    show ?thesis
    proof (cases "msk = 0")
      case True
      then have "set ?ps = {}" using msk by auto
      then have nil: "?ps = []" by (simp only: set_empty)
      have run: "batch_word obj_count mx k (b, take mx ?l) = Ret (b, ?l)"
        using len word tw True unfolding nil by (simp add: batch_word_def)
      show ?thesis unfolding fold tk nil using run b len(1) by simp
    next
      case False
      obtain b' where b': "fb_store k (?ws ! k AND NOT msk) b = Ret b'"
        "fb_storage b' = (fb_storage b)[k := ?ws ! k AND NOT msk]"
        "fb_words b' = fb_words b" "fb_cap_words b' = fb_cap_words b"
        using fb_store_Ret [OF k] .
      have run: "batch_word obj_count mx k (b, take mx ?l) = Ret (b', ?l @ map ((+) (64 * k)) ?ps)"
        using len word tw False b'(1) by (simp add: batch_word_def)
      have "fb_set b' = fb_set b - ((+) (64 * k)) ` set ?ps"
        unfolding fb_set_def b'(2,3) using index_set_clear [OF k msk] b(5) by simp
      then have "fb_set b' = fb_set fb - set (take mx ?l @ map ((+) (64 * k)) ?ps)"
        using b(4) by auto
      moreover have "fb_inv b'" using b(2) b' by (simp add: fb_inv_def)
      ultimately show ?thesis unfolding fold tk len(1) using run b b' len(1) by auto
    qed
  qed
qed

lemma index_list_filter:
  assumes "index_set n ws \<subseteq> {..<m}" and "m \<le> 64 * n"
  shows "index_list n ws = filter (\<lambda>i. i \<in> index_set n ws) [0..<m]"
proof -
  have split: "[0..<64 * n] = [0..<m] @ [m..<64 * n]"
    using upt_add_eq_append [of 0 m "64 * n - m"] assms(2) by simp
  have "index_list n ws = filter (\<lambda>i. i \<in> index_set n ws) [0..<64 * n]"
    unfolding index_list_def index_set_def by (rule filter_cong) auto
  also have "\<dots> = filter (\<lambda>i. i \<in> index_set n ws) ([0..<m] @ [m..<64 * n])"
    by (simp only: split)
  also have "\<dots> = filter (\<lambda>i. i \<in> index_set n ws) [0..<m]"
    using assms(1) by (auto simp: filter_empty_conv)
  finally show ?thesis .
qed

lemma central_remove_batch_spec:
  fixes out_len max_count :: nat
  assumes "span_wf s"
  defines "xs \<equiv> take (min max_count out_len) (filter (\<lambda>i. i \<in> free_set s) [0..<sp_object_count s])"
  shows "\<exists>s'. central_remove_batch s out_len max_count = Ret (xs, s') \<and> span_wf s' \<and>
    free_set s' = free_set s - set xs \<and> sp_object_count s' = sp_object_count s \<and>
    sp_live_count s' = sp_live_count s"
proof (cases "min max_count out_len = 0")
  case True
  then have "xs = []" by (simp add: xs_def)
  with True assms(1) show ?thesis by (simp add: central_remove_batch_def)
next
  case False
  let ?fb = "free_bitmap s" and ?mx = "min max_count out_len"
  have wf: "fb_inv ?fb" "fb_set ?fb \<subseteq> {..<sp_object_count s}" "sp_object_count s \<le> 2 ^ 16"
    "sp_object_count s \<le> 64 * fb_words ?fb"
    using assms(1) by (auto simp: span_wf_def free_set_def capacity_bits_def)
  have xs: "xs = take ?mx (index_list (fb_words ?fb) (fb_storage ?fb))"
    unfolding xs_def free_set_def fb_set_def
    by (subst index_list_filter) (use wf in \<open>auto simp: fb_set_def\<close>)
  obtain fb' where fb': "fold_outcome (batch_word (sp_object_count s) ?mx) [0..<fb_words ?fb] (?fb, []) = Ret (fb', xs)"
    "fb_inv fb'" "fb_words fb' = fb_words ?fb" "fb_set fb' = free_set s - set xs"
    using batch_words_spec [OF wf(1-3) le_refl, of ?mx] unfolding xs free_set_def by auto
  have sub: "set xs \<subseteq> free_set s" using set_take_subset unfolding xs_def by fastforce
  have dist: "distinct xs" by (simp add: xs_def distinct_take)
  have fin: "finite (free_set s)" using wf(2) finite_subset unfolding free_set_def by blast
  have card: "card (fb_set fb') = card (free_set s) - length xs"
    unfolding fb'(4) using card_Diff_subset [OF _ sub] distinct_card [OF dist] by simp
  have le: "length xs \<le> card (free_set s)"
    using card_mono [OF fin sub] distinct_card [OF dist] by simp
  have "wrapping_sub 32 (sp_central_free_count s) (length xs) = card (free_set s) - length xs"
    using le assms(1) span_wf_count(2) [OF assms(1)] by (subst wrapping_sub_exact) (auto simp: span_wf_def)
  moreover have "length xs = 0 \<Longrightarrow> sp_central_free_count s = card (fb_set fb')"
    using card assms(1) by (simp add: span_wf_def)
  ultimately have cnt: "(if 0 < length xs then wrapping_sub 32 (sp_central_free_count s) (length xs)
      else sp_central_free_count s) = card (fb_set fb')"
    using card by simp
  let ?s = "s\<lparr>free_bitmap := fb', sp_central_free_count := card (fb_set fb')\<rparr>"
  have "central_remove_batch s out_len max_count = Ret (xs, ?s)"
  proof (cases "0 < length xs")
    case True
    with fb'(1) cnt show ?thesis unfolding central_remove_batch_def Let_def if_not_P [OF False] by simp
  next
    case nil: False
    with cnt have "?s = s\<lparr>free_bitmap := fb'\<rparr>" by (intro count_unchanged) simp
    with nil fb'(1) show ?thesis unfolding central_remove_batch_def Let_def if_not_P [OF False] by simp
  qed
  moreover have "span_wf ?s"
    using assms(1) fb' by (auto simp: span_wf_def free_set_def capacity_bits_def)
  ultimately show ?thesis using fb'(4) by (simp add: free_set_def)
qed

section \<open>Recycling\<close>

lemma validate_refresh [simp]: "validate_integrity (refresh_integrity s)"
  by (simp add: validate_integrity_def refresh_integrity_def compute_integrity_def)

lemma even_wrapping_add_2: "is_u32 n \<Longrightarrow> even n \<Longrightarrow> even (wrapping_add 32 (wrapping_add 32 n 1) 1)"
  by (simp add: wrapping_add_def dvd_mod_iff)

text \<open>What a failed recycle may have touched: the bitmaps, grown and cleared, and nothing else.\<close>

definition same_geometry :: "SpanDescriptor \<Rightarrow> SpanDescriptor \<Rightarrow> bool" where
  "same_geometry s s' \<longleftrightarrow>
     (\<exists>fb qb cb. s' = s\<lparr>free_bitmap := fb, quarantined_bitmap := qb, cached_bitmap := cb\<rparr>)"

definition span_bitmaps_ok :: "SpanDescriptor \<Rightarrow> nat \<Rightarrow> bool" where
  "span_bitmaps_ok s n \<longleftrightarrow>
     fb_inv (free_bitmap s) \<and> n \<le> capacity_bits (free_bitmap s) \<and>
     cb_inv (cached_bitmap s) \<and> n \<le> cb_cap (cached_bitmap s) \<and>
     (\<forall>qb. quarantined_bitmap s = Some qb \<longrightarrow> fb_inv qb \<and> n \<le> capacity_bits qb)"

lemma span_wf_bitmaps:
  "span_wf s \<longleftrightarrow> span_bitmaps_ok s (sp_object_count s) \<and> free_set s \<subseteq> {..<sp_object_count s} \<and>
     sp_central_free_count s = card (free_set s) \<and> sp_object_count s \<le> 2 ^ 16"
  by (auto simp: span_wf_def span_bitmaps_ok_def)

definition recycled ::
  "SpanDescriptor \<Rightarrow> FreeBitmap \<Rightarrow> FreeBitmap option \<Rightarrow> CachedBits \<Rightarrow> ArenaId \<Rightarrow> SizeClassId \<Rightarrow>
   addr \<Rightarrow> nat \<Rightarrow> nat \<Rightarrow> nat \<Rightarrow> SpanDescriptor" where
  "recycled s fb qb cb arena c base page_count n slab_header =
     (let s4 = s\<lparr>free_bitmap := fb, quarantined_bitmap := qb, cached_bitmap := cb, sp_live_count := 0,
               sp_central_free_count := 0, sp_seq := wrapping_add 32 (sp_seq s) 1\<rparr>;
          s5 = recycle_fields s4 arena c base page_count n slab_header
      in s5\<lparr>sp_seq := wrapping_add 32 (sp_seq s5) 1\<rparr>)"

lemma bitmaps_unchanged:
  "s\<lparr>free_bitmap := fb, quarantined_bitmap := quarantined_bitmap s, cached_bitmap := cached_bitmap s\<rparr>
     = s\<lparr>free_bitmap := fb\<rparr>"
  "s\<lparr>free_bitmap := fb, quarantined_bitmap := qb, cached_bitmap := cached_bitmap s\<rparr>
     = s\<lparr>free_bitmap := fb, quarantined_bitmap := qb\<rparr>"
  "s\<lparr>free_bitmap := fb, quarantined_bitmap := quarantined_bitmap s\<rparr> = s\<lparr>free_bitmap := fb\<rparr>"
  by (cases s; simp)+

lemma capacity_mono: "fb_inv b \<Longrightarrow> k \<le> capacity_bits b \<Longrightarrow> fb_cap_words b < w \<Longrightarrow> k \<le> w * 64"
  unfolding fb_inv_def capacity_bits_def by linarith

lemma recycle_cases:
  assumes "span_bitmaps_ok s k"
  shows "\<exists>m' fb qb cb. fb_inv fb \<and> cb_inv cb \<and> (\<forall>b. qb = Some b \<longrightarrow> fb_inv b) \<and>
    (recycle alloc s arena c base page_count n slab_header m =
       Ret (True, recycled s fb qb cb arena c base page_count n slab_header, m') \<and>
     fb_set fb = {} \<and> n \<le> capacity_bits fb \<and> (\<forall>b. qb = Some b \<longrightarrow> fb_set b = {} \<and> n \<le> capacity_bits b) \<and>
     n \<le> cb_cap cb \<and> cb_set cb \<inter> {..<n} = {}
   \<or> recycle alloc s arena c base page_count n slab_header m =
       Ret (False, s\<lparr>free_bitmap := fb, quarantined_bitmap := qb, cached_bitmap := cb\<rparr>, m') \<and>
     k \<le> capacity_bits fb \<and> (\<forall>b. qb = Some b \<longrightarrow> k \<le> capacity_bits b) \<and> k \<le> cb_cap cb \<and>
     fb_set fb \<subseteq> free_set s)"
proof -
  let ?n = "words_for n"
  have ok: "fb_inv (free_bitmap s)" "k \<le> capacity_bits (free_bitmap s)" "cb_inv (cached_bitmap s)"
    "k \<le> cb_cap (cached_bitmap s)"
    and okq: "\<And>qb. quarantined_bitmap s = Some qb \<Longrightarrow> fb_inv qb \<and> k \<le> capacity_bits qb"
    using assms by (auto simp: span_bitmaps_ok_def)
  have n: "n \<le> ?n * 64" by (rule words_for_covers)
  obtain r1 fb m1 where f: "FreeBitmap_recycle_to alloc (free_bitmap s) n m = Ret (r1, fb, m1)" "fb_inv fb"
    "if r1 then fb_set fb = {} \<and> capacity_bits fb = ?n * 64 else fb = free_bitmap s \<and> fb_cap_words (free_bitmap s) < ?n"
    using FreeBitmap_recycle_to_Ret [OF ok(1)] by metis
  show ?thesis
  proof (cases r1)
    case False
    then have "recycle alloc s arena c base page_count n slab_header m =
        Ret (False, s\<lparr>free_bitmap := fb, quarantined_bitmap := quarantined_bitmap s,
          cached_bitmap := cached_bitmap s\<rparr>, m1)"
      unfolding bitmaps_unchanged using f(1) by (simp add: recycle_def)
    with False f ok okq show ?thesis
      by (intro exI [of _ m1] exI [of _ fb] exI [of _ "quarantined_bitmap s"]
          exI [of _ "cached_bitmap s"]) (simp add: free_set_def)
  next
    case r1: True
    define q where "q = (case quarantined_bitmap s of
        None \<Rightarrow> Ret (True, s\<lparr>free_bitmap := fb\<rparr>, m1)
      | Some qb \<Rightarrow> bind_outcome (FreeBitmap_recycle_to alloc qb n m1) (\<lambda>(ok2, qb', m2).
            Ret (ok2, s\<lparr>free_bitmap := fb, quarantined_bitmap := Some qb'\<rparr>, m2)))"
    have "\<exists>r2 qb m2. q = Ret (r2, s\<lparr>free_bitmap := fb, quarantined_bitmap := qb\<rparr>, m2) \<and>
        (\<forall>b. qb = Some b \<longrightarrow> fb_inv b \<and>
          (if r2 then fb_set b = {} \<and> capacity_bits b = ?n * 64 else k \<le> capacity_bits b \<and> k \<le> ?n * 64)) \<and>
        (\<not> r2 \<longrightarrow> k \<le> ?n * 64)"
    proof (cases "quarantined_bitmap s")
      case None
      then have "q = Ret (True, s\<lparr>free_bitmap := fb, quarantined_bitmap := None\<rparr>, m1)"
        using bitmaps_unchanged(3) [of s fb] by (simp add: q_def)
      then show ?thesis by blast
    next
      case (Some qb)
      obtain r2 b m2 where "FreeBitmap_recycle_to alloc qb n m1 = Ret (r2, b, m2)" "fb_inv b"
        "if r2 then fb_set b = {} \<and> capacity_bits b = ?n * 64 else b = qb \<and> fb_cap_words qb < ?n"
        using FreeBitmap_recycle_to_Ret [of qb] okq [OF Some] by metis
      moreover from this have "\<not> r2 \<Longrightarrow> k \<le> ?n * 64" using okq [OF Some] capacity_mono [of qb k ?n] by simp
      ultimately show ?thesis using Some okq [OF Some] by (auto simp: q_def)
    qed
    then obtain r2 qb m2 where q: "q = Ret (r2, s\<lparr>free_bitmap := fb, quarantined_bitmap := qb\<rparr>, m2)"
      "\<forall>b. qb = Some b \<longrightarrow> fb_inv b \<and>
          (if r2 then fb_set b = {} \<and> capacity_bits b = ?n * 64 else k \<le> capacity_bits b \<and> k \<le> ?n * 64)"
      "\<not> r2 \<longrightarrow> k \<le> ?n * 64" by blast
    have cap: "capacity_bits fb = ?n * 64" "fb_set fb = {}" using f(3) r1 by auto
    show ?thesis
    proof (cases r2)
      case False
      then have "recycle alloc s arena c base page_count n slab_header m =
          Ret (False, s\<lparr>free_bitmap := fb, quarantined_bitmap := qb, cached_bitmap := cached_bitmap s\<rparr>, m2)"
        unfolding bitmaps_unchanged using f(1) r1 q(1) by (simp add: recycle_def q_def)
      with False q(2,3) f(2) cap ok show ?thesis
        by (intro exI [of _ m2] exI [of _ fb] exI [of _ qb] exI [of _ "cached_bitmap s"]) simp
    next
      case r2: True
      obtain r3 cb m3 where cb: "CachedBits_recycle_to alloc (cached_bitmap s) n m2 = (r3, cb, m3)"
        by (metis prod_cases3)
      note cbl = CachedBits_recycle_to_Ret [OF ok(3) cb]
      show ?thesis
      proof (cases r3)
        case True
        then have run: "recycle alloc s arena c base page_count n slab_header m =
            Ret (True, recycled s fb qb cb arena c base page_count n slab_header, m3)"
          using f(1) r1 q(1) r2 cb by (simp add: recycle_def q_def recycled_def Let_def)
        have "cb_set cb \<inter> {..<n} = {}" "n \<le> cb_cap cb" using cbl(2) True n by auto
        with run f(2) q(2) r2 cap cbl(1) n show ?thesis
          by (intro exI [of _ m3] exI [of _ fb] exI [of _ qb] exI [of _ cb]) simp
      next
        case False
        then have run: "recycle alloc s arena c base page_count n slab_header m =
            Ret (False, s\<lparr>free_bitmap := fb, quarantined_bitmap := qb, cached_bitmap := cb\<rparr>, m3)"
          using f(1) r1 q(1) r2 cb by (simp add: recycle_def q_def Let_def)
        have "k \<le> ?n * 64" "cb = cached_bitmap s" using cbl(3) False ok(4) by auto
        with run f(2) q(2) r2 cap cbl(1) ok show ?thesis
          by (intro exI [of _ m3] exI [of _ fb] exI [of _ qb] exI [of _ cb]) simp
      qed
    qed
  qed
qed

lemma recycled_simps:
  fixes s fb qb cb arena c base page_count n slab_header
  defines "s' \<equiv> recycled s fb qb cb arena c base page_count n slab_header"
  shows "free_bitmap s' = fb" "quarantined_bitmap s' = qb" "cached_bitmap s' = cb" "sp_live_count s' = 0"
    "sp_central_free_count s' = 0" "sp_object_count s' = n" "sp_id s' = sp_id s" "sp_base s' = base"
    "sp_arena s' = arena" "sp_sc s' = c" "sp_page_count s' = page_count" "sp_slab_header s' = slab_header"
    "sp_generation s' = Generation_next (sp_generation s)" "sp_state s' = SpanActive" "sp_flags s' = 0"
    "sp_seq s' = wrapping_add 32 (wrapping_add 32 (sp_seq s) 1) 1" "central_next s' = None"
    "validate_integrity s'"
  by (simp_all add: s'_def recycled_def recycle_fields_def refresh_integrity_def Let_def
      validate_integrity_def compute_integrity_def)

section \<open>Accounting and checking\<close>

lemma saturating_sum_eq:
  assumes "n < 2 ^ w - 1"
  shows "saturating_add w (saturating_add w a b) c = n \<longleftrightarrow> a + b + c = n"
  using assms by (auto simp: saturating_add_def)

lemma central_count_matches_wf: "fb_inv (free_bitmap s) \<Longrightarrow>
    central_count_matches_bitmap s = Ret (sp_central_free_count s = card (free_set s))"
  by (simp add: central_count_matches_bitmap_def fb_count free_set_def)

lemma quarantine_scan:
  assumes "fb_inv b" and "fb_inv qb" and "n \<le> capacity_bits b" and "n \<le> capacity_bits qb"
  shows "fold_outcome (\<lambda>i ok. if \<not> ok then Ret False
      else bind_outcome (FreeBitmap_contains b i) (\<lambda>c.
        if c then bind_outcome (FreeBitmap_contains qb i) (\<lambda>q. Ret (\<not> q)) else Ret True)) [0..<n] True =
    Ret (fb_set b \<inter> fb_set qb \<inter> {..<n} = {})"
  using assms(3,4)
proof (induction n)
  case (Suc n)
  have "FreeBitmap_contains b n = Ret (n \<in> fb_set b)" "FreeBitmap_contains qb n = Ret (n \<in> fb_set qb)"
    using Suc.prems assms(1,2) by (auto intro: fb.mem_law)
  with Suc show ?case by (auto simp: fold_outcome_append lessThan_Suc)
qed simp

lemma SpanDescriptor_new_wf:
  assumes "SpanDescriptor_new q alloc m i arena c base page_count n slab_header = (Some s, m')" and "n \<le> 2 ^ 16"
  shows "span_wf s" and "free_set s = {}" and "sp_object_count s = n" and "sp_generation s = 0"
    and "sp_seq s = 0" and "validate_integrity s" and "sp_live_count s = 0"
    and "sp_base s = base" and "sp_sc s = c" and "sp_page_count s = page_count" and "sp_slab_header s = slab_header"
proof -
  let ?mk = "\<lambda>fb qb cb. refresh_integrity
       \<lparr>sp_base = base, sp_id = i, sp_arena = arena, sp_page_count = page_count,
        sp_object_count = n, sp_slab_header = slab_header, sp_generation = Generation_FIRST, sp_seq = 0,
        sp_flags = 0, sp_integrity = 0, sp_live_count = 0, sp_central_free_count = 0,
        sp_sc = c, sp_state = SpanActive, free_bitmap = fb, quarantined_bitmap = qb,
        cached_bitmap = cb, central_next = None\<rparr>"
  obtain fb m1 where f: "FreeBitmap_new_for alloc m n = (Some fb, m1)"
    using assms(1) by (auto simp: SpanDescriptor_new_def split: option.splits prod.splits)
  have "\<exists>qb m2 cb. (\<forall>b. qb = Some b \<longrightarrow> fb_inv b \<and> n \<le> capacity_bits b) \<and>
      CachedBits_new_for alloc m2 n = (Some cb, m') \<and> s = ?mk fb qb cb"
  proof (cases q)
    case False
    with f assms(1) have "\<exists>cb. CachedBits_new_for alloc m1 n = (Some cb, m') \<and> s = ?mk fb None cb"
      by (auto simp: SpanDescriptor_new_def split: option.splits prod.splits)
    then show ?thesis by auto
  next
    case True
    obtain x m2 where x: "FreeBitmap_new_for alloc m1 n = (x, m2)" by fastforce
    with True f assms(1) obtain qb where qb: "x = Some qb" by (cases x) (auto simp: SpanDescriptor_new_def)
    with True f x assms(1) have "\<exists>cb. CachedBits_new_for alloc m2 n = (Some cb, m') \<and> s = ?mk fb (Some qb) cb"
      by (auto simp: SpanDescriptor_new_def split: option.splits prod.splits)
    with FreeBitmap_new_for_Some [OF x [unfolded qb]] show ?thesis by auto
  qed
  then obtain qb m2 cb where q: "\<forall>b. qb = Some b \<longrightarrow> fb_inv b \<and> n \<le> capacity_bits b"
    and c: "CachedBits_new_for alloc m2 n = (Some cb, m')" and s: "s = ?mk fb qb cb" by blast
  note fb = FreeBitmap_new_for_Some [OF f] and cb = CachedBits_new_for_Some [OF c]
  from q fb cb assms(2) show "span_wf s" by (simp add: s refresh_integrity_def span_wf_def free_set_def)
  show "validate_integrity s" unfolding s by simp
  show "free_set s = {}" "sp_object_count s = n" "sp_generation s = 0" "sp_seq s = 0" "sp_live_count s = 0"
    "sp_base s = base" "sp_sc s = c" "sp_page_count s = page_count" "sp_slab_header s = slab_header"
    using fb by (simp_all add: s refresh_integrity_def free_set_def Generation_FIRST_def)
qed

text \<open>A span of four objects, newly created and then activated, for the examples below.\<close>

lemma demo_new:
  obtains s where
    "fst (SpanDescriptor_new False BumpArena_alloc (BumpArena_new 4096 4096) 0 0 0 16384 1 4 0) = Some s"
    "span_wf s" "free_set s = {}" "sp_object_count s = 4" "sp_generation s = 0" "sp_seq s = 0"
    "validate_integrity s" "sp_live_count s = 0" "sp_base s = 16384" "sp_sc s = 0" "sp_page_count s = 1"
    "sp_slab_header s = 0" "quarantined_bitmap s = None"
proof -
  have al: "is_power_of_two 8" "is_usize 8" by (simp_all add: is_power_of_two_def)
  obtain s m' where s: "SpanDescriptor_new False BumpArena_alloc (BumpArena_new 4096 4096) 0 0 0 16384 1 4 0
      = (Some s, m')" "quarantined_bitmap s = None"
    by (simp add: SpanDescriptor_new_def FreeBitmap_new_for_def CachedBits_new_for_def words_for_def
        INLINE_WORDS_def alloc_bitmap_words_def checked_mul_def USIZE_MAX_def BumpArena_alloc_def
        BumpArena_new_def bump_round_def checked_add_def align_up_eq al Let_def refresh_integrity_def)
  show thesis using that s SpanDescriptor_new_wf [OF s(1)] by simp
qed

lemma demo_active:
  obtains s where "span_wf s" "free_set s = {..<4}" "sp_object_count s = 4"
proof -
  obtain s where "span_wf s" "sp_object_count s = 4" using demo_new by metis
  with activate_wf [of s] that show thesis by auto
qed

text \<open>
  C21. A batch removal under the span lock takes exactly the lowest free objects, as many as the
  buffer and the request allow, writes each index once and in ascending order, and leaves the
  bitmap and the central free count describing the rest.
\<close>

theorem central_remove_batch_takes_lowest:
  assumes "span_wf s"
  shows "\<exists>s'. central_remove_batch s out_len max_count =
      Ret (take (min max_count out_len) (filter (\<lambda>i. i \<in> free_set s) [0..<sp_object_count s]), s') \<and>
    free_set s' = free_set s -
      set (take (min max_count out_len) (filter (\<lambda>i. i \<in> free_set s) [0..<sp_object_count s])) \<and>
    sp_central_free_count s' = card (free_set s') \<and> span_wf s' \<and> sp_live_count s' = sp_live_count s"
proof -
  obtain s' where "central_remove_batch s out_len max_count =
      Ret (take (min max_count out_len) (filter (\<lambda>i. i \<in> free_set s) [0..<sp_object_count s]), s')"
    "span_wf s'" "free_set s' = free_set s -
      set (take (min max_count out_len) (filter (\<lambda>i. i \<in> free_set s) [0..<sp_object_count s]))"
    "sp_live_count s' = sp_live_count s"
    using central_remove_batch_spec [OF assms] by blast
  moreover have "sp_central_free_count s' = card (free_set s')"
    using calculation(2) by (simp add: span_wf_def)
  ultimately show ?thesis by blast
qed

lemma central_remove_batch_takes_lowest_witness:
  "\<exists>s s'. span_wf s \<and> central_remove_batch s 8 3 = Ret ([0, 1, 2], s') \<and> free_set s' = {3}"
proof -
  obtain s where s: "span_wf s" "free_set s = {..<4}" "sp_object_count s = 4" by (rule demo_active)
  have l: "take (min 3 8) (filter (\<lambda>i. i \<in> {..<4}) [0..<4]) = [0, 1, 2 :: nat]" by (simp add: upt_rec)
  have d: "{..<4} - set [0, 1, 2] = {3 :: nat}" by auto
  from central_remove_batch_takes_lowest [OF s(1), of 8 3] show ?thesis
    unfolding s(2,3) l d using s(1) by blast
qed

text \<open>
  Inserting and removing one object keep the descriptor's invariant: the free count is the
  number of set bits, no bit lies beyond the object count, the answer says whether the object
  changed sides, and an index out of range changes nothing.
\<close>

theorem central_ops_keep_invariant:
  assumes "span_wf s"
  shows "(\<exists>s'. central_insert s i = Ret (i < sp_object_count s \<and> i \<notin> free_set s, s') \<and> span_wf s' \<and>
      free_set s' = (if i < sp_object_count s then insert i (free_set s) else free_set s)) \<and>
    (\<exists>s'. central_remove s i = Ret (i \<in> free_set s, s') \<and> span_wf s' \<and> free_set s' = free_set s - {i})"
  using central_insert_wf [OF assms, of i] central_remove_wf [OF assms, of i] by blast

lemma central_ops_keep_invariant_witness:
  "\<exists>s s'. span_wf s \<and> central_remove s 2 = Ret (True, s') \<and> free_set s' = {0, 1, 3}"
proof -
  obtain s where s: "span_wf s" "free_set s = {..<4}" "sp_object_count s = 4" by (rule demo_active)
  have "{..<4} - {2} = {0, 1, 3 :: nat}" by auto
  with central_ops_keep_invariant [OF s(1), of 2] s show ?thesis by auto
qed

text \<open>
  C22. Recycling a descriptor either succeeds or fails, and never panics. On success the new
  incarnation is empty and consistent, its checksum valid, its sequence number even again, and no
  guard taken on the old incarnation matches it. On failure only the bitmaps were touched: the
  geometry, generation and sequence are the old ones, and an empty descriptor is still consistent.
\<close>

theorem recycle_safe:
  assumes "span_wf s" and "is_u32 (sp_generation s)" and "is_u32 (sp_seq s)" and "even (sp_seq s)"
    and "n \<le> 2 ^ 16"
  shows "\<exists>r s' m'. recycle alloc s arena c base page_count n slab_header m = Ret (r, s', m') \<and>
    (if r then span_wf s' \<and> free_set s' = {} \<and> sp_live_count s' = 0 \<and> sp_object_count s' = n \<and>
        (\<forall>i. \<not> is_cached s' i) \<and> validate_integrity s' \<and> even (sp_seq s') \<and>
        \<not> GenGuard_matches (gen_guard s) s'
     else same_geometry s s' \<and> (free_set s = {} \<longrightarrow> span_wf s'))"
proof -
  have ok: "span_bitmaps_ok s (sp_object_count s)" using assms(1) span_wf_bitmaps by blast
  from recycle_cases [OF ok, of alloc arena c base page_count n slab_header m] show ?thesis
  proof (elim exE conjE disjE, goal_cases)
    case (1 m' fb qb cb)
    note inv = 1(1-3) and new = 1(4-9)
    let ?s = "recycled s fb qb cb arena c base page_count n slab_header"
    have "span_wf ?s" using new inv assms(5) by (auto simp: span_wf_def free_set_def recycled_simps)
    moreover have "\<not> is_cached ?s i" for i
      using new cb.mem_law [OF inv(2), of i] by (auto simp: is_cached_def recycled_simps)
    moreover have "\<not> GenGuard_matches (gen_guard s) ?s"
      using Generation_next_fresh(1) [OF assms(2)]
      by (simp add: GenGuard_matches_def gen_guard_def recycled_simps)
    moreover have "even (sp_seq ?s)"
      using even_wrapping_add_2 [OF assms(3,4)] by (simp add: recycled_simps)
    ultimately show ?thesis
      using new by (intro exI [of _ True] exI [of _ ?s] exI [of _ m'])
        (simp add: free_set_def recycled_simps)
  next
    case (2 m' fb qb cb)
    note inv = 2(1-3) and old = 2(4-8)
    let ?s = "s\<lparr>free_bitmap := fb, quarantined_bitmap := qb, cached_bitmap := cb\<rparr>"
    have "span_wf ?s" if "free_set s = {}"
      using that old inv assms(1) by (auto simp: span_wf_def free_set_def)
    moreover have "same_geometry s ?s" unfolding same_geometry_def by blast
    ultimately show ?thesis
      using old by (intro exI [of _ False] exI [of _ ?s] exI [of _ m']) simp
  qed
qed

lemma recycle_safe_witness:
  "\<exists>s r s' m'. span_wf s \<and> recycle BumpArena_alloc s 1 5 32768 1 100 0 (BumpArena_new 8192 4096) = Ret (r, s', m')
    \<and> (r \<longrightarrow> free_set s' = {} \<and> sp_object_count s' = 100)"
proof -
  obtain s where s: "span_wf s" "sp_generation s = 0" "sp_seq s = 0" using demo_new by metis
  from recycle_safe [OF s(1), of 100 BumpArena_alloc 1 5 32768 1 0 "BumpArena_new 8192 4096"] s
  obtain r s' m' where "recycle BumpArena_alloc s 1 5 32768 1 100 0 (BumpArena_new 8192 4096) = Ret (r, s', m')"
    "r \<longrightarrow> free_set s' = {} \<and> sp_object_count s' = 100" by (auto split: if_splits)
  with s show ?thesis by blast
qed

lemma check_invariants_locked_iff:
  assumes "span_wf s"
  shows "check_invariants_locked dbg s = Ret (
    (\<exists>l. compute (sp_sc s) (sp_base s) (sp_slab_header s) = Some l \<and> sp_object_count s \<le> object_count l \<and>
       is_usize (sp_base s + sp_page_count s * PAGE_SIZE) \<and>
       object0 l + sp_object_count s * object_size l \<le> sp_base s + sp_page_count s * PAGE_SIZE) \<and>
    sp_live_count s + card (free_set s) \<le> sp_object_count s \<and>
    (\<forall>qb. quarantined_bitmap s = Some qb \<longrightarrow> card (fb_set qb) \<le> sp_live_count s \<and>
       free_set s \<inter> fb_set qb = {}) \<and>
    (dbg \<longrightarrow> validate_integrity s))"
proof (cases "compute (sp_sc s) (sp_base s) (sp_slab_header s)")
  case None
  then show ?thesis by (simp add: check_invariants_locked_def)
next
  case (Some l)
  have row: "checked_row (sp_sc s) \<noteq> None"
    using compute_row(1) [OF Some] by (simp add: checked_row_def class_count_def)
  have wf: "fb_inv (free_bitmap s)" "sp_central_free_count s = card (free_set s)"
    "free_set s \<subseteq> {..<sp_object_count s}" "sp_object_count s \<le> capacity_bits (free_bitmap s)"
    using assms by (auto simp: span_wf_def)
  have q: "(case quarantined_bitmap s of None \<Rightarrow> Ret True | Some qb \<Rightarrow> quarantine_consistent s qb) =
      Ret (\<forall>qb. quarantined_bitmap s = Some qb \<longrightarrow> card (fb_set qb) \<le> sp_live_count s \<and>
        free_set s \<inter> fb_set qb = {})"
  proof (cases "quarantined_bitmap s")
    case (Some qb)
    then have qb: "fb_inv qb" "sp_object_count s \<le> capacity_bits qb" using assms by (auto simp: span_wf_def)
    have "free_set s \<inter> fb_set qb \<inter> {..<sp_object_count s} = free_set s \<inter> fb_set qb" using wf(3) by blast
    with quarantine_scan [OF wf(1) qb(1) wf(4) qb(2)] Some qb show ?thesis
      by (simp add: quarantine_consistent_def fb_count free_set_def not_less)
  qed simp
  have sp: "Option.bind (checked_mul (sp_page_count s) PAGE_SIZE) (checked_add (sp_base s)) =
      (if is_usize (sp_base s + sp_page_count s * PAGE_SIZE)
       then Some (sp_base s + sp_page_count s * PAGE_SIZE) else None)"
    by (auto simp: checked_mul_def checked_add_def USIZE_MAX_def)
  have lo: "Option.bind (checked_mul (sp_object_count s) (object_size l)) (checked_add (object0 l)) =
      (if is_usize (object0 l + sp_object_count s * object_size l)
       then Some (object0 l + sp_object_count s * object_size l) else None)"
    by (auto simp: checked_mul_def checked_add_def USIZE_MAX_def)
  show ?thesis
    unfolding check_invariants_locked_def Some option.case sp
    using row wf(2) lo by (auto simp: not_le not_less central_count_matches_wf [OF wf(1)] q)
qed



end
