(* ===== verification/Pagemap.thy ===== *)
theory Pagemap
  imports Span
begin

text \<open>
  \<open>crates/topo-core/src/pagemap.rs\<close>: the radix tree from page numbers to descriptors. A node is
  an array of 1024 machine words, of child addresses (\<open>Interior\<close>) or of tagged entries
  (\<open>Leaf\<close>); the store \<open>pm_mem\<close> holds the words of every node by address, and address 0 is
  null. A compare-exchange from null is the store it performs when the slot still is null, and
  the value found otherwise.

  Shown: the tree is a finite map from pages to entries (\<open>page_word\<close>); publishing a range is
  all or nothing, touches no other page and never panics; an installed descriptor is found at
  every address of its range; and the self-check accepts exactly the maps whose entries agree
  with their descriptors.
\<close>

section \<open>Geometry\<close>

definition PAGE_SHIFT :: nat where "PAGE_SHIFT = 14"
definition PAGENO_BITS :: nat where "PAGENO_BITS = 64 - PAGE_SHIFT"
definition RADIX_BITS :: nat where "RADIX_BITS = 10"
definition LEVELS :: nat where "LEVELS = (PAGENO_BITS + RADIX_BITS - 1) div RADIX_BITS"
definition SLOTS :: nat where "SLOTS = push_bit RADIX_BITS 1"
definition SLOT_MASK :: nat where "SLOT_MASK = SLOTS - 1"
definition INTERIOR_SIZE :: usize where "INTERIOR_SIZE = SLOTS * 8"
definition INTERIOR_ALIGN :: usize where "INTERIOR_ALIGN = 8"
definition LEAF_SIZE :: usize where "LEAF_SIZE = SLOTS * 8"
definition LEAF_ALIGN :: usize where "LEAF_ALIGN = 8"

definition TAG_MASK :: usize where "TAG_MASK = 0b111"
definition TAG_EMPTY :: usize where "TAG_EMPTY = 0"
definition TAG_SMALL :: usize where "TAG_SMALL = 1"
definition TAG_LARGE :: usize where "TAG_LARGE = 2"
definition TAG_RELEASED :: usize where "TAG_RELEASED = 3"

definition page_of :: "addr \<Rightarrow> nat" where
  "page_of a = drop_bit PAGE_SHIFT a"

definition leaf_index :: "addr \<Rightarrow> nat" where
  "leaf_index a = page_of a AND SLOT_MASK"

definition page_range :: "addr \<Rightarrow> addr \<Rightarrow> nat list" where
  "page_range base stop = (if stop \<le> base then [] else [page_of base..<Suc (page_of (stop - 1))])"

section \<open>Entries\<close>

datatype PageEntry = Empty | Small addr | Large addr | Released addr

definition PageEntry_is_empty :: "PageEntry \<Rightarrow> bool" where
  "PageEntry_is_empty e \<longleftrightarrow> e = Empty"

fun span_ptr :: "PageEntry \<Rightarrow> addr option" where
  "span_ptr (Small p) = Some p"
| "span_ptr (Released p) = Some p"
| "span_ptr _ = None"

fun large_ptr :: "PageEntry \<Rightarrow> addr option" where
  "large_ptr (Large p) = Some p"
| "large_ptr _ = None"

fun PageEntry_encode :: "PageEntry \<Rightarrow> usize" where
  "PageEntry_encode Empty = TAG_EMPTY"
| "PageEntry_encode (Small p) = p OR TAG_SMALL"
| "PageEntry_encode (Large p) = p OR TAG_LARGE"
| "PageEntry_encode (Released p) = p OR TAG_RELEASED"

definition PageEntry_decode :: "usize \<Rightarrow> PageEntry" where
  "PageEntry_decode bits =
     (let p = bits AND not_usize TAG_MASK; tag = bits AND TAG_MASK in
      if tag = TAG_SMALL then Small p
      else if tag = TAG_LARGE then Large p
      else if tag = TAG_RELEASED then Released p
      else Empty)"

datatype PagemapError = OutOfMetadata

section \<open>The tree\<close>

record PageMap =
  pm_root :: addr
  pm_node_bytes :: nat
  pm_mem :: "addr \<Rightarrow> nat \<Rightarrow> usize"

definition PageMap_new :: "(addr \<Rightarrow> nat \<Rightarrow> usize) \<Rightarrow> PageMap" where
  "PageMap_new mem = \<lparr>pm_root = 0, pm_node_bytes = 0, pm_mem = mem\<rparr>"

definition metadata_bytes :: "PageMap \<Rightarrow> nat" where
  "metadata_bytes pm = pm_node_bytes pm"

definition store_word :: "addr \<Rightarrow> nat \<Rightarrow> usize \<Rightarrow> PageMap \<Rightarrow> PageMap" where
  "store_word node j v pm = pm\<lparr>pm_mem := (pm_mem pm)(node := (pm_mem pm node)(j := v))\<rparr>"

definition slot_index :: "nat \<Rightarrow> nat \<Rightarrow> nat" where
  "slot_index k p = drop_bit (k * RADIX_BITS) p AND SLOT_MASK"

fun find_leaf_loop :: "PageMap \<Rightarrow> nat list \<Rightarrow> addr \<Rightarrow> nat \<Rightarrow> addr option outcome" where
  "find_leaf_loop pm [] node p = Panic"
| "find_leaf_loop pm (k # ks) node p =
     (let child = pm_mem pm node (slot_index k p) in
      if child = 0 then Ret None
      else if k = 1 then Ret (Some child)
      else find_leaf_loop pm ks child p)"

definition find_leaf :: "PageMap \<Rightarrow> nat \<Rightarrow> addr option outcome" where
  "find_leaf pm p =
     (if pm_root pm = 0 then Ret None else find_leaf_loop pm (rev [1..<LEVELS]) (pm_root pm) p)"

definition lookup :: "PageMap \<Rightarrow> addr \<Rightarrow> PageEntry outcome" where
  "lookup pm a = bind_outcome (find_leaf pm (page_of a)) (\<lambda>l.
     Ret (case l of
            Some leaf \<Rightarrow> PageEntry_decode (pm_mem pm leaf (leaf_index a))
          | None \<Rightarrow> Empty))"

type_synonym 'm alloc_fn = "'m \<Rightarrow> usize \<Rightarrow> usize \<Rightarrow> addr option \<times> 'm"

text \<open>A fresh node is zeroed before it is published.\<close>

definition alloc_node ::
  "'m alloc_fn \<Rightarrow> 'm \<Rightarrow> PageMap \<Rightarrow> usize \<Rightarrow> usize \<Rightarrow> (PagemapError + addr) \<times> PageMap \<times> 'm" where
  "alloc_node alloc m pm sz al =
     (case alloc m sz al of
        (None, m) \<Rightarrow> (Inl OutOfMetadata, pm, m)
      | (Some node, m) \<Rightarrow>
          (Inr node, pm\<lparr>pm_mem := (pm_mem pm)(node := (\<lambda>_. 0)),
                        pm_node_bytes := wrapping_add 64 (pm_node_bytes pm) sz\<rparr>, m))"

definition root_or_create ::
  "'m alloc_fn \<Rightarrow> 'm \<Rightarrow> PageMap \<Rightarrow> (PagemapError + addr) \<times> PageMap \<times> 'm" where
  "root_or_create alloc m pm =
     (let cur = pm_root pm in
      if cur \<noteq> 0 then (Inr cur, pm, m)
      else case alloc_node alloc m pm INTERIOR_SIZE INTERIOR_ALIGN of
             (Inl e, pm, m) \<Rightarrow> (Inl e, pm, m)
           | (Inr node, pm, m) \<Rightarrow>
               if pm_root pm = 0 then (Inr node, pm\<lparr>pm_root := node\<rparr>, m)
               else (Inr (pm_root pm), pm, m))"

definition child_or_create ::
  "'m alloc_fn \<Rightarrow> 'm \<Rightarrow> PageMap \<Rightarrow> addr \<Rightarrow> nat \<Rightarrow> usize \<Rightarrow> usize \<Rightarrow>
     (PagemapError + addr) \<times> PageMap \<times> 'm" where
  "child_or_create alloc m pm node idx sz al =
     (let cur = pm_mem pm node idx in
      if cur \<noteq> 0 then (Inr cur, pm, m)
      else case alloc_node alloc m pm sz al of
             (Inl e, pm, m) \<Rightarrow> (Inl e, pm, m)
           | (Inr child, pm, m) \<Rightarrow>
               if pm_mem pm node idx = 0 then (Inr child, store_word node idx child pm, m)
               else (Inr (pm_mem pm node idx), pm, m))"

fun leaf_or_create_loop ::
  "'m alloc_fn \<Rightarrow> nat list \<Rightarrow> addr \<Rightarrow> nat \<Rightarrow> 'm \<Rightarrow> PageMap \<Rightarrow>
     ((PagemapError + addr) \<times> PageMap \<times> 'm) outcome" where
  "leaf_or_create_loop alloc [] node p m pm = Panic"
| "leaf_or_create_loop alloc (k # ks) node p m pm =
     (let idx = slot_index k p in
      if k = 1 then Ret (child_or_create alloc m pm node idx LEAF_SIZE LEAF_ALIGN)
      else case child_or_create alloc m pm node idx INTERIOR_SIZE INTERIOR_ALIGN of
             (Inl e, pm, m) \<Rightarrow> Ret (Inl e, pm, m)
           | (Inr child, pm, m) \<Rightarrow> leaf_or_create_loop alloc ks child p m pm)"

definition leaf_or_create ::
  "'m alloc_fn \<Rightarrow> 'm \<Rightarrow> PageMap \<Rightarrow> nat \<Rightarrow> ((PagemapError + addr) \<times> PageMap \<times> 'm) outcome" where
  "leaf_or_create alloc m pm p =
     (case root_or_create alloc m pm of
        (Inl e, pm, m) \<Rightarrow> Ret (Inl e, pm, m)
      | (Inr node, pm, m) \<Rightarrow> leaf_or_create_loop alloc (rev [1..<LEVELS]) node p m pm)"

text \<open>The first loop of \<open>publish_range\<close> and the body of \<open>reserve_large_range\<close>.\<close>

fun reserve_pages ::
  "'m alloc_fn \<Rightarrow> nat list \<Rightarrow> 'm \<Rightarrow> PageMap \<Rightarrow> ((PagemapError + unit) \<times> PageMap \<times> 'm) outcome" where
  "reserve_pages alloc [] m pm = Ret (Inr (), pm, m)"
| "reserve_pages alloc (p # ps) m pm =
     bind_outcome (leaf_or_create alloc m pm p) (\<lambda>(r, pm, m).
       case r of Inl e \<Rightarrow> Ret (Inl e, pm, m) | Inr _ \<Rightarrow> reserve_pages alloc ps m pm)"

definition publish_page :: "usize \<Rightarrow> nat \<Rightarrow> PageMap \<Rightarrow> PageMap outcome" where
  "publish_page entry p pm =
     bind_outcome (find_leaf pm p) (\<lambda>l.
       case l of
         None \<Rightarrow> Panic
       | Some leaf \<Rightarrow>
           let prior = pm_mem pm leaf (p AND SLOT_MASK) in
           Ret (if prior = TAG_EMPTY \<or> prior = entry
                then store_word leaf (p AND SLOT_MASK) entry pm else pm))"

definition publish_range ::
  "'m alloc_fn \<Rightarrow> 'm \<Rightarrow> PageMap \<Rightarrow> addr \<times> addr \<Rightarrow> usize \<Rightarrow>
     ((PagemapError + unit) \<times> PageMap \<times> 'm) outcome" where
  "publish_range alloc m pm r entry =
     bind_outcome (reserve_pages alloc (page_range (fst r) (snd r)) m pm) (\<lambda>(res, pm, m).
       case res of
         Inl e \<Rightarrow> Ret (Inl e, pm, m)
       | Inr _ \<Rightarrow>
           bind_outcome (fold_outcome (publish_page entry) (page_range (fst r) (snd r)) pm)
             (\<lambda>pm. Ret (Inr (), pm, m)))"

definition overwrite_page :: "usize \<Rightarrow> nat \<Rightarrow> PageMap \<Rightarrow> PageMap outcome" where
  "overwrite_page entry p pm =
     bind_outcome (find_leaf pm p) (\<lambda>l.
       Ret (case l of None \<Rightarrow> pm | Some leaf \<Rightarrow> store_word leaf (p AND SLOT_MASK) entry pm))"

definition overwrite_existing_range :: "addr \<times> addr \<Rightarrow> usize \<Rightarrow> PageMap \<Rightarrow> PageMap outcome" where
  "overwrite_existing_range r entry pm =
     fold_outcome (overwrite_page entry) (page_range (fst r) (snd r)) pm"

section \<open>Installing and retiring descriptors\<close>

text \<open>A descriptor is passed with the address it lives at.\<close>

definition span_range :: "SpanDescriptor \<Rightarrow> addr \<times> addr" where
  "span_range s = (sp_base s, wrapping_add 64 (sp_base s) (byte_len s))"

definition install_span where
  "install_span alloc m pm sp s =
     publish_range alloc m pm (span_range s) (PageEntry_encode (Small sp))"

definition install_large where
  "install_large alloc m pm lp d =
     publish_range alloc m pm (lg_base d, lg_end d) (PageEntry_encode (Large lp))"

definition install_large_range where
  "install_large_range alloc m pm lp base stop =
     publish_range alloc m pm (base, stop) (PageEntry_encode (Large lp))"

definition reserve_large_range where
  "reserve_large_range alloc m pm base stop = reserve_pages alloc (page_range base stop) m pm"

definition release_span :: "addr \<Rightarrow> SpanDescriptor \<Rightarrow> PageMap \<Rightarrow> PageMap outcome" where
  "release_span sp s pm =
     overwrite_existing_range (span_range s) (PageEntry_encode (Released sp)) pm"

definition retire_span :: "SpanDescriptor \<Rightarrow> PageMap \<Rightarrow> PageMap outcome" where
  "retire_span s pm = overwrite_existing_range (span_range s) TAG_EMPTY pm"

definition retire_large :: "LargeDescriptor \<Rightarrow> PageMap \<Rightarrow> PageMap outcome" where
  "retire_large d pm = overwrite_existing_range (lg_base d, lg_end d) TAG_EMPTY pm"

definition retire_large_range :: "addr \<Rightarrow> addr \<Rightarrow> PageMap \<Rightarrow> PageMap outcome" where
  "retire_large_range base stop pm = overwrite_existing_range (base, stop) TAG_EMPTY pm"

section \<open>The self-check\<close>

text \<open>\<open>span_at\<close> and \<open>large_at\<close> are the descriptors in memory.\<close>

definition entry_agrees ::
  "(addr \<Rightarrow> SpanDescriptor) \<Rightarrow> (addr \<Rightarrow> LargeDescriptor) \<Rightarrow> usize \<Rightarrow> nat \<Rightarrow> bool" where
  "entry_agrees span_at large_at bits p =
     (let span_ok = (\<lambda>sp. let s = span_at sp in
            p \<in> set (page_range (fst (span_range s)) (snd (span_range s)))
            \<and> checked_row (sp_sc s) \<noteq> None) in
      case PageEntry_decode bits of
        Empty \<Rightarrow> False
      | Small sp \<Rightarrow> span_ok sp
      | Released sp \<Rightarrow> span_ok sp
      | Large lp \<Rightarrow> p \<in> set (page_range (lg_base (large_at lp)) (lg_end (large_at lp))))"

fun check_subtree ::
  "(addr \<Rightarrow> SpanDescriptor) \<Rightarrow> (addr \<Rightarrow> LargeDescriptor) \<Rightarrow> PageMap \<Rightarrow> addr \<Rightarrow> nat \<Rightarrow> nat \<Rightarrow> bool"
where
  "check_subtree span_at large_at pm node 0 prefix =
     list_all (\<lambda>j. let bits = pm_mem pm node j in
                 \<not> (bits \<noteq> TAG_EMPTY \<and> \<not> entry_agrees span_at large_at bits (prefix OR j)))
       [0..<SLOTS]"
| "check_subtree span_at large_at pm node (Suc l) prefix =
     list_all (\<lambda>idx. let child = pm_mem pm node idx in
                 child = 0
                 \<or> check_subtree span_at large_at pm child l
                     (prefix OR push_bit (Suc l * RADIX_BITS) idx))
       [0..<SLOTS]"

definition PageMap_check_invariants ::
  "(addr \<Rightarrow> SpanDescriptor) \<Rightarrow> (addr \<Rightarrow> LargeDescriptor) \<Rightarrow> PageMap \<Rightarrow> bool" where
  "PageMap_check_invariants span_at large_at pm \<longleftrightarrow>
     (if pm_root pm = 0 then True
      else check_subtree span_at large_at pm (pm_root pm) (LEVELS - 1) 0)"

section \<open>The tree as a map from pages to words\<close>

text \<open>
  \<open>path pm d p\<close> is the node at depth \<open>d\<close> on the way to page \<open>p\<close>, null when there is none; the
  leaf is at depth 4. A node at depth \<open>d\<close> serves the pages with one value of \<open>pfx d\<close>.
\<close>

fun path :: "PageMap \<Rightarrow> nat \<Rightarrow> nat \<Rightarrow> addr" where
  "path pm 0 p = pm_root pm"
| "path pm (Suc d) p =
     (let n = path pm d p in if n = 0 then 0 else pm_mem pm n (slot_index (4 - d) p))"

definition pfx :: "nat \<Rightarrow> nat \<Rightarrow> nat" where
  "pfx d p = p div 1024 ^ (5 - d)"

definition page_word :: "PageMap \<Rightarrow> nat \<Rightarrow> usize" where
  "page_word pm p =
     (if path pm 4 p = 0 then TAG_EMPTY else pm_mem pm (path pm 4 p) (p AND SLOT_MASK))"

abbreviation is_page :: "nat \<Rightarrow> bool" where
  "is_page p \<equiv> p < 2 ^ 50"

text \<open>No node has two ways to it, and every node was vended.\<close>

definition pm_inv :: "PageMap \<Rightarrow> addr set \<Rightarrow> bool" where
  "pm_inv pm own \<longleftrightarrow>
     (\<forall>d p. d \<le> 4 \<longrightarrow> is_page p \<longrightarrow> path pm d p \<noteq> 0 \<longrightarrow> path pm d p \<in> own)
     \<and> (\<forall>d e p q. d \<le> 4 \<longrightarrow> e \<le> 4 \<longrightarrow> is_page p \<longrightarrow> is_page q \<longrightarrow>
          path pm d p \<noteq> 0 \<longrightarrow> path pm d p = path pm e q \<longrightarrow> d = e \<and> pfx d p = pfx d q)"

lemma geometry [simp]:
  "PAGE_SHIFT = 14" "RADIX_BITS = 10" "LEVELS = 5" "SLOTS = 1024" "SLOT_MASK = 1023"
  by (simp_all add: PAGE_SHIFT_def RADIX_BITS_def LEVELS_def PAGENO_BITS_def SLOTS_def
      SLOT_MASK_def push_bit_eq_mult)

lemma and_slot_mask: "p AND 1023 = p mod 1024" for p :: nat
proof -
  have m: "(1023 :: nat) = mask 10" by (simp add: mask_eq_exp_minus_1)
  have "p AND 1023 = take_bit 10 p" unfolding m by (rule take_bit_eq_mask [symmetric])
  then show ?thesis by (simp add: take_bit_eq_mod)
qed

lemma slot_index_eq: "slot_index k p = p div 1024 ^ k mod 1024"
proof -
  have "(2 :: nat) ^ (k * 10) = 1024 ^ k" by (subst mult.commute) (simp add: power_mult)
  then show ?thesis by (simp add: slot_index_def and_slot_mask drop_bit_eq_div)
qed

lemma page_of_eq: "page_of a = a div 16384"
  by (simp add: page_of_def drop_bit_eq_div)

lemma page_of_page: "is_usize a \<Longrightarrow> is_page (page_of a)"
  by (simp add: page_of_eq less_mult_imp_div_less)

lemma levels_list: "rev [1..<LEVELS] = [4, 3, 2, 1]"
  by (simp add: upt_rec)

lemma find_leaf_eq: "find_leaf pm p = Ret (if path pm 4 p = 0 then None else Some (path pm 4 p))"
  unfolding find_leaf_def levels_list
  by (simp add: Let_def numeral_eq_Suc)

lemma lookup_eq: "lookup pm a = Ret (PageEntry_decode (page_word pm (page_of a)))"
  by (auto simp: lookup_def find_leaf_eq page_word_def leaf_index_def PageEntry_decode_def
      TAG_EMPTY_def TAG_SMALL_def TAG_LARGE_def TAG_RELEASED_def)

lemma pfx_step:
  assumes "d \<le> 3"
  shows "pfx (Suc d) p = pfx (Suc d) q \<longleftrightarrow>
           pfx d p = pfx d q \<and> slot_index (4 - d) p = slot_index (4 - d) q"
proof -
  have e: "5 - d = Suc (4 - d)" using assms by simp
  have "p div 1024 ^ (4 - d) = q div 1024 ^ (4 - d) \<longleftrightarrow>
      p div 1024 ^ (4 - d) div 1024 = q div 1024 ^ (4 - d) div 1024
      \<and> p div 1024 ^ (4 - d) mod 1024 = q div 1024 ^ (4 - d) mod 1024"
    by (metis div_mult_mod_eq)
  then show ?thesis
    using e by (simp add: pfx_def slot_index_eq div_mult2_eq [symmetric] mult.commute)
qed

lemma pfx_0: "is_page p \<Longrightarrow> pfx 0 p = 0"
  by (simp add: pfx_def)

lemma pfx_leaf: "pfx 4 p = pfx 4 q \<Longrightarrow> p AND SLOT_MASK = q AND SLOT_MASK \<Longrightarrow> p = q"
  by (simp add: pfx_def and_slot_mask) (metis div_mult_mod_eq)

lemma path_prefix:
  "d \<le> 4 \<Longrightarrow> is_page p \<Longrightarrow> is_page q \<Longrightarrow> pfx d p = pfx d q \<Longrightarrow> path pm d p = path pm d q"
proof (induction d)
  case (Suc d)
  then have "pfx d p = pfx d q \<and> slot_index (4 - d) p = slot_index (4 - d) q"
    using pfx_step [of d p q] by simp
  with Suc show ?case by (simp add: Let_def)
qed simp

lemma path_zero_down: "d \<le> e \<Longrightarrow> path pm d p = 0 \<Longrightarrow> path pm e p = 0"
  by (induction e) (auto simp: le_Suc_eq Let_def)

lemma pm_invD:
  assumes "pm_inv pm own"
  shows "d \<le> 4 \<Longrightarrow> is_page p \<Longrightarrow> path pm d p \<noteq> 0 \<Longrightarrow> path pm d p \<in> own"
    and "\<lbrakk>d \<le> 4; e \<le> 4; is_page p; is_page q; path pm d p \<noteq> 0; path pm d p = path pm e q\<rbrakk>
          \<Longrightarrow> d = e \<and> pfx d p = pfx d q"
  using assms unfolding pm_inv_def by blast+

section \<open>Growing the tree changes no entry\<close>

lemma path_attach:
  assumes inv: "pm_inv pm own" and d: "d \<le> 3" and p: "is_page p" and n: "path pm d p \<noteq> 0"
    and null: "path pm (Suc d) p = 0" and c: "c \<noteq> 0" "c \<notin> own"
    and mem: "pm_mem pm' = (pm_mem pm)(c := (\<lambda>_. 0),
                path pm d p := (pm_mem pm (path pm d p))(slot_index (4 - d) p := c))"
    and root: "pm_root pm' = pm_root pm"
    and e: "e \<le> 4" and q: "is_page q"
  shows "path pm' e q = (if e = Suc d \<and> pfx (Suc d) q = pfx (Suc d) p then c else path pm e q)"
  using e
proof (induction e)
  case 0
  then show ?case by (simp add: root)
next
  case (Suc e)
  let ?n = "path pm d p"
  have nown: "?n \<in> own" using pm_invD(1) [OF inv _ p n] d by simp
  have IH: "path pm' e q = (if e = Suc d \<and> pfx (Suc d) q = pfx (Suc d) p then c else path pm e q)"
    using Suc by simp
  show ?case
  proof (cases "e = Suc d \<and> pfx (Suc d) q = pfx (Suc d) p")
    case True
    have "path pm (Suc d) q = 0" using null path_prefix [of "Suc d" p q pm] True d p q by simp
    moreover have "path pm' (Suc e) q = 0" using IH True nown c by (auto simp: mem Let_def)
    ultimately show ?thesis using True by (simp add: Let_def)
  next
    case False
    then have pe: "path pm' e q = path pm e q" using IH by (auto simp del: path.simps)
    consider (zero) "path pm e q = 0" | (here) "path pm e q = ?n" | (other) "path pm e q \<noteq> 0" "path pm e q \<noteq> ?n"
      by blast
    then show ?thesis
    proof cases
      case zero
      then have "\<not> (Suc e = Suc d \<and> pfx (Suc d) q = pfx (Suc d) p)"
        using path_prefix [of d q p pm] pfx_step [OF d, of q p] n d p q by auto
      then show ?thesis using pe zero by (auto simp: Let_def)
    next
      case here
      then have ed: "e = d" "pfx d q = pfx d p"
        using pm_invD(2) [OF inv, of e d q p] Suc.prems d p q n by auto
      have "path pm' (Suc e) q = (if slot_index (4 - d) q = slot_index (4 - d) p then c
              else pm_mem pm ?n (slot_index (4 - d) q))"
        using pe here n nown c by (auto simp: mem Let_def ed(1))
      also have "\<dots> = (if pfx (Suc d) q = pfx (Suc d) p then c else path pm (Suc e) q)"
        using pfx_step [OF d, of q p] ed here n by (auto simp: Let_def)
      finally show ?thesis using ed(1) by simp
    next
      case other
      then have "path pm e q \<noteq> c" using pm_invD(1) [OF inv, of e q] Suc.prems q c by auto
      moreover have "\<not> (Suc e = Suc d \<and> pfx (Suc d) q = pfx (Suc d) p)"
        using path_prefix [of d q p pm] pfx_step [OF d, of q p] other d p q by auto
      ultimately show ?thesis using pe other by (auto simp: mem Let_def)
    qed
  qed
qed

lemma attach_inv:
  assumes inv: "pm_inv pm own" and d: "d \<le> 3" and p: "is_page p" and n: "path pm d p \<noteq> 0"
    and null: "path pm (Suc d) p = 0" and c: "c \<noteq> 0" "c \<notin> own"
    and mem: "pm_mem pm' = (pm_mem pm)(c := (\<lambda>_. 0),
                path pm d p := (pm_mem pm (path pm d p))(slot_index (4 - d) p := c))"
    and root: "pm_root pm' = pm_root pm"
  shows "is_page q \<Longrightarrow> page_word pm' q = page_word pm q"
    and "e \<le> 4 \<Longrightarrow> is_page q \<Longrightarrow> path pm e q \<noteq> 0 \<Longrightarrow> path pm' e q = path pm e q"
    and "path pm' (Suc d) p = c"
    and "\<And>d p q. d \<le> 4 \<Longrightarrow> is_page p \<Longrightarrow> path pm' d p \<noteq> 0 \<Longrightarrow> path pm' d p \<in> insert c own"
    and "\<And>d e p q. d \<le> 4 \<Longrightarrow> e \<le> 4 \<Longrightarrow> is_page p \<Longrightarrow> is_page q \<Longrightarrow>
          path pm' d p \<noteq> 0 \<Longrightarrow> path pm' d p = path pm' e q \<Longrightarrow> d = e \<and> pfx d p = pfx d q"
proof -
  note pa = path_attach [OF assms]
  have nown: "path pm d p \<in> own" using pm_invD(1) [OF inv _ p n] d by simp
  have zero: "path pm (Suc d) q = 0" if "is_page q" "pfx (Suc d) q = pfx (Suc d) p" for q
    using null path_prefix [of "Suc d" p q pm] that d p by simp
  show "path pm' (Suc d) p = c" using pa [of "Suc d" p] d p by simp
  show "path pm' e q = path pm e q" if "e \<le> 4" "is_page q" "path pm e q \<noteq> 0"
    using pa [OF that(1,2)] zero [OF that(2)] that(3) by auto
  show "page_word pm' q = page_word pm q" if q: "is_page q"
  proof (cases "4 = Suc d \<and> pfx (Suc d) q = pfx (Suc d) p")
    case True
    then have "path pm' 4 q = c" "path pm 4 q = 0" using pa [of 4 q] q zero [OF q] by auto
    then show ?thesis using c nown by (auto simp: page_word_def mem TAG_EMPTY_def)
  next
    case False
    then have e: "path pm' 4 q = path pm 4 q" using pa [of 4 q] q by auto
    have "path pm 4 q \<noteq> 0 \<Longrightarrow> path pm 4 q \<noteq> path pm d p"
      using pm_invD(2) [OF inv, of 4 d q p] q p d by auto
    moreover have "path pm 4 q \<noteq> 0 \<Longrightarrow> path pm 4 q \<noteq> c" using pm_invD(1) [OF inv, of 4 q] q c by auto
    ultimately show ?thesis using e by (auto simp: page_word_def mem)
  qed
  show "path pm' d p \<in> insert c own" if "d \<le> 4" "is_page p" "path pm' d p \<noteq> 0" for d p q
    using pa [OF that(1,2)] pm_invD(1) [OF inv that(1,2)] that(3) by (auto split: if_splits)
  show "a = b \<and> pfx a x = pfx a y" if h: "a \<le> 4" "b \<le> 4" "is_page x" "is_page y"
    "path pm' a x \<noteq> 0" "path pm' a x = path pm' b y" for a b x y
  proof -
    have out: "path pm a' x' \<noteq> c" if "a' \<le> 4" "is_page x'" "path pm a' x' \<noteq> 0" for a' x'
      using pm_invD(1) [OF inv that] c by auto
    show ?thesis
      using pa [OF h(1,3)] pa [OF h(2,4)] h pm_invD(2) [OF inv h(1-4)] out [of a x] out [of b y] c(1)
      by (auto split: if_splits)
  qed
qed

lemma pm_inv_mono: "pm_inv pm own \<Longrightarrow> own \<subseteq> own' \<Longrightarrow> pm_inv pm own'"
  unfolding pm_inv_def by blast

text \<open>What reserving nodes keeps: every entry, and every node already reached.\<close>

definition same_pages :: "PageMap \<Rightarrow> PageMap \<Rightarrow> bool" where
  "same_pages pm pm' \<longleftrightarrow>
     (\<forall>q. is_page q \<longrightarrow> page_word pm' q = page_word pm q)
     \<and> (\<forall>e q. e \<le> 4 \<longrightarrow> is_page q \<longrightarrow> path pm e q \<noteq> 0 \<longrightarrow> path pm' e q = path pm e q)"

lemma same_pages_refl [simp]: "same_pages pm pm"
  by (simp add: same_pages_def)

lemma same_pages_trans [trans]: "same_pages a b \<Longrightarrow> same_pages b c \<Longrightarrow> same_pages a c"
  by (simp add: same_pages_def)

context metadata_alloc
begin

definition grows :: "PageMap \<Rightarrow> 'm \<Rightarrow> PageMap \<Rightarrow> 'm \<Rightarrow> bool" where
  "grows pm m pm' m' \<longleftrightarrow>
     inv m' \<and> owned m \<subseteq> owned m' \<and> pm_inv pm' (owned m') \<and> same_pages pm pm'"

lemma grows_refl: "inv m \<Longrightarrow> pm_inv pm (owned m) \<Longrightarrow> grows pm m pm m"
  by (simp add: grows_def)

lemma grows_trans: "grows a m b m' \<Longrightarrow> grows b m' c m'' \<Longrightarrow> grows a m c m''"
  unfolding grows_def using same_pages_trans by blast

lemma alloc_node_cases:
  assumes "inv m" and "alloc_node alloc m pm sz 8 = (r, pm', m')"
  obtains (failed) "r = Inl OutOfMetadata" "pm' = pm" "m' = m"
  | (got) c where "r = Inr c" "c \<noteq> 0" "c \<notin> owned m" "c \<in> owned m'" "owned m \<subseteq> owned m'" "inv m'"
      "pm_mem pm' = (pm_mem pm)(c := (\<lambda>_. 0))" "pm_root pm' = pm_root pm"
proof (cases "alloc m sz 8")
  case (Pair x m1)
  show ?thesis
  proof (cases x)
    case None
    with Pair assms(2) alloc_None [of m sz 8 m1] show ?thesis
      by (intro failed) (auto simp: alloc_node_def)
  next
    case (Some c)
    have "is_power_of_two 8" "is_usize 8" by (simp_all add: is_power_of_two_def)
    note f = alloc_Some [OF assms(1) this Pair [unfolded Some]]
    have "c \<in> {c..<c + max sz 1}" by simp
    then have "c \<notin> owned m" "c \<in> owned m1" using f by blast+
    with f Pair Some assms(2) show ?thesis by (intro got [of c]) (auto simp: alloc_node_def)
  qed
qed

lemma child_or_create_grows:
  assumes m: "inv m" and inv: "pm_inv pm (owned m)" and d: "d \<le> 3" and p: "is_page p"
    and n: "path pm d p \<noteq> 0"
    and c: "child_or_create alloc m pm (path pm d p) (slot_index (4 - d) p) sz 8 = (r, pm', m')"
  shows "grows pm m pm' m' \<and> (\<forall>c. r = Inr c \<longrightarrow> path pm' (Suc d) p = c \<and> c \<noteq> 0)"
proof (cases "path pm (Suc d) p = 0")
  case False
  then have "pm_mem pm (path pm d p) (slot_index (4 - d) p) \<noteq> 0" using n by (simp add: Let_def)
  then show ?thesis using c n m inv by (auto simp: child_or_create_def Let_def grows_refl)
next
  case True
  then have z: "pm_mem pm (path pm d p) (slot_index (4 - d) p) = 0" using n by (simp add: Let_def)
  obtain x pm1 m1 where a: "alloc_node alloc m pm sz 8 = (x, pm1, m1)" by (metis surj_pair)
  from m a show ?thesis
  proof (cases rule: alloc_node_cases)
    case failed
    then show ?thesis using c z a m inv by (auto simp: child_or_create_def Let_def grows_refl)
  next
    case (got c)
    have nc: "path pm d p \<noteq> c" using pm_invD(1) [OF inv _ p n] d got(3) by auto
    have e: "r = Inr c" "m' = m1" "pm_root pm' = pm_root pm"
      "pm_mem pm' = (pm_mem pm)(c := (\<lambda>_. 0),
         path pm d p := (pm_mem pm (path pm d p))(slot_index (4 - d) p := c))"
      using assms(6) z a got nc by (auto simp: child_or_create_def Let_def store_word_def)
    note at = attach_inv [OF inv d p n True got(2,3) e(4,3)]
    have "insert c (owned m) \<subseteq> owned m1" using got by blast
    then have "pm_inv pm' (owned m1)" using at(4,5) unfolding pm_inv_def by blast
    moreover have "same_pages pm pm'" using at(1,2) unfolding same_pages_def by blast
    ultimately show ?thesis using e(1,2) got at(3) unfolding grows_def by simp
  qed
qed

lemma root_or_create_grows:
  assumes m: "inv m" and inv: "pm_inv pm (owned m)"
    and c: "root_or_create alloc m pm = (r, pm', m')"
  shows "grows pm m pm' m' \<and> (\<forall>c. r = Inr c \<longrightarrow> pm_root pm' = c \<and> c \<noteq> 0)"
proof (cases "pm_root pm = 0")
  case False
  then show ?thesis using c m inv by (auto simp: root_or_create_def Let_def grows_refl)
next
  case True
  obtain x pm1 m1 where a: "alloc_node alloc m pm INTERIOR_SIZE 8 = (x, pm1, m1)" by (metis surj_pair)
  from m a show ?thesis
  proof (cases rule: alloc_node_cases)
    case failed
    then show ?thesis
      using c True a m inv by (auto simp: root_or_create_def Let_def grows_refl INTERIOR_ALIGN_def)
  next
    case (got c)
    have e: "r = Inr c" "m' = m1" "pm_root pm' = c" "pm_mem pm' = (pm_mem pm)(c := (\<lambda>_. 0))"
      using assms(3) True a got by (auto simp: root_or_create_def Let_def INTERIOR_ALIGN_def)
    have old: "path pm d q = 0" for d q
      using path_zero_down [of 0 d pm q] True by simp
    have new: "path pm' d q = (if d = 0 then c else 0)" for d q
    proof (cases d)
      case (Suc k)
      have "path pm' 1 q = 0" using e got(2) by (simp add: Let_def)
      then show ?thesis using path_zero_down [of 1 d pm' q] Suc by simp
    qed (simp add: e)
    have "pm_inv pm' (owned m1)"
      using got by (auto simp: pm_inv_def new pfx_0)
    moreover have "same_pages pm pm'" by (auto simp: same_pages_def old new page_word_def)
    ultimately show ?thesis using e got unfolding grows_def by simp
  qed
qed

lemma leaf_or_create_loop_grows:
  assumes "1 \<le> k" and "k \<le> 4" and "inv m" and "pm_inv pm (owned m)" and "is_page p"
    and "path pm (4 - k) p \<noteq> 0"
  shows "\<exists>r pm' m'. leaf_or_create_loop alloc (rev [1..<Suc k]) (path pm (4 - k) p) p m pm
           = Ret (r, pm', m') \<and> grows pm m pm' m' \<and> (\<forall>c. r = Inr c \<longrightarrow> path pm' 4 p = c \<and> c \<noteq> 0)"
  using assms
proof (induction k arbitrary: m pm rule: nat_induct_at_least)
  case base
  obtain r pm' m' where c: "child_or_create alloc m pm (path pm 3 p) (slot_index 1 p) LEAF_SIZE 8
      = (r, pm', m')" by (metis surj_pair)
  have s: "Suc 3 = 4" "4 - 3 = (1 :: nat)" "4 - 1 = (3 :: nat)" by simp_all
  have g: "grows pm m pm' m' \<and> (\<forall>c. r = Inr c \<longrightarrow> path pm' 4 p = c \<and> c \<noteq> 0)"
    by (rule child_or_create_grows [of m pm 3 p LEAF_SIZE, unfolded s])
      (use base c in \<open>simp_all only: s order.refl not_False_eq_True\<close>)
  have "leaf_or_create_loop alloc (rev [1..<Suc 1]) (path pm 3 p) p m pm = Ret (r, pm', m')"
    using c by (simp add: Let_def LEAF_ALIGN_def)
  with g show ?case unfolding s by blast
next
  case (Suc k)
  define d where "d = 3 - k"
  have d: "4 - Suc k = d" "d \<le> 3" "4 - d = Suc k" "Suc d = 4 - k" using Suc by (auto simp: d_def)
  obtain r pm1 m1 where c: "child_or_create alloc m pm (path pm d p) (slot_index (Suc k) p)
      INTERIOR_SIZE 8 = (r, pm1, m1)" by (metis surj_pair)
  have g: "grows pm m pm1 m1 \<and> (\<forall>c. r = Inr c \<longrightarrow> path pm1 (Suc d) p = c \<and> c \<noteq> 0)"
    by (rule child_or_create_grows [of m pm d p INTERIOR_SIZE]) (use Suc.prems c d in auto)
  have l: "rev [1..<Suc (Suc k)] = Suc k # rev [1..<Suc k]" using Suc.hyps by simp
  show ?case
  proof (cases r)
    case (Inl e)
    then show ?thesis
      unfolding l d(1) using c g Suc.hyps by (simp add: Let_def INTERIOR_ALIGN_def)
  next
    case (Inr child)
    have ch: "path pm1 (4 - k) p = child" "child \<noteq> 0" using g Inr d(4) by auto
    have "inv m1" "pm_inv pm1 (owned m1)" using g by (auto simp: grows_def)
    then obtain r' pm' m' where
      "leaf_or_create_loop alloc (rev [1..<Suc k]) child p m1 pm1 = Ret (r', pm', m')"
      "grows pm1 m1 pm' m'" "\<forall>c. r' = Inr c \<longrightarrow> path pm' 4 p = c \<and> c \<noteq> 0"
      using Suc.IH [of m1 pm1] Suc.prems ch by auto
    moreover have "leaf_or_create_loop alloc (rev [1..<Suc (Suc k)]) (path pm d p) p m pm
        = leaf_or_create_loop alloc (rev [1..<Suc k]) child p m1 pm1"
      unfolding l using c Inr Suc.hyps by (simp add: Let_def INTERIOR_ALIGN_def)
    ultimately show ?thesis unfolding d(1) using g grows_trans by metis
  qed
qed

lemma leaf_or_create_grows:
  assumes m: "inv m" and inv: "pm_inv pm (owned m)" and p: "is_page p"
  shows "\<exists>r pm' m'. leaf_or_create alloc m pm p = Ret (r, pm', m') \<and> grows pm m pm' m'
           \<and> (\<forall>c. r = Inr c \<longrightarrow> path pm' 4 p = c \<and> c \<noteq> 0)"
proof -
  obtain r pm1 m1 where c: "root_or_create alloc m pm = (r, pm1, m1)" by (metis surj_pair)
  note g = root_or_create_grows [OF m inv c]
  have l: "rev [1..<LEVELS] = rev [1..<Suc 4]" by simp
  show ?thesis
  proof (cases r)
    case (Inl e)
    then show ?thesis using c g by (simp add: leaf_or_create_def)
  next
    case (Inr node)
    have n: "path pm1 (4 - 4) p = node" "node \<noteq> 0" using g Inr by auto
    have "inv m1" "pm_inv pm1 (owned m1)" using g by (auto simp: grows_def)
    then obtain r' pm' m' where
      "leaf_or_create_loop alloc (rev [1..<LEVELS]) node p m1 pm1 = Ret (r', pm', m')"
      "grows pm1 m1 pm' m'" "\<forall>c. r' = Inr c \<longrightarrow> path pm' 4 p = c \<and> c \<noteq> 0"
      using leaf_or_create_loop_grows [of 4 m1 pm1 p] p n unfolding l n(1) by auto
    moreover have "leaf_or_create alloc m pm p
        = leaf_or_create_loop alloc (rev [1..<LEVELS]) node p m1 pm1"
      using c Inr by (simp only: leaf_or_create_def prod.case sum.case)
    ultimately show ?thesis using g grows_trans by metis
  qed
qed

lemma reserve_pages_grows:
  assumes "inv m" and "pm_inv pm (owned m)" and "\<forall>p\<in>set ps. is_page p"
  shows "\<exists>r pm' m'. reserve_pages alloc ps m pm = Ret (r, pm', m') \<and> grows pm m pm' m'
           \<and> (r = Inr () \<longrightarrow> (\<forall>p\<in>set ps. path pm' 4 p \<noteq> 0))"
  using assms
proof (induction ps arbitrary: m pm)
  case Nil
  then show ?case by (simp add: grows_refl)
next
  case (Cons p ps)
  obtain r pm1 m1 where c: "leaf_or_create alloc m pm p = Ret (r, pm1, m1)" and g: "grows pm m pm1 m1"
    and l: "\<forall>c. r = Inr c \<longrightarrow> path pm1 4 p = c \<and> c \<noteq> 0"
    using leaf_or_create_grows [OF Cons.prems(1,2), of p] Cons.prems(3) by auto
  show ?case
  proof (cases r)
    case (Inl e)
    then show ?thesis using c g by (cases e) simp
  next
    case (Inr leaf)
    have "inv m1" "pm_inv pm1 (owned m1)" using g by (auto simp: grows_def)
    then obtain r' pm' m' where r: "reserve_pages alloc ps m1 pm1 = Ret (r', pm', m')"
      and g': "grows pm1 m1 pm' m'" and a: "r' = Inr () \<longrightarrow> (\<forall>p\<in>set ps. path pm' 4 p \<noteq> 0)"
      using Cons.IH [of m1 pm1] Cons.prems(3) by auto
    have "path pm' 4 p \<noteq> 0"
      using g' l Inr Cons.prems(3) by (auto simp: grows_def same_pages_def)
    then show ?thesis using c r Inr a grows_trans [OF g g'] by auto
  qed
qed

end

section \<open>Writing entries\<close>

text \<open>A store into the leaf word of a page changes the entry of that page only.\<close>

lemma store_entry:
  fixes v :: usize
  assumes inv: "pm_inv pm own" and p: "is_page p" and l: "path pm 4 p \<noteq> 0"
  defines "pm' \<equiv> store_word (path pm 4 p) (p AND SLOT_MASK) v pm"
  shows "e \<le> 4 \<Longrightarrow> is_page q \<Longrightarrow> path pm' e q = path pm e q"
    and "is_page q \<Longrightarrow> page_word pm' q = (if q = p then v else page_word pm q)"
    and "pm_inv pm' own"
proof -
  have pa: "path pm' e q = path pm e q" if "e \<le> 4" "is_page q" for e q
    using that
  proof (induction e)
    case (Suc e)
    have "path pm e q \<noteq> 0 \<Longrightarrow> path pm e q \<noteq> path pm 4 p"
      using pm_invD(2) [OF inv, of e 4 q p] Suc.prems p by auto
    then show ?case using Suc by (auto simp: pm'_def store_word_def Let_def)
  qed (simp add: pm'_def store_word_def)
  then show "e \<le> 4 \<Longrightarrow> is_page q \<Longrightarrow> path pm' e q = path pm e q" .
  show "page_word pm' q = (if q = p then v else page_word pm q)" if q: "is_page q"
  proof (cases "path pm 4 q = path pm 4 p \<and> q AND SLOT_MASK = p AND SLOT_MASK")
    case True
    then have "q = p" using pm_invD(2) [OF inv, of 4 4 q p] pfx_leaf q p l by auto
    then show ?thesis using pa [of 4 p] p l by (simp add: page_word_def pm'_def store_word_def)
  next
    case False
    then have "q \<noteq> p" by auto
    moreover have "page_word pm' q = page_word pm q"
      unfolding page_word_def pa [OF order.refl q]
      using False by (auto simp: pm'_def store_word_def)
    ultimately show ?thesis by simp
  qed
  show "pm_inv pm' own" using pm_invD [OF inv] unfolding pm_inv_def by (simp add: pa)
qed

lemma publish_pages:
  assumes "pm_inv pm own" and "\<forall>p\<in>set ps. is_page p \<and> path pm 4 p \<noteq> 0"
  shows "\<exists>pm'. fold_outcome (publish_page v) ps pm = Ret pm' \<and> pm_inv pm' own
    \<and> (\<forall>q. is_page q \<longrightarrow> page_word pm' q =
          (if q \<in> set ps \<and> (page_word pm q = TAG_EMPTY \<or> page_word pm q = v) then v else page_word pm q))"
  using assms
proof (induction ps arbitrary: pm)
  case Nil
  then show ?case by simp
next
  case (Cons p ps)
  have p: "is_page p" "path pm 4 p \<noteq> 0" using Cons.prems(2) by auto
  define u where "u = (if page_word pm p = TAG_EMPTY \<or> page_word pm p = v
    then store_word (path pm 4 p) (p AND SLOT_MASK) v pm else pm)"
  have s: "publish_page v p pm = Ret u"
    using p(2) by (simp add: publish_page_def find_leaf_eq u_def page_word_def Let_def)
  note st = store_entry [OF Cons.prems(1) p]
  have u: "pm_inv u own" "\<And>e q. e \<le> 4 \<Longrightarrow> is_page q \<Longrightarrow> path u e q = path pm e q"
    "\<And>q. is_page q \<Longrightarrow> page_word u q =
       (if q = p \<and> (page_word pm p = TAG_EMPTY \<or> page_word pm p = v) then v else page_word pm q)"
    using Cons.prems(1) st unfolding u_def by auto
  have "\<forall>p\<in>set ps. is_page p \<and> path u 4 p \<noteq> 0" using u(2) Cons.prems(2) by auto
  from Cons.IH [OF u(1) this] obtain pm' where
    "fold_outcome (publish_page v) ps u = Ret pm'" "pm_inv pm' own"
    "\<forall>q. is_page q \<longrightarrow> page_word pm' q =
       (if q \<in> set ps \<and> (page_word u q = TAG_EMPTY \<or> page_word u q = v) then v else page_word u q)"
    by blast
  then show ?case using s u(3) by auto
qed

lemma overwrite_pages:
  assumes "pm_inv pm own" and "\<forall>p\<in>set ps. is_page p"
  shows "\<exists>pm'. fold_outcome (overwrite_page v) ps pm = Ret pm' \<and> pm_inv pm' own
    \<and> (\<forall>q. is_page q \<longrightarrow> page_word pm' q =
          (if q \<in> set ps \<and> path pm 4 q \<noteq> 0 then v else page_word pm q))"
  using assms
proof (induction ps arbitrary: pm)
  case Nil
  then show ?case by simp
next
  case (Cons p ps)
  have p: "is_page p" using Cons.prems(2) by auto
  define u where "u = (if path pm 4 p = 0 then pm
    else store_word (path pm 4 p) (p AND SLOT_MASK) v pm)"
  have s: "overwrite_page v p pm = Ret u" by (simp add: overwrite_page_def find_leaf_eq u_def)
  have u: "pm_inv u own" "\<And>e q. e \<le> 4 \<Longrightarrow> is_page q \<Longrightarrow> path u e q = path pm e q"
    "\<And>q. is_page q \<Longrightarrow> page_word u q = (if q = p \<and> path pm 4 p \<noteq> 0 then v else page_word pm q)"
    using Cons.prems(1) store_entry [OF Cons.prems(1) p] unfolding u_def by auto
  from Cons.IH [OF u(1)] Cons.prems(2) obtain pm' where
    "fold_outcome (overwrite_page v) ps u = Ret pm'" "pm_inv pm' own"
    "\<forall>q. is_page q \<longrightarrow> page_word pm' q = (if q \<in> set ps \<and> path u 4 q \<noteq> 0 then v else page_word u q)"
    by auto
  then show ?case using s u(2,3) by auto
qed

section \<open>Properties\<close>

lemma page_range_pages:
  assumes "stop \<le> 2 ^ 64"
  shows "\<forall>p\<in>set (page_range base stop). is_page p"
  using assms by (auto simp: page_range_def page_of_eq less_mult_imp_div_less)

lemma page_range_mem:
  assumes "base \<le> a" and "a < stop"
  shows "page_of a \<in> set (page_range base stop)"
  using assms by (auto simp: page_range_def page_of_eq less_Suc_eq_le intro!: div_le_mono)

lemma publish_range_words:
  assumes "metadata_alloc alloc owned ok" and "ok m" and "pm_inv pm (owned m)" and "stop \<le> 2 ^ 64"
  shows "\<exists>r pm' m'. publish_range alloc m pm (base, stop) v = Ret (r, pm', m')
    \<and> ok m' \<and> owned m \<subseteq> owned m' \<and> pm_inv pm' (owned m')
    \<and> (\<forall>q. is_page q \<longrightarrow> page_word pm' q =
          (if r = Inr () \<and> q \<in> set (page_range base stop)
              \<and> (page_word pm q = TAG_EMPTY \<or> page_word pm q = v)
           then v else page_word pm q))"
proof -
  note pages = page_range_pages [OF assms(4), of base]
  obtain r pm1 m1 where res: "reserve_pages alloc (page_range base stop) m pm = Ret (r, pm1, m1)"
    and g: "ok m1" "owned m \<subseteq> owned m1" "pm_inv pm1 (owned m1)" "same_pages pm pm1"
    and leaves: "r = Inr () \<longrightarrow> (\<forall>p\<in>set (page_range base stop). path pm1 4 p \<noteq> 0)"
    using metadata_alloc.reserve_pages_grows [OF assms(1-3) pages]
    unfolding metadata_alloc.grows_def [OF assms(1)] by blast
  have same: "is_page q \<Longrightarrow> page_word pm1 q = page_word pm q" for q
    using g(4) by (simp add: same_pages_def)
  show ?thesis
  proof (cases r)
    case (Inl e)
    then show ?thesis using res g same by (simp add: publish_range_def)
  next
    case (Inr u)
    have "\<forall>p\<in>set (page_range base stop). is_page p \<and> path pm1 4 p \<noteq> 0"
      using leaves pages Inr by simp
    from publish_pages [OF g(3) this, of v] obtain pm' where
      f: "fold_outcome (publish_page v) (page_range base stop) pm1 = Ret pm'" "pm_inv pm' (owned m1)"
      "\<forall>q. is_page q \<longrightarrow> page_word pm' q =
          (if q \<in> set (page_range base stop) \<and> (page_word pm1 q = TAG_EMPTY \<or> page_word pm1 q = v)
           then v else page_word pm1 q)" by blast
    have "publish_range alloc m pm (base, stop) v = Ret (Inr (), pm', m1)"
      using res f(1) Inr by (simp add: publish_range_def)
    then show ?thesis using f(2,3) g same by (intro exI conjI) auto
  qed
qed

text \<open>
  C35. Publishing an entry over a byte range never panics and is all or nothing. When the
  metadata runs out no entry changes; otherwise exactly the pages of the range that were empty,
  or held this entry already, hold it afterwards. No entry outside the range changes, and the
  tree stays a tree of vended nodes.
\<close>

theorem publish_range_atomic:
  assumes "metadata_alloc alloc owned ok" and "ok m" and "pm_inv pm (owned m)" and "stop \<le> 2 ^ 64"
  shows "\<exists>r pm' m'. publish_range alloc m pm (base, stop) v = Ret (r, pm', m')
    \<and> ok m' \<and> owned m \<subseteq> owned m' \<and> pm_inv pm' (owned m')
    \<and> (\<forall>q. is_page q \<longrightarrow> page_word pm' q =
          (if r = Inr () \<and> q \<in> set (page_range base stop)
              \<and> (page_word pm q = TAG_EMPTY \<or> page_word pm q = v)
           then v else page_word pm q))"
  by (rule publish_range_words [OF assms])

lemma pm_inv_new: "pm_inv (PageMap_new mem) own"
proof -
  have "path (PageMap_new mem) d p = 0" for d p
    using path_zero_down [of 0 d "PageMap_new mem" p] by (simp add: PageMap_new_def)
  then show ?thesis by (simp add: pm_inv_def)
qed

lemma page_word_new: "page_word (PageMap_new mem) p = TAG_EMPTY"
  using path_zero_down [of 0 4 "PageMap_new mem" p] by (simp add: page_word_def PageMap_new_def)

lemma demo_bump: "bump_inv (BumpArena_new 4096 1048576)"
  by (simp add: BumpArena_new_def bump_inv_def)

theorem publish_range_atomic_witness:
  "\<exists>r pm' m'. publish_range BumpArena_alloc (BumpArena_new 4096 1048576) (PageMap_new (\<lambda>_ _. 0))
      (32768, 65536) 8193 = Ret (r, pm', m') \<and> pm_inv pm' (bump_owned m')"
  using publish_range_atomic [OF bump.metadata_alloc_axioms demo_bump pm_inv_new,
      of 65536 "\<lambda>_ _. 0" 32768 8193]
  by auto

lemma or_tag:
  assumes "8 dvd p" and "t < 8" and "is_usize p"
  shows "p OR t = p + t" and "(p + t) AND TAG_MASK = t" and "(p + t) AND not_usize TAG_MASK = p"
    and "is_usize (p + t)"
proof -
  obtain k where k: "p = 8 * k" using assms(1) by auto
  have pb: "p = push_bit 3 k" using k by (simp add: push_bit_eq_mult)
  have tb: "take_bit 3 t = t" using assms(2) by (simp add: take_bit_nat_eq_self_iff)
  then have "\<not> bit t n" if "3 \<le> n" for n using that by (metis bit_take_bit_iff not_le)
  then have "p AND t = 0" by (intro bit_eqI) (auto simp: pb bit_simps bit_push_bit_iff_nat)
  then show o: "p OR t = p + t" by (simp add: disjunctive_add_eq_or)
  show "(p + t) AND TAG_MASK = t"
  proof -
    have m: "TAG_MASK = mask 3" by (simp add: TAG_MASK_def mask_eq_exp_minus_1)
    show ?thesis
      unfolding m take_bit_eq_mask [symmetric] using assms(2) by (simp add: take_bit_eq_mod k)
  qed
  have "k < 2 ^ 61" using k assms(3) by simp
  then show u: "is_usize (p + t)" using k assms(2) by simp
  have p2: "is_power_of_two 8" "is_usize 8" by (simp_all add: is_power_of_two_def)
  have "not_usize TAG_MASK = not_usize (8 - 1)" by (simp add: TAG_MASK_def)
  then show "(p + t) AND not_usize TAG_MASK = p"
    using and_not_mask [OF p2 u] assms(2) k by simp
qed

lemma PageEntry_roundtrip:
  assumes "8 dvd p" and "is_usize p"
  shows "PageEntry_decode (PageEntry_encode (Small p)) = Small p"
    and "PageEntry_decode (PageEntry_encode (Large p)) = Large p"
    and "PageEntry_decode (PageEntry_encode (Released p)) = Released p"
    and "PageEntry_encode (Small p) \<noteq> TAG_EMPTY"
  using or_tag [OF assms(1) _ assms(2), of 1] or_tag [OF assms(1) _ assms(2), of 2]
    or_tag [OF assms(1) _ assms(2), of 3]
  by (simp_all add: PageEntry_decode_def TAG_SMALL_def TAG_LARGE_def TAG_RELEASED_def TAG_EMPTY_def
      Let_def)

lemma PageEntry_decode_empty: "PageEntry_decode TAG_EMPTY = Empty"
  by (simp add: PageEntry_decode_def TAG_EMPTY_def TAG_SMALL_def TAG_LARGE_def TAG_RELEASED_def)

lemma overwrite_range_words:
  assumes "pm_inv pm own" and "stop \<le> 2 ^ 64"
  shows "\<exists>pm'. overwrite_existing_range (base, stop) v pm = Ret pm' \<and> pm_inv pm' own
    \<and> (\<forall>q. is_page q \<longrightarrow> page_word pm' q =
          (if q \<in> set (page_range base stop) \<and> path pm 4 q \<noteq> 0 then v else page_word pm q))"
  using overwrite_pages [OF assms(1) page_range_pages [OF assms(2)]]
  by (simp add: overwrite_existing_range_def)

lemma retire_span_lookup:
  assumes "pm_inv pm own" and "is_usize (sp_base s + byte_len s)"
  shows "\<exists>pm'. retire_span s pm = Ret pm' \<and> pm_inv pm' own
    \<and> (\<forall>a. sp_base s \<le> a \<longrightarrow> a < sp_base s + byte_len s \<longrightarrow> lookup pm' a = Ret Empty)"
proof -
  have u: "sp_base s + byte_len s \<le> 2 ^ 64" using assms(2) by simp
  obtain pm' where f: "retire_span s pm = Ret pm'" "pm_inv pm' own"
    "\<forall>q. is_page q \<longrightarrow> page_word pm' q =
       (if q \<in> set (page_range (sp_base s) (sp_base s + byte_len s)) \<and> path pm 4 q \<noteq> 0
        then TAG_EMPTY else page_word pm q)"
    using overwrite_range_words [OF assms(1) u, of "sp_base s" TAG_EMPTY] assms(2)
    by (auto simp: retire_span_def span_range_def)
  have "lookup pm' a = Ret Empty" if "sp_base s \<le> a" "a < sp_base s + byte_len s" for a
  proof -
    have "is_page (page_of a)" using that u by (intro page_of_page) simp
    then have "page_word pm' (page_of a) = TAG_EMPTY"
      using f(3) page_range_mem [OF that] by (auto simp: page_word_def)
    then show ?thesis by (simp add: lookup_eq PageEntry_decode_empty)
  qed
  with f show ?thesis by blast
qed

lemma install_span_words:
  assumes "metadata_alloc alloc owned ok" and "ok m" and "pm_inv pm (owned m)"
    and "is_usize (sp_base s + byte_len s)"
    and "\<forall>p\<in>set (page_range (sp_base s) (sp_base s + byte_len s)). page_word pm p = TAG_EMPTY"
    and "install_span alloc m pm sp s = Ret (Inr (), pm', m')"
  shows "pm_inv pm' (owned m')"
    and "is_page q \<Longrightarrow> page_word pm' q =
          (if q \<in> set (page_range (sp_base s) (sp_base s + byte_len s))
           then PageEntry_encode (Small sp) else page_word pm q)"
proof -
  have u: "sp_base s + byte_len s \<le> 2 ^ 64" using assms(4) by simp
  have i: "publish_range alloc m pm (sp_base s, sp_base s + byte_len s) (PageEntry_encode (Small sp))
      = Ret (Inr (), pm', m')"
    using assms(4,6) by (simp add: install_span_def span_range_def)
  note w = publish_range_words [OF assms(1-3) u, of "sp_base s" "PageEntry_encode (Small sp)"]
  from w i show "pm_inv pm' (owned m')" by auto
  from w i assms(5) show "is_page q \<Longrightarrow> page_word pm' q =
          (if q \<in> set (page_range (sp_base s) (sp_base s + byte_len s))
           then PageEntry_encode (Small sp) else page_word pm q)" by auto
qed

text \<open>
  C36. After a span is installed over empty pages, every address of the span is found to belong
  to its descriptor and every address on other pages is looked up as before; retiring the span
  then restores every lookup to what it was.
\<close>

theorem install_retire_lookup:
  assumes "metadata_alloc alloc owned ok" and "ok m" and "pm_inv pm (owned m)"
    and "8 dvd sp" and "is_usize sp" and "is_usize (sp_base s + byte_len s)"
    and "\<forall>p\<in>set (page_range (sp_base s) (sp_base s + byte_len s)). page_word pm p = TAG_EMPTY"
    and "install_span alloc m pm sp s = Ret (Inr (), pm', m')"
  shows "(\<forall>a. sp_base s \<le> a \<and> a < sp_base s + byte_len s \<longrightarrow> lookup pm' a = Ret (Small sp))
    \<and> (\<forall>a. is_usize a \<and> page_of a \<notin> set (page_range (sp_base s) (sp_base s + byte_len s)) \<longrightarrow>
          lookup pm' a = lookup pm a)
    \<and> (\<exists>pm''. retire_span s pm' = Ret pm'' \<and> (\<forall>a. is_usize a \<longrightarrow> lookup pm'' a = lookup pm a))"
proof -
  define stop where "stop = sp_base s + byte_len s"
  define e where "e = PageEntry_encode (Small sp)"
  have r: "span_range s = (sp_base s, stop)"
    using assms(6) by (simp add: span_range_def stop_def)
  have u: "stop \<le> 2 ^ 64" using assms(6) by (simp add: stop_def)
  have enc: "PageEntry_decode e = Small sp" "e \<noteq> TAG_EMPTY"
    using PageEntry_roundtrip [OF assms(4,5)] by (simp_all add: e_def)
  note w = install_span_words [OF assms(1-3,6-8), folded stop_def e_def]
  have in_range: "lookup pm' a = Ret (Small sp)" if "sp_base s \<le> a" "a < stop" for a
  proof -
    have "is_usize a" using that u by simp
    then show ?thesis
      using w(2) [OF page_of_page, of a] page_range_mem [OF that] enc by (simp add: lookup_eq)
  qed
  have outside: "lookup pm' a = lookup pm a"
    if "is_usize a" "page_of a \<notin> set (page_range (sp_base s) stop)" for a
    using w(2) [OF page_of_page, of a] that by (simp add: lookup_eq)
  obtain pm'' where f: "retire_span s pm' = Ret pm''"
    "\<forall>q. is_page q \<longrightarrow> page_word pm'' q =
       (if q \<in> set (page_range (sp_base s) stop) \<and> path pm' 4 q \<noteq> 0 then TAG_EMPTY else page_word pm' q)"
    using overwrite_range_words [OF w(1) u, of "sp_base s" TAG_EMPTY] by (auto simp: retire_span_def r)
  have "lookup pm'' a = lookup pm a" if a: "is_usize a" for a
  proof -
    let ?q = "page_of a"
    have "page_word pm' ?q = e \<Longrightarrow> path pm' 4 ?q \<noteq> 0"
      using enc(2) by (auto simp: page_word_def split: if_splits)
    then have "page_word pm'' ?q = page_word pm ?q"
      using f(2) [rule_format, OF page_of_page [OF a]] w(2) [OF page_of_page [OF a]] assms(7)
      by (cases "?q \<in> set (page_range (sp_base s) stop)") (simp_all add: stop_def)
    then show ?thesis by (simp add: lookup_eq)
  qed
  with in_range outside f(1) show ?thesis unfolding stop_def by blast
qed

section \<open>The self-check is exact\<close>

fun walk :: "PageMap \<Rightarrow> addr \<Rightarrow> nat \<Rightarrow> nat \<Rightarrow> addr" where
  "walk pm n 0 p = n"
| "walk pm n (Suc l) p =
     (let c = pm_mem pm n (slot_index (Suc l) p) in if c = 0 then 0 else walk pm c l p)"

definition word_below :: "PageMap \<Rightarrow> addr \<Rightarrow> nat \<Rightarrow> nat \<Rightarrow> usize" where
  "word_below pm n l p =
     (let leaf = walk pm n l p in if leaf = 0 then TAG_EMPTY else pm_mem pm leaf (p AND SLOT_MASK))"

lemma page_word_below: "pm_root pm \<noteq> 0 \<Longrightarrow> page_word pm p = word_below pm (pm_root pm) 4 p"
  by (simp add: page_word_def word_below_def Let_def numeral_eq_Suc)

lemma bit_less_slots:
  fixes j n :: nat
  assumes "j < 1024" and "bit j n"
  shows "n < 10"
proof -
  have "take_bit 10 j = j" using assms(1) by (simp add: take_bit_nat_eq_self)
  then show ?thesis using assms(2) by (metis bit_take_bit_iff)
qed

lemma prefix_or:
  fixes pre j :: nat
  assumes "1024 ^ Suc k dvd pre" and "j < 1024"
  shows "pre OR push_bit (k * 10) j = pre + j * 1024 ^ k"
proof -
  have e: "(2 :: nat) ^ (k * 10) = 1024 ^ k" for k by (subst mult.commute) (simp add: power_mult)
  obtain c where c: "pre = 1024 ^ Suc k * c" using assms(1) by auto
  have pb: "pre = push_bit (Suc k * 10) c"
    unfolding c push_bit_eq_mult e by (simp only: mult.commute)
  have "pre AND push_bit (k * 10) j = 0"
    by (intro bit_eqI) (auto simp: pb bit_simps bit_push_bit_iff_nat dest: bit_less_slots [OF assms(2)])
  then have "pre OR push_bit (k * 10) j = pre + push_bit (k * 10) j"
    by (rule disjunctive_add_eq_or [symmetric])
  then show ?thesis by (simp only: push_bit_eq_mult e)
qed

lemma all_blocks:
  fixes P :: "nat \<Rightarrow> bool"
  assumes "0 < b"
  shows "(\<forall>j<n. \<forall>x<b. P (j * b + x)) \<longleftrightarrow> (\<forall>y<n * b. P y)"
proof
  assume h: "\<forall>j<n. \<forall>x<b. P (j * b + x)"
  show "\<forall>y<n * b. P y"
  proof (intro allI impI)
    fix y assume "y < n * b"
    then have "y div b < n" by (simp add: less_mult_imp_div_less)
    moreover have "y mod b < b" using assms by simp
    ultimately have "P (y div b * b + y mod b)" using h by blast
    then show "P y" by simp
  qed
next
  assume h: "\<forall>y<n * b. P y"
  show "\<forall>j<n. \<forall>x<b. P (j * b + x)"
  proof (intro allI impI)
    fix j x assume "j < n" "x < b"
    then have "j * b + x < Suc j * b" by simp
    also have "\<dots> \<le> n * b" using \<open>j < n\<close> by (intro mult_le_mono1) simp
    finally show "P (j * b + x)" using h by blast
  qed
qed

lemma slot_index_split:
  assumes "1024 ^ Suc k dvd pre" and "j < 1024" and "x < 1024 ^ k"
  shows "slot_index k (pre + (j * 1024 ^ k + x)) = j"
proof -
  obtain c where c: "pre = 1024 ^ Suc k * c" using assms(1) by auto
  have "pre + (j * 1024 ^ k + x) = (c * 1024 + j) * 1024 ^ k + x" by (simp add: c algebra_simps)
  then have "(pre + (j * 1024 ^ k + x)) div 1024 ^ k = ((c * 1024 + j) * 1024 ^ k + x) div 1024 ^ k"
    by (simp only:)
  also have "\<dots> = c * 1024 + j" using assms(3) by (subst div_mult_self3) simp_all
  finally have "(pre + (j * 1024 ^ k + x)) div 1024 ^ k = c * 1024 + j" .
  then show ?thesis using assms(2) by (simp add: slot_index_eq)
qed

lemma check_subtree_iff:
  assumes "node \<noteq> 0" and "1024 ^ Suc l dvd pre"
  shows "check_subtree span_at large_at pm node l pre \<longleftrightarrow>
    (\<forall>x<1024 ^ Suc l. word_below pm node l (pre + x) \<noteq> TAG_EMPTY \<longrightarrow>
       entry_agrees span_at large_at (word_below pm node l (pre + x)) (pre + x))"
  using assms
proof (induction l arbitrary: node pre)
  case 0
  have "pre OR j = pre + j" if "j < 1024" for j using prefix_or [of 0 pre j] 0 that by simp
  moreover have "word_below pm node 0 (pre + j) = pm_mem pm node j" if "j < 1024" for j
    using 0 that by (auto simp: word_below_def and_slot_mask elim!: dvdE)
  ultimately show ?case by (auto simp: list_all_iff Let_def)
next
  case (Suc l)
  let ?b = "1024 ^ Suc l :: nat"
  let ?P = "\<lambda>n l y. word_below pm n l y \<noteq> TAG_EMPTY \<longrightarrow>
               entry_agrees span_at large_at (word_below pm n l y) y"
  have sub: "(pm_mem pm node j = 0 \<or> check_subtree span_at large_at pm (pm_mem pm node j) l
                (pre OR push_bit (Suc l * RADIX_BITS) j))
             \<longleftrightarrow> (\<forall>x<?b. ?P node (Suc l) (pre + (j * ?b + x)))" if j: "j < 1024" for j
  proof -
    let ?c = "pm_mem pm node j"
    have w: "word_below pm node (Suc l) (pre + (j * ?b + x))
        = (if ?c = 0 then TAG_EMPTY else word_below pm ?c l (pre + (j * ?b + x)))" if "x < ?b" for x
      using slot_index_split [OF Suc.prems(2) j that] by (simp add: word_below_def Let_def)
    have pre: "pre OR push_bit (Suc l * RADIX_BITS) j = pre + j * ?b"
      using prefix_or [OF Suc.prems(2) j] by simp
    have "?b dvd pre" using Suc.prems(2) by (meson dvd_trans le_imp_power_dvd le_SucI order_refl)
    then have "?b dvd pre + j * ?b" by simp
    then show ?thesis
      using Suc.IH [of ?c "pre + j * ?b"] w unfolding pre by (auto simp: add.assoc)
  qed
  have "check_subtree span_at large_at pm node (Suc l) pre
      \<longleftrightarrow> (\<forall>j<1024. \<forall>x<?b. ?P node (Suc l) (pre + (j * ?b + x)))"
    using sub by (simp add: list_all_iff Let_def atLeast0LessThan Ball_def)
  also have "\<dots> \<longleftrightarrow> (\<forall>y<1024 * ?b. ?P node (Suc l) (pre + y))"
    by (rule all_blocks [where P = "\<lambda>y. ?P node (Suc l) (pre + y)"]) simp
  finally show ?case by simp
qed

text \<open>
  C37. The self-check accepts a page map exactly when the entry of every non-empty page, over
  the whole 50-bit range of page numbers, names a descriptor whose range contains that page
  (and, for spans, whose size class exists).
\<close>

theorem check_invariants_all_pages:
  "PageMap_check_invariants span_at large_at pm \<longleftrightarrow>
     (\<forall>p. \<not> (is_page p \<and> page_word pm p \<noteq> TAG_EMPTY
             \<and> \<not> entry_agrees span_at large_at (page_word pm p) p))"
proof (cases "pm_root pm = 0")
  case True
  then have "page_word pm p = TAG_EMPTY" for p
    using path_zero_down [of 0 4 pm p] by (simp add: page_word_def)
  then show ?thesis using True by (simp add: PageMap_check_invariants_def)
next
  case False
  have "LEVELS - 1 = 4" "(1024 :: nat) ^ Suc 4 = 2 ^ 50" by simp_all
  then have "PageMap_check_invariants span_at large_at pm \<longleftrightarrow>
    (\<forall>x<2 ^ 50. word_below pm (pm_root pm) 4 x \<noteq> TAG_EMPTY \<longrightarrow>
       entry_agrees span_at large_at (word_below pm (pm_root pm) 4 x) x)"
    using check_subtree_iff [OF False, of 4 0] False
    by (simp only: PageMap_check_invariants_def if_False) simp
  then show ?thesis unfolding page_word_below [OF False] by blast
qed

text \<open>A span of one page installed in an empty map, used as a witness.\<close>

lemma demo_node_alloc:
  assumes "8 dvd c" and "c + 8192 \<le> 1048576"
  shows "BumpArena_alloc \<lparr>ba_base = 4096, ba_capacity = 1048576, cursor = c\<rparr> 8192 8
     = (Some (4096 + c), \<lparr>ba_base = 4096, ba_capacity = 1048576, cursor = c + 8192\<rparr>)"
proof -
  have al: "is_power_of_two 8" "is_usize 8" by (simp_all add: is_power_of_two_def)
  have "8 dvd 4096 + c" using assms(1) by simp
  then have "align_up (4096 + c) 8 = Some (4096 + c)" using assms(2) by (auto simp: align_up_eq al)
  then show ?thesis
    using assms by (simp add: BumpArena_alloc_def bump_round_def checked_add_def USIZE_MAX_def Let_def)
qed

lemma demo_install:
  assumes "sp_base s = 16384" and "sp_page_count s = 1"
  shows "\<exists>pm' m'. install_span BumpArena_alloc (BumpArena_new 4096 1048576) (PageMap_new (\<lambda>_ _. 0)) 8192 s
     = Ret (Inr (), pm', m')"
proof -
  have r: "span_range s = (16384, 32768)"
    using assms by (simp add: span_range_def byte_len_def PAGE_SIZE_def)
  have pr: "page_range 16384 32768 = [1]" by (simp add: page_range_def page_of_eq)
  note eval = leaf_or_create_def levels_list [simplified] root_or_create_def child_or_create_def alloc_node_def
    demo_node_alloc BumpArena_new_def PageMap_new_def INTERIOR_SIZE_def INTERIOR_ALIGN_def
    LEAF_SIZE_def LEAF_ALIGN_def slot_index_eq store_word_def Let_def
  show ?thesis
    unfolding install_span_def r publish_range_def fst_conv snd_conv pr
    by (simp add: eval publish_page_def find_leaf_def)
qed

theorem install_retire_lookup_witness:
  "\<exists>s pm' m'. install_span BumpArena_alloc (BumpArena_new 4096 1048576) (PageMap_new (\<lambda>_ _. 0)) 8192 s
     = Ret (Inr (), pm', m') \<and> lookup pm' 20000 = Ret (Small 8192) \<and> lookup pm' 8192 = Ret Empty"
proof -
  obtain s :: SpanDescriptor where s: "sp_base s = 16384" "sp_page_count s = 1" by (metis demo_new)
  obtain pm' m' where i: "install_span BumpArena_alloc (BumpArena_new 4096 1048576)
      (PageMap_new (\<lambda>_ _. 0)) 8192 s = Ret (Inr (), pm', m')" using demo_install [OF s] by blast
  have b: "sp_base s + byte_len s = 32768"
    by (simp add: byte_len_def s PAGE_SIZE_def)
  have e: "lookup (PageMap_new (\<lambda>_ _. 0)) 8192 = Ret Empty"
    by (simp add: lookup_eq page_word_new PageEntry_decode_empty)
  have "page_of 8192 \<notin> set (page_range 16384 32768)" by (simp add: page_range_def page_of_eq)
  with install_retire_lookup [OF bump.metadata_alloc_axioms demo_bump pm_inv_new _ _ _ _ i,
      unfolded b, unfolded s(1)] i e
  show ?thesis by (intro exI [of _ s] exI [of _ pm'] exI [of _ m']) (simp add: page_word_new)
qed

end
