(* ===== verification/PtrClass.thy ===== *)
theory PtrClass
  imports Pagemap
begin

text \<open>
  \<open>crates/topo-core/src/ptr_class.rs\<close>: what an arbitrary address passed to \<open>free\<close> is. The
  descriptors in memory are the functions \<open>span_at\<close> and \<open>large_at\<close>; \<open>meta\<close> is the membership
  test of a \<open>MetadataRegion\<close>; \<open>dbg\<close> is the \<open>debug-checks\<close> feature. Shown: on the pages of an
  active span exactly the object base addresses are accepted, each with its own index, and on
  those of a large allocation exactly its base.
\<close>

section \<open>Metadata regions\<close>

definition NoMetadata_contains :: "addr \<Rightarrow> bool" where
  "NoMetadata_contains _ = False"

definition AnyMetadataRegion_contains :: "(addr \<Rightarrow> bool) list \<Rightarrow> addr \<Rightarrow> bool" where
  "AnyMetadataRegion_contains rs a = list_ex (\<lambda>r. r a) rs"

section \<open>Classification\<close>

datatype PointerClass =
  PcNull
| PcSmall (pc_span: addr) (pc_sc: SizeClassId) (pc_arena: ArenaId) (pc_object_index: usize)
| PcLarge (pc_desc: addr)
| PcInterior (pc_base: addr) (pc_offset: usize)
| PcMetadata
| PcReleased
| PcQuarantined
| PcExternal

definition classify_in_span ::
  "bool \<Rightarrow> (addr \<Rightarrow> SpanDescriptor) \<Rightarrow> addr \<Rightarrow> addr \<Rightarrow> PointerClass outcome" where
  "classify_in_span dbg span_at sp a =
     (case read_consistent_geometry dbg (span_at sp) of
        None \<Rightarrow> Ret PcExternal
      | Some geom \<Rightarrow>
          if cg_state geom = SpanReleased then Ret PcReleased
          else if cg_quarantined geom then Ret PcQuarantined
          else if a < cg_base geom then Ret PcExternal
          else if a < cg_object0 geom then Ret (PcInterior (cg_base geom) (a - cg_base geom))
          else if cg_object_size geom = 0 then Panic
          else let delta = a - cg_object0 geom;
                   idx = delta div cg_object_size geom;
                   remainder = delta mod cg_object_size geom
               in if cg_object_count geom \<le> idx
                  then Ret (PcInterior (cg_base geom) (a - cg_base geom))
                  else let object_base = cg_object0 geom + idx * cg_object_size geom
                       in if remainder = 0
                          then Ret (PcSmall sp (cg_sc geom) (cg_arena geom) idx)
                          else Ret (PcInterior object_base remainder))"

definition classify_in_large ::
  "bool \<Rightarrow> (addr \<Rightarrow> LargeDescriptor) \<Rightarrow> addr \<Rightarrow> addr \<Rightarrow> PointerClass" where
  "classify_in_large dbg large_at lp a =
     (case read_consistent dbg (large_at lp) of
        None \<Rightarrow> PcExternal
      | Some (base, state) \<Rightarrow>
          if state = LargeReleased then PcReleased
          else if a = base then PcLarge lp
          else PcInterior base (wrapping_sub 64 a base))"

definition classify_ptr ::
  "bool \<Rightarrow> (addr \<Rightarrow> SpanDescriptor) \<Rightarrow> (addr \<Rightarrow> LargeDescriptor) \<Rightarrow> PageMap \<Rightarrow> (addr \<Rightarrow> bool) \<Rightarrow>
     addr \<Rightarrow> PointerClass outcome" where
  "classify_ptr dbg span_at large_at pm meta a =
     (if a = 0 then Ret PcNull
      else bind_outcome (lookup pm a) (\<lambda>e.
        case e of
          Empty \<Rightarrow> Ret (if meta a then PcMetadata else PcExternal)
        | Small sp \<Rightarrow> classify_in_span dbg span_at sp a
        | Large lp \<Rightarrow> Ret (classify_in_large dbg large_at lp a)
        | Released _ \<Rightarrow> Ret PcReleased))"

datatype FreeTarget = Noop | FreeSmall addr usize | FreeLarge addr

datatype InvalidFree =
  IfInterior addr usize | Foreign | IfMetadata | IfReleased | DoubleFreeQuarantined

fun free_target :: "PointerClass \<Rightarrow> InvalidFree + FreeTarget" where
  "free_target PcNull = Inr Noop"
| "free_target (PcSmall sp c arena i) = Inr (FreeSmall sp i)"
| "free_target (PcLarge lp) = Inr (FreeLarge lp)"
| "free_target (PcInterior base offset) = Inl (IfInterior base offset)"
| "free_target PcMetadata = Inl IfMetadata"
| "free_target PcReleased = Inl IfReleased"
| "free_target PcQuarantined = Inl DoubleFreeQuarantined"
| "free_target PcExternal = Inl Foreign"

definition validate_free ::
  "bool \<Rightarrow> (addr \<Rightarrow> SpanDescriptor) \<Rightarrow> (addr \<Rightarrow> LargeDescriptor) \<Rightarrow> PageMap \<Rightarrow> (addr \<Rightarrow> bool) \<Rightarrow>
     addr \<Rightarrow> (InvalidFree + FreeTarget) outcome" where
  "validate_free dbg span_at large_at pm meta a =
     bind_outcome (classify_ptr dbg span_at large_at pm meta a) (\<lambda>c. Ret (free_target c))"

section \<open>What is accepted\<close>

text \<open>
  A live descriptor of a slab: active, not quarantined, not being rewritten, and with the
  geometry the slab layout computes.
\<close>

definition describes :: "SpanDescriptor \<Rightarrow> SlabLayout \<Rightarrow> bool" where
  "describes s l \<longleftrightarrow>
     compute (sp_sc s) (sp_base s) (sp_slab_header s) = Some l
     \<and> sp_object_count s = object_count l \<and> byte_len s = l_slab_bytes l
     \<and> sp_state s = SpanActive \<and> \<not> is_quarantined s \<and> even (sp_seq s) \<and> validate_integrity s"

lemma SEQLOCK_Suc: "SEQLOCK_RETRIES = Suc 63"
  by (simp add: SEQLOCK_RETRIES_def)

lemma geometry_rounds_even:
  assumes "even (sp_seq s)" and "validate_integrity s"
  shows "read_consistent_geometry dbg s = geometry_of s"
  unfolding read_consistent_geometry_def SEQLOCK_Suc geometry_rounds.simps using assms by simp

lemma describes_geometry:
  assumes "describes s l"
  shows "read_consistent_geometry dbg s = Some
    \<lparr>cg_base = sp_base s, cg_object0 = object0 l, cg_object_size = object_size l,
     cg_object_count = object_count l, cg_sc = sp_sc s, cg_arena = sp_arena s,
     cg_state = SpanActive, cg_quarantined = False\<rparr>"
proof -
  have c: "compute (sp_sc s) (sp_base s) (sp_slab_header s) = Some l"
    using assms by (simp add: describes_def)
  note r = compute_row [OF c]
  have row: "checked_row (sp_sc s) = Some (SIZE_CLASSES ! sp_sc s)"
    using r(1) by (simp add: checked_row_def class_count_def)
  have "checked_add (sp_base s) (sp_slab_header s) = Some (sp_base s + sp_slab_header s)"
    using c by (auto simp: compute_def bind_eq_Some_conv checked_simps)
  with row r(2,3,10) assms have "geometry_of s = Some
    \<lparr>cg_base = sp_base s, cg_object0 = object0 l, cg_object_size = object_size l,
     cg_object_count = object_count l, cg_sc = sp_sc s, cg_arena = sp_arena s,
     cg_state = SpanActive, cg_quarantined = False\<rparr>"
    by (simp add: geometry_of_def describes_def)
  then show ?thesis using geometry_rounds_even [of s dbg] assms by (simp add: describes_def)
qed

lemma classify_in_span_described:
  assumes "describes (span_at sp) l"
  shows "classify_in_span dbg span_at sp a =
    Ret (if a < sp_base (span_at sp) then PcExternal
         else case addr_to_index l a of
                Some i \<Rightarrow> PcSmall sp (sp_sc (span_at sp)) (sp_arena (span_at sp)) i
              | None \<Rightarrow>
                  if a < object0 l \<or> object_count l \<le> (a - object0 l) div object_size l
                  then PcInterior (sp_base (span_at sp)) (a - sp_base (span_at sp))
                  else PcInterior (object0 l + (a - object0 l) div object_size l * object_size l)
                         ((a - object0 l) mod object_size l))"
proof -
  have "compute (sp_sc (span_at sp)) (sp_base (span_at sp)) (sp_slab_header (span_at sp)) = Some l"
    using assms by (simp add: describes_def)
  from compute_layout_ok [OF this] have "0 < object_size l" by (simp add: layout_ok_def)
  then show ?thesis
    unfolding classify_in_span_def describes_geometry [OF assms, of dbg]
    by (auto simp: addr_to_index_def Let_def dvd_eq_mod_eq_0 split: if_splits)
qed

text \<open>
  C38. On a page that belongs to a live span, an address is accepted as the \<open>i\<close>-th object exactly
  when it is the base address the slab layout gives that object; every other address of the span
  is refused as an interior pointer; and the classification never panics.
\<close>

theorem validate_free_object_bases:
  assumes "lookup pm a = Ret (Small sp)" and "a \<noteq> 0" and "describes (span_at sp) l"
    and "sp_base (span_at sp) \<le> a"
  shows "\<exists>r. validate_free dbg span_at large_at pm meta a = Ret r
    \<and> (\<forall>i. r = Inr (FreeSmall sp i) \<longleftrightarrow> object_addr l i = Some a)
    \<and> ((\<forall>i. object_addr l i \<noteq> Some a) \<longrightarrow> (\<exists>b n. r = Inl (IfInterior b n) \<and> a = b + n))"
proof -
  have c: "compute (sp_sc (span_at sp)) (sp_base (span_at sp)) (sp_slab_header (span_at sp)) = Some l"
    using assms(3) by (simp add: describes_def)
  note ok = compute_layout_ok [OF c]
  have idx: "addr_to_index l a = Some i \<longleftrightarrow> object_addr l i = Some a" for i
    by (rule addr_to_index_iff [OF ok])
  show ?thesis
  proof (cases "addr_to_index l a")
    case (Some i)
    then have "validate_free dbg span_at large_at pm meta a = Ret (Inr (FreeSmall sp i))"
      using assms by (simp add: validate_free_def classify_ptr_def classify_in_span_described)
    moreover have "Inr (FreeSmall sp i) = Inr (FreeSmall sp j) \<longleftrightarrow> object_addr l j = Some a" for j
      using Some idx [of j] by auto
    ultimately show ?thesis using Some idx [of i] by auto
  next
    case None
    then have n: "object_addr l i \<noteq> Some a" for i using idx by simp
    have e: "a = object0 l + (a - object0 l) div object_size l * object_size l
              + (a - object0 l) mod object_size l" if "\<not> a < object0 l"
      using that by simp
    show ?thesis
      using assms None n e
      by (auto simp: validate_free_def classify_ptr_def classify_in_span_described)
  qed
qed

text \<open>A live descriptor of the slab of class 0 at the second page, and a map that finds it.\<close>

abbreviation demo_layout :: SlabLayout where
  "demo_layout \<equiv> \<lparr>object0 = 16384, object_size = 16, l_align = 16, object_count = 1024,
     l_slab_bytes = 16384\<rparr>"

lemma demo_described:
  obtains s where "describes s demo_layout" "sp_base s = 16384" "sp_page_count s = 1"
proof -
  obtain s0 :: SpanDescriptor where "sp_base s0 = 16384" "sp_page_count s0 = 1" "sp_sc s0 = 0"
    "sp_slab_header s0 = 0" "sp_seq s0 = 0" by (metis demo_new)
  then show thesis
    using slab0
    by (intro that [of "refresh_integrity (s0\<lparr>sp_object_count := 1024, sp_state := SpanActive,
            sp_flags := 0\<rparr>)"])
      (simp_all add: describes_def refresh_integrity_def validate_integrity_def compute_integrity_def
        byte_len_def PAGE_SIZE_def is_quarantined_def)
qed

lemma demo_found:
  obtains pm where "lookup pm 16400 = Ret (Small 8192)"
proof -
  obtain s :: SpanDescriptor where s: "sp_base s = 16384" "sp_page_count s = 1" by (metis demo_new)
  obtain pm' m' where i: "install_span BumpArena_alloc (BumpArena_new 4096 1048576)
      (PageMap_new (\<lambda>_ _. 0)) 8192 s = Ret (Inr (), pm', m')" using demo_install [OF s] by blast
  have b: "byte_len s = 16384" using s(2) by (simp add: byte_len_def PAGE_SIZE_def)
  have "page_word pm' 1 = PageEntry_encode (Small 8192)"
    using install_span_words(2) [OF bump.metadata_alloc_axioms demo_bump pm_inv_new _ _ i, of 1]
    by (simp add: s(1) b page_word_new page_range_def page_of_eq)
  then have "lookup pm' 16400 = Ret (Small 8192)"
    using PageEntry_roundtrip(1) [of 8192] by (simp add: lookup_eq page_of_eq)
  then show thesis by (rule that)
qed

theorem validate_free_object_bases_witness:
  "\<exists>span_at pm. lookup pm 16400 = Ret (Small 8192) \<and> describes (span_at 8192) demo_layout
     \<and> (\<forall>large_at. validate_free True span_at large_at pm NoMetadata_contains 16400
            = Ret (Inr (FreeSmall 8192 1)))"
proof -
  obtain s where s: "describes s demo_layout" "sp_base s = 16384" using demo_described by metis
  obtain pm where pm: "lookup pm 16400 = Ret (Small 8192)" using demo_found by metis
  have "object_addr demo_layout 1 = Some 16400"
    by (simp add: object_addr_def checked_mul_def checked_add_def USIZE_MAX_def)
  then have "validate_free True (\<lambda>_. s) large_at pm NoMetadata_contains 16400 = Ret (Inr (FreeSmall 8192 1))"
    for large_at
    using validate_free_object_bases [of pm 16400 8192 "\<lambda>_. s" demo_layout True large_at
        NoMetadata_contains] s pm by auto
  with s pm show ?thesis by (intro exI [of _ "\<lambda>_. s"] exI [of _ pm]) simp
qed

text \<open>
  On a page of an active large allocation exactly its base address is accepted; a released
  one is refused.
\<close>

theorem validate_free_large:
  assumes "lookup pm a = Ret (Large lp)" and "a \<noteq> 0" and "even (lg_seq (large_at lp))"
    and "lg_validate_integrity (large_at lp)"
  shows "validate_free dbg span_at large_at pm meta a =
    Ret (if lg_state (large_at lp) = LargeReleased then Inl IfReleased
         else if a = lg_base (large_at lp) then Inr (FreeLarge lp)
         else Inl (IfInterior (lg_base (large_at lp)) (wrapping_sub 64 a (lg_base (large_at lp)))))"
proof -
  have "read_consistent dbg (large_at lp) = Some (lg_base (large_at lp), lg_state (large_at lp))"
    unfolding read_consistent_def SEQLOCK_Suc large_rounds.simps using assms(3,4) by simp
  then show ?thesis using assms(1,2)
    by (simp add: validate_free_def classify_ptr_def classify_in_large_def)
qed

lemma demo_found_large:
  obtains pm where "lookup pm 16400 = Ret (Large 8192)"
proof -
  have n: "is_page 1" by simp
  obtain r pm' m' where p: "publish_range BumpArena_alloc (BumpArena_new 4096 1048576)
      (PageMap_new (\<lambda>_ _. 0)) (16384, 32768) (PageEntry_encode (Large 8192)) = Ret (r, pm', m')"
    and w: "page_word pm' 1 = (if r = Inr () \<and> 1 \<in> set (page_range 16384 32768)
              \<and> (page_word (PageMap_new (\<lambda>_ _. 0)) 1 = TAG_EMPTY
                 \<or> page_word (PageMap_new (\<lambda>_ _. 0)) 1 = PageEntry_encode (Large 8192))
           then PageEntry_encode (Large 8192) else page_word (PageMap_new (\<lambda>_ _. 0)) 1)"
    using publish_range_words [OF bump.metadata_alloc_axioms demo_bump pm_inv_new, of 32768
        "\<lambda>_ _. 0" 16384 "PageEntry_encode (Large 8192)"] by auto
  have "r = Inr ()"
  proof -
    obtain s :: SpanDescriptor where s: "sp_base s = 16384" "sp_page_count s = 1" by (metis demo_new)
    obtain pm2 m2 where "install_span BumpArena_alloc (BumpArena_new 4096 1048576)
        (PageMap_new (\<lambda>_ _. 0)) 8192 s = Ret (Inr (), pm2, m2)" using demo_install [OF s] by blast
    then obtain q where "reserve_pages BumpArena_alloc (page_range 16384 32768)
        (BumpArena_new 4096 1048576) (PageMap_new (\<lambda>_ _. 0)) = Ret (Inr (), q)"
      using s by (auto simp: install_span_def span_range_def byte_len_def PAGE_SIZE_def
          publish_range_def elim!: bind_outcome.elims split: sum.splits prod.splits)
    then show ?thesis using p
      by (auto simp: publish_range_def elim!: bind_outcome.elims split: sum.splits prod.splits)
  qed
  then have "page_word pm' 1 = PageEntry_encode (Large 8192)"
    using w by (simp add: page_word_new page_range_def page_of_eq)
  then have "lookup pm' 16400 = Ret (Large 8192)"
    using PageEntry_roundtrip(2) [of 8192] by (simp add: lookup_eq page_of_eq)
  then show thesis by (rule that)
qed

theorem validate_free_large_witness:
  "\<exists>large_at pm. lookup pm 16400 = Ret (Large 8192)
     \<and> (\<forall>span_at. validate_free True span_at large_at pm NoMetadata_contains 16400
            = Ret (Inl (IfInterior 16384 16)))"
proof -
  obtain pm where pm: "lookup pm 16400 = Ret (Large 8192)" using demo_found_large by metis
  define d where "d = LargeDescriptor_new 1 0 16384 16384 16"
  have d: "even (lg_seq d)" "lg_validate_integrity d" "lg_base d = 16384" "lg_state d = LargeActive"
    by (simp_all add: d_def LargeDescriptor_new_def lg_refresh_integrity_def lg_validate_integrity_def
        lg_compute_integrity_def)
  have "wrapping_sub 64 16400 16384 = 16" by simp
  with validate_free_large [of pm 16400 8192 "\<lambda>_. d" True] d pm
  show ?thesis by (intro exI [of _ "\<lambda>_. d"] exI [of _ pm]) simp
qed

end
