(* ===== verification/Arena.thy ===== *)
theory Arena
  imports Ids Flags "HOL-Library.Multiset"
begin

text \<open>
  \<open>crates/topo-core/src/arena.rs\<close>: the arena table. An arena is a slot of a fixed array with
  a life-cycle state, capability rights, an information-flow label, a quota and a generation;
  arenas delegate part of their quota and rights to children. Each public operation runs under
  the registry lock or is one atomic update, and is one function on the table here. The array
  \<open>[T; MAX_ARENAS]\<close> is a function on its indices, read through \<open>slot\<close>, which checks the
  bound. The compare-exchange loops on \<open>committed\<close> are the single update they perform;
  \<open>charge_step\<close> at the end interleaves their loads and exchanges.

  Shown: the quotas of the delegation tree (what a whole subtree uses stays below the limit of
  its root), attenuation of rights along the tree, the table's own self-check, that a failing
  operation changes nothing, and that a handle to a destroyed arena stays dead.
\<close>

section \<open>Life cycle, policies and errors\<close>

definition MAX_ARENAS :: nat where "MAX_ARENAS = 255"
definition QUOTA_UNLIMITED :: nat where "QUOTA_UNLIMITED = U64_MAX"
definition ARENA_NAME_LEN :: nat where "ARENA_NAME_LEN = 32"

record DecayConfig =
  dirty_decay_ms :: nat
  muzzy_decay_ms :: nat
  release_rate_bytes_per_sec :: nat
  background_purge_enabled :: bool

definition DecayConfig_DEFAULT :: DecayConfig where
  "DecayConfig_DEFAULT = \<lparr>dirty_decay_ms = 10000, muzzy_decay_ms = 10000,
     release_rate_bytes_per_sec = 0, background_purge_enabled = True\<rparr>"

definition DecayConfig_low_rss :: DecayConfig where
  "DecayConfig_low_rss = \<lparr>dirty_decay_ms = 0, muzzy_decay_ms = 0,
     release_rate_bytes_per_sec = 0, background_purge_enabled = True\<rparr>"

datatype LatencyClass = FastOnly | BoundedSlow | MayBlock

datatype ArenaState =
  Initializing | Active | Resetting | Draining | Destroyed | ErrorQuarantined

definition ArenaState_from_u8 :: "nat \<Rightarrow> ArenaState" where
  "ArenaState_from_u8 v =
     (if v = 0 then Initializing
      else if v = 1 then Active
      else if v = 2 then Resetting
      else if v = 3 then Draining
      else if v = 5 then ErrorQuarantined
      else Destroyed)"

definition is_active :: "ArenaState \<Rightarrow> bool" where
  "is_active s \<longleftrightarrow> s = Active"

definition is_terminal :: "ArenaState \<Rightarrow> bool" where
  "is_terminal s \<longleftrightarrow> s = Destroyed \<or> s = ErrorQuarantined"

fun can_transition :: "ArenaState \<Rightarrow> ArenaState \<Rightarrow> bool" where
  "can_transition Initializing Active = True"
| "can_transition Active Resetting = True"
| "can_transition Resetting Active = True"
| "can_transition Active Draining = True"
| "can_transition Draining Destroyed = True"
| "can_transition Resetting ErrorQuarantined = True"
| "can_transition Draining ErrorQuarantined = True"
| "can_transition _ _ = False"

datatype RevocationPhase = RpDraining | DrainCaches | Unmap | Revoke | Recycle | Finalize

fun RevocationPhase_next :: "RevocationPhase \<Rightarrow> RevocationPhase option" where
  "RevocationPhase_next RpDraining = Some DrainCaches"
| "RevocationPhase_next DrainCaches = Some Unmap"
| "RevocationPhase_next Unmap = Some Revoke"
| "RevocationPhase_next Revoke = Some Recycle"
| "RevocationPhase_next Recycle = Some Finalize"
| "RevocationPhase_next Finalize = None"

datatype ArenaError =
  NotFound | NotActive | AuthorityDenied | QuotaExceeded | Attenuation | Exhausted
| InvalidPolicy | IllegalTransition | IsDefault | HasLiveChildren

record ArenaPolicy =
  pol_rights :: CapRights
  pol_label :: Label
  pol_quota_limit :: nat
  pol_numa :: NumaPolicy
  pol_decay :: DecayConfig
  pol_huge :: HugepagePolicy
  pol_cache_budget_bytes :: nat
  pol_latency :: LatencyClass
  pol_name :: "nat list"

text \<open>The first \<open>ARENA_NAME_LEN\<close> bytes of a name, padded with zeros.\<close>

definition name_bytes :: "nat list \<Rightarrow> nat list" where
  "name_bytes bs =
     take ARENA_NAME_LEN bs @ replicate (ARENA_NAME_LEN - min (length bs) ARENA_NAME_LEN) 0"

definition ArenaPolicy_explicit :: ArenaPolicy where
  "ArenaPolicy_explicit =
     \<lparr>pol_rights = CapRights_ALL, pol_label = Label_PUBLIC, pol_quota_limit = QUOTA_UNLIMITED,
      pol_numa = OsDefault, pol_decay = DecayConfig_DEFAULT, pol_huge = HugeDefault,
      pol_cache_budget_bytes = 0, pol_latency = MayBlock,
      pol_name = replicate ARENA_NAME_LEN 0\<rparr>"

text \<open>The bytes of \<open>"default"\<close> followed by zeros.\<close>

definition ArenaPolicy_ambient_default :: ArenaPolicy where
  "ArenaPolicy_ambient_default =
     \<lparr>pol_rights = CapRights_ALL, pol_label = Label_PUBLIC, pol_quota_limit = QUOTA_UNLIMITED,
      pol_numa = OsDefault, pol_decay = DecayConfig_DEFAULT, pol_huge = HugeDefault,
      pol_cache_budget_bytes = 0, pol_latency = MayBlock,
      pol_name = name_bytes [100, 101, 102, 97, 117, 108, 116]\<rparr>"

definition with_name :: "ArenaPolicy \<Rightarrow> nat list \<Rightarrow> ArenaPolicy" where
  "with_name p name = p\<lparr>pol_name := name_bytes name\<rparr>"

definition with_quota :: "ArenaPolicy \<Rightarrow> nat \<Rightarrow> ArenaPolicy" where
  "with_quota p limit = p\<lparr>pol_quota_limit := limit\<rparr>"

definition with_rights :: "ArenaPolicy \<Rightarrow> CapRights \<Rightarrow> ArenaPolicy" where
  "with_rights p rights = p\<lparr>pol_rights := rights\<rparr>"

definition with_latency :: "ArenaPolicy \<Rightarrow> LatencyClass \<Rightarrow> ArenaPolicy" where
  "with_latency p latency = p\<lparr>pol_latency := latency\<rparr>"

definition with_label :: "ArenaPolicy \<Rightarrow> Label \<Rightarrow> ArenaPolicy" where
  "with_label p label = p\<lparr>pol_label := label\<rparr>"

definition with_numa :: "ArenaPolicy \<Rightarrow> NumaPolicy \<Rightarrow> ArenaPolicy" where
  "with_numa p np = p\<lparr>pol_numa := np\<rparr>"

definition with_decay :: "ArenaPolicy \<Rightarrow> DecayConfig \<Rightarrow> ArenaPolicy" where
  "with_decay p decay = p\<lparr>pol_decay := decay\<rparr>"

definition with_huge :: "ArenaPolicy \<Rightarrow> HugepagePolicy \<Rightarrow> ArenaPolicy" where
  "with_huge p huge = p\<lparr>pol_huge := huge\<rparr>"

definition with_cache_budget :: "ArenaPolicy \<Rightarrow> nat \<Rightarrow> ArenaPolicy" where
  "with_cache_budget p bytes = p\<lparr>pol_cache_budget_bytes := bytes\<rparr>"

definition ArenaPolicy_validate :: "ArenaPolicy \<Rightarrow> ArenaError + unit" where
  "ArenaPolicy_validate p = (if pol_quota_limit p = 0 then Inl InvalidPolicy else Inr ())"

record Delegation =
  del_rights :: CapRights
  del_quota_limit :: nat
  del_label :: Label
  del_numa :: NumaPolicy
  del_name :: "nat list"

definition Delegation_with_rights :: "Delegation \<Rightarrow> CapRights \<Rightarrow> Delegation" where
  "Delegation_with_rights d rights = d\<lparr>del_rights := rights\<rparr>"

record ArenaConfig =
  cfg_decay :: DecayConfig
  cfg_huge :: HugepagePolicy
  cfg_numa :: NumaPolicy
  cfg_cache_budget_bytes :: nat
  cfg_name :: "nat list"

record ArenaStats =
  st_id :: ArenaId
  st_state :: ArenaState
  st_rights :: CapRights
  st_label :: Label
  st_quota_limit :: nat
  st_used :: nat
  st_reserved :: nat
  st_generation :: Generation
  st_reset_generation :: Generation
  st_numa :: NumaPolicy
  st_decay :: DecayConfig
  st_huge :: HugepagePolicy
  st_cache_budget_bytes :: nat
  st_numa_bind_failures :: nat
  st_parent :: "ArenaId option"
  st_name :: "nat list"

definition remaining_quota :: "ArenaStats \<Rightarrow> nat" where
  "remaining_quota s =
     (if st_quota_limit s = QUOTA_UNLIMITED then QUOTA_UNLIMITED
      else saturating_sub (saturating_sub (st_quota_limit s) (st_used s)) (st_reserved s))"

definition inheriting :: "ArenaStats \<Rightarrow> nat \<Rightarrow> nat list \<Rightarrow> Delegation" where
  "inheriting parent quota_limit name =
     \<lparr>del_rights = st_rights parent, del_quota_limit = quota_limit, del_label = st_label parent,
      del_numa = st_numa parent, del_name = name_bytes name\<rparr>"

definition ArenaConfig_from_stats :: "ArenaStats \<Rightarrow> ArenaConfig" where
  "ArenaConfig_from_stats s =
     \<lparr>cfg_decay = st_decay s, cfg_huge = st_huge s, cfg_numa = st_numa s,
      cfg_cache_budget_bytes = st_cache_budget_bytes s, cfg_name = st_name s\<rparr>"

section \<open>The table\<close>

record ArenaAtomics =
  a_state :: ArenaState
  a_rights :: CapRights
  a_generation :: Generation
  a_reset_gen :: Generation
  a_committed :: nat
  a_reserved :: nat
  a_quota_limit :: nat
  a_numa_bind_failures :: nat
  a_hook_slot :: nat
  a_numa :: u64w
  a_live_children :: nat
  a_label :: Label

definition ArenaAtomics_empty :: ArenaAtomics where
  "ArenaAtomics_empty =
     \<lparr>a_state = Destroyed, a_rights = CapRights 0, a_generation = 0, a_reset_gen = 0,
      a_committed = 0, a_reserved = 0, a_quota_limit = QUOTA_UNLIMITED,
      a_numa_bind_failures = 0, a_hook_slot = 0, a_numa = NumaPolicy_encode OsDefault,
      a_live_children = 0, a_label = Label_PUBLIC\<rparr>"

record ArenaMeta =
  m_label :: Label
  m_decay :: DecayConfig
  m_huge :: HugepagePolicy
  m_cache_budget_bytes :: nat
  m_parent_plus1 :: nat
  m_parent_generation :: nat
  m_name :: "nat list"

definition ArenaMeta_empty :: ArenaMeta where
  "ArenaMeta_empty =
     \<lparr>m_label = Label_PUBLIC, m_decay = DecayConfig_DEFAULT, m_huge = HugeDefault,
      m_cache_budget_bytes = 0, m_parent_plus1 = 0, m_parent_generation = 0,
      m_name = replicate ARENA_NAME_LEN 0\<rparr>"

record ArenaTable =
  atomics :: "nat \<Rightarrow> ArenaAtomics"
  meta :: "nat \<Rightarrow> ArenaMeta"
  high_water :: nat
  t_destroyed_count :: nat

definition store_slot :: "nat \<Rightarrow> ArenaAtomics \<Rightarrow> ArenaTable \<Rightarrow> ArenaTable" where
  "store_slot i a t = t\<lparr>atomics := (atomics t)(i := a)\<rparr>"

definition store_meta :: "nat \<Rightarrow> ArenaMeta \<Rightarrow> ArenaTable \<Rightarrow> ArenaTable" where
  "store_meta i m t = t\<lparr>meta := (meta t)(i := m)\<rparr>"

definition ArenaTable_new :: ArenaTable where
  "ArenaTable_new =
     (let p = ArenaPolicy_ambient_default;
          t = \<lparr>atomics = (\<lambda>_. ArenaAtomics_empty), meta = (\<lambda>_. ArenaMeta_empty),
               high_water = 1, t_destroyed_count = 0\<rparr>;
          t = store_slot ArenaId_DEFAULT
                (ArenaAtomics_empty
                   \<lparr>a_state := Active, a_rights := pol_rights p,
                    a_generation := Generation_next Generation_FIRST,
                    a_quota_limit := pol_quota_limit p,
                    a_numa := NumaPolicy_encode (pol_numa p), a_label := pol_label p\<rparr>) t
      in store_meta ArenaId_DEFAULT
           \<lparr>m_label = pol_label p, m_decay = pol_decay p, m_huge = pol_huge p,
            m_cache_budget_bytes = pol_cache_budget_bytes p, m_parent_plus1 = 0,
            m_parent_generation = 0, m_name = pol_name p\<rparr> t)"

definition slot :: "ArenaTable \<Rightarrow> ArenaId \<Rightarrow> ArenaAtomics option" where
  "slot t arena = (if arena < MAX_ARENAS then Some (atomics t arena) else None)"

definition is_registered :: "ArenaTable \<Rightarrow> ArenaId \<Rightarrow> bool" where
  "is_registered t arena = (case slot t arena of None \<Rightarrow> False | Some a \<Rightarrow> a_state a \<noteq> Destroyed)"

definition arena_state :: "ArenaTable \<Rightarrow> ArenaId \<Rightarrow> ArenaState option" where
  "arena_state t arena = map_option a_state (slot t arena)"

definition arena_is_active :: "ArenaTable \<Rightarrow> ArenaId \<Rightarrow> bool" where
  "arena_is_active t arena = (case slot t arena of None \<Rightarrow> False | Some a \<Rightarrow> is_active (a_state a))"

type_synonym 'a arena_result = "(ArenaError + 'a) \<times> ArenaTable"

definition claim_slot_locked :: "ArenaTable \<Rightarrow> nat arena_result" where
  "claim_slot_locked t =
     (if high_water t < MAX_ARENAS
      then (Inr (high_water t), t\<lparr>high_water := high_water t + 1\<rparr>)
      else case find (\<lambda>i. a_state (atomics t i) = Destroyed) [1..<MAX_ARENAS] of
             Some i \<Rightarrow> (Inr i, t)
           | None \<Rightarrow> (Inl Exhausted, t))"

definition create_locked_inner ::
  "ArenaPolicy \<Rightarrow> nat \<Rightarrow> nat \<Rightarrow> bool \<Rightarrow> ArenaTable \<Rightarrow> ArenaId arena_result" where
  "create_locked_inner policy parent_plus1 parent_generation publish t =
     (case claim_slot_locked t of
        (Inl e, t) \<Rightarrow> (Inl e, t)
      | (Inr i, t) \<Rightarrow>
          let a = atomics t i;
              a = a\<lparr>a_generation := Generation_next (a_generation a),
                    a_reset_gen := Generation_next Generation_FIRST,
                    a_rights := pol_rights policy, a_committed := 0, a_reserved := 0,
                    a_quota_limit := pol_quota_limit policy, a_numa_bind_failures := 0,
                    a_hook_slot := 0, a_numa := NumaPolicy_encode (pol_numa policy),
                    a_label := pol_label policy, a_state := Initializing\<rparr>;
              t = store_meta i
                    \<lparr>m_label = pol_label policy, m_decay = pol_decay policy,
                     m_huge = pol_huge policy,
                     m_cache_budget_bytes = pol_cache_budget_bytes policy,
                     m_parent_plus1 = parent_plus1, m_parent_generation = parent_generation,
                     m_name = pol_name policy\<rparr> t;
              a = if publish then a\<lparr>a_state := Active\<rparr> else a
          in (Inr i, store_slot i a t))"

definition create_locked ::
  "ArenaPolicy \<Rightarrow> nat \<Rightarrow> nat \<Rightarrow> ArenaTable \<Rightarrow> ArenaId arena_result" where
  "create_locked policy parent_plus1 parent_generation t =
     create_locked_inner policy parent_plus1 parent_generation True t"

definition create :: "ArenaPolicy \<Rightarrow> ArenaTable \<Rightarrow> ArenaId arena_result" where
  "create policy t =
     (case ArenaPolicy_validate policy of
        Inl e \<Rightarrow> (Inl e, t)
      | Inr _ \<Rightarrow> create_locked policy 0 0 t)"

definition create_pending :: "ArenaPolicy \<Rightarrow> ArenaTable \<Rightarrow> ArenaId arena_result" where
  "create_pending policy t =
     (case ArenaPolicy_validate policy of
        Inl e \<Rightarrow> (Inl e, t)
      | Inr _ \<Rightarrow> create_locked_inner policy 0 0 False t)"

definition publish :: "ArenaId \<Rightarrow> ArenaTable \<Rightarrow> unit arena_result" where
  "publish arena t =
     (case slot t arena of
        None \<Rightarrow> (Inl NotFound, t)
      | Some a \<Rightarrow>
          if a_state a \<noteq> Initializing then (Inl IllegalTransition, t)
          else (Inr (), store_slot arena (a\<lparr>a_state := Active\<rparr>) t))"

definition abandon_pending :: "ArenaId \<Rightarrow> ArenaTable \<Rightarrow> unit arena_result" where
  "abandon_pending arena t =
     (case slot t arena of
        None \<Rightarrow> (Inl NotFound, t)
      | Some a \<Rightarrow>
          if a_state a \<noteq> Initializing then (Inl IllegalTransition, t)
          else (Inr (), store_slot arena
                  (a\<lparr>a_generation := Generation_next (a_generation a),
                     a_rights := CapRights 0, a_state := Destroyed\<rparr>) t))"

definition stats_locked :: "ArenaTable \<Rightarrow> ArenaId \<Rightarrow> ArenaStats option" where
  "stats_locked t arena =
     (case slot t arena of
        None \<Rightarrow> None
      | Some a \<Rightarrow>
          let m = meta t arena in
          Some \<lparr>st_id = arena, st_state = a_state a, st_rights = a_rights a,
                st_label = m_label m, st_quota_limit = a_quota_limit a,
                st_used = saturating_sub (a_committed a) (a_reserved a),
                st_reserved = a_reserved a, st_generation = a_generation a,
                st_reset_generation = a_reset_gen a, st_numa = NumaPolicy_decode (a_numa a),
                st_decay = m_decay m, st_huge = m_huge m,
                st_cache_budget_bytes = m_cache_budget_bytes m,
                st_numa_bind_failures = a_numa_bind_failures a,
                st_parent = (if m_parent_plus1 m = 0 then None else Some (m_parent_plus1 m - 1)),
                st_name = m_name m\<rparr>)"

section \<open>Quota\<close>

definition try_charge :: "ArenaId \<Rightarrow> nat \<Rightarrow> ArenaTable \<Rightarrow> unit arena_result" where
  "try_charge arena n t =
     (case slot t arena of
        None \<Rightarrow> (Inl NotFound, t)
      | Some a \<Rightarrow>
          if \<not> is_active (a_state a) then (Inl NotActive, t)
          else if \<not> CapRights_contains (a_rights a) CapRights_ALLOC then (Inl AuthorityDenied, t)
          else case checked_add (a_committed a) n of
                 None \<Rightarrow> (Inl QuotaExceeded, t)
               | Some next \<Rightarrow>
                   if a_quota_limit a < next then (Inl QuotaExceeded, t)
                   else (Inr (), store_slot arena (a\<lparr>a_committed := next\<rparr>) t))"

definition credit :: "ArenaId \<Rightarrow> nat \<Rightarrow> ArenaTable \<Rightarrow> ArenaTable" where
  "credit arena n t =
     (case slot t arena of
        None \<Rightarrow> t
      | Some a \<Rightarrow> store_slot arena (a\<lparr>a_committed := saturating_sub (a_committed a) n\<rparr>) t)"

definition reserve_child_quota_locked :: "ArenaId \<Rightarrow> nat \<Rightarrow> ArenaTable \<Rightarrow> unit arena_result" where
  "reserve_child_quota_locked parent amount t =
     (case slot t parent of
        None \<Rightarrow> (Inl NotFound, t)
      | Some a \<Rightarrow>
          (case checked_add (a_committed a) amount of
             None \<Rightarrow> (Inl Attenuation, t)
           | Some next \<Rightarrow>
               if a_quota_limit a < next then (Inl Attenuation, t)
               else (Inr (), store_slot parent
                       (a\<lparr>a_committed := next,
                          a_reserved := wrapping_add 64 (a_reserved a) amount\<rparr>) t)))"

definition release_child_quota_locked :: "ArenaId \<Rightarrow> nat \<Rightarrow> ArenaTable \<Rightarrow> ArenaTable" where
  "release_child_quota_locked parent amount t =
     (case slot t parent of
        None \<Rightarrow> t
      | Some a \<Rightarrow> store_slot parent
          (a\<lparr>a_committed := saturating_sub (a_committed a) amount,
             a_reserved := saturating_sub (a_reserved a) amount\<rparr>) t)"

definition return_reservation_to_parent_locked :: "ArenaId \<Rightarrow> ArenaTable \<Rightarrow> ArenaTable" where
  "return_reservation_to_parent_locked child t =
     (let m = meta t child in
      if m_parent_plus1 m = 0 then t
      else let parent = m_parent_plus1 m - 1 in
        case slot t parent of
          None \<Rightarrow> t
        | Some pa \<Rightarrow>
            if a_generation pa \<noteq> m_parent_generation m then t
            else let t = store_slot parent
                           (pa\<lparr>a_live_children := saturating_sub (a_live_children pa) 1\<rparr>) t in
              if a_quota_limit pa = QUOTA_UNLIMITED then t
              else case slot t child of
                     None \<Rightarrow> t
                   | Some ca \<Rightarrow>
                       if a_quota_limit ca = QUOTA_UNLIMITED then t
                       else release_child_quota_locked parent (a_quota_limit ca) t)"

definition delegate_locked :: "ArenaId \<Rightarrow> Delegation \<Rightarrow> ArenaTable \<Rightarrow> ArenaId arena_result" where
  "delegate_locked parent del t =
     (case stats_locked t parent of
        None \<Rightarrow> (Inl NotFound, t)
      | Some pstats \<Rightarrow>
          if \<not> is_active (st_state pstats) then (Inl NotActive, t)
          else if \<not> CapRights_attenuates (del_rights del) (st_rights pstats)
          then (Inl Attenuation, t)
          else if remaining_quota pstats < del_quota_limit del then (Inl Attenuation, t)
          else if del_label del \<noteq> st_label pstats then (Inl Attenuation, t)
          else
            let policy = \<lparr>pol_rights = del_rights del, pol_label = del_label del,
                          pol_quota_limit = del_quota_limit del, pol_numa = del_numa del,
                          pol_decay = DecayConfig_DEFAULT, pol_huge = HugeDefault,
                          pol_cache_budget_bytes = 0, pol_latency = MayBlock,
                          pol_name = del_name del\<rparr>;
                parent_finite = (st_quota_limit pstats \<noteq> QUOTA_UNLIMITED)
            in case ArenaPolicy_validate policy of
                 Inl e \<Rightarrow> (Inl e, t)
               | Inr _ \<Rightarrow>
                 (case (if parent_finite
                        then reserve_child_quota_locked parent (del_quota_limit del) t
                        else (Inr (), t)) of
                    (Inl e, t) \<Rightarrow> (Inl e, t)
                  | (Inr _, t) \<Rightarrow>
                    (case create_locked policy (parent + 1) (st_generation pstats) t of
                       (Inr child, t) \<Rightarrow>
                         (case slot t parent of
                            None \<Rightarrow> (Inr child, t)
                          | Some pa \<Rightarrow> (Inr child, store_slot parent
                              (pa\<lparr>a_live_children :=
                                    wrapping_add 32 (a_live_children pa) 1\<rparr>) t))
                     | (Inl e, t) \<Rightarrow>
                         (Inl e, if parent_finite
                                 then release_child_quota_locked parent (del_quota_limit del) t
                                 else t))))"

definition delegate :: "ArenaId \<Rightarrow> Delegation \<Rightarrow> ArenaTable \<Rightarrow> ArenaId arena_result" where
  "delegate parent del t = delegate_locked parent del t"

section \<open>Life-cycle transitions\<close>

definition transition_locked :: "ArenaId \<Rightarrow> ArenaState \<Rightarrow> ArenaTable \<Rightarrow> unit arena_result" where
  "transition_locked arena to t =
     (case slot t arena of
        None \<Rightarrow> (Inl NotFound, t)
      | Some a \<Rightarrow>
          if \<not> can_transition (a_state a) to then (Inl IllegalTransition, t)
          else (Inr (), store_slot arena (a\<lparr>a_state := to\<rparr>) t))"

definition begin_reset :: "ArenaId \<Rightarrow> ArenaTable \<Rightarrow> unit arena_result" where
  "begin_reset arena t =
     (if arena = ArenaId_DEFAULT then (Inl IsDefault, t)
      else transition_locked arena Resetting t)"

definition finish_reset :: "ArenaId \<Rightarrow> ArenaTable \<Rightarrow> Generation arena_result" where
  "finish_reset arena t =
     (case slot t arena of
        None \<Rightarrow> (Inl NotFound, t)
      | Some a \<Rightarrow>
          if \<not> can_transition (a_state a) Active then (Inl IllegalTransition, t)
          else let reset_gen = Generation_next (a_reset_gen a) in
            (Inr reset_gen, store_slot arena
               (a\<lparr>a_committed := a_reserved a, a_reset_gen := reset_gen, a_state := Active\<rparr>) t))"

definition begin_destroy :: "ArenaId \<Rightarrow> ArenaTable \<Rightarrow> unit arena_result" where
  "begin_destroy arena t =
     (if arena = ArenaId_DEFAULT then (Inl IsDefault, t)
      else case slot t arena of
             None \<Rightarrow> (Inl NotFound, t)
           | Some a \<Rightarrow>
               if a_live_children a \<noteq> 0 then (Inl HasLiveChildren, t)
               else transition_locked arena Draining t)"

definition finish_destroy :: "ArenaId \<Rightarrow> ArenaTable \<Rightarrow> Generation arena_result" where
  "finish_destroy arena t =
     (case slot t arena of
        None \<Rightarrow> (Inl NotFound, t)
      | Some a \<Rightarrow>
          if \<not> can_transition (a_state a) Destroyed then (Inl IllegalTransition, t)
          else let t = return_reservation_to_parent_locked arena t;
                   a = atomics t arena;
                   gen = Generation_next (a_generation a);
                   t = store_slot arena
                         (a\<lparr>a_committed := 0, a_reserved := 0, a_rights := CapRights 0,
                            a_generation := gen, a_state := Destroyed\<rparr>) t
               in (Inr gen, t\<lparr>t_destroyed_count := wrapping_add 64 (t_destroyed_count t) 1\<rparr>))"

definition quarantine :: "ArenaId \<Rightarrow> ArenaTable \<Rightarrow> unit arena_result" where
  "quarantine arena t =
     (case slot t arena of
        None \<Rightarrow> (Inl NotFound, t)
      | Some a \<Rightarrow>
          if \<not> can_transition (a_state a) ErrorQuarantined then (Inl IllegalTransition, t)
          else (Inr (), store_slot arena
                  (a\<lparr>a_committed := a_reserved a, a_state := ErrorQuarantined\<rparr>) t))"

section \<open>Configuration, statistics and handles\<close>

definition record_numa_bind_failure :: "ArenaId \<Rightarrow> ArenaTable \<Rightarrow> ArenaTable" where
  "record_numa_bind_failure arena t =
     (case slot t arena of
        None \<Rightarrow> t
      | Some a \<Rightarrow> store_slot arena
          (a\<lparr>a_numa_bind_failures := wrapping_add 64 (a_numa_bind_failures a) 1\<rparr>) t)"

definition hook_slot_of :: "ArenaTable \<Rightarrow> ArenaId \<Rightarrow> nat" where
  "hook_slot_of t arena = (case slot t arena of None \<Rightarrow> 0 | Some a \<Rightarrow> a_hook_slot a)"

definition set_hook_slot :: "ArenaId \<Rightarrow> nat \<Rightarrow> ArenaTable \<Rightarrow> ArenaTable" where
  "set_hook_slot arena slot_plus1 t =
     (case slot t arena of
        None \<Rightarrow> t
      | Some a \<Rightarrow> store_slot arena (a\<lparr>a_hook_slot := slot_plus1\<rparr>) t)"

definition numa_of :: "ArenaTable \<Rightarrow> ArenaId \<Rightarrow> NumaPolicy" where
  "numa_of t arena =
     (case slot t arena of None \<Rightarrow> OsDefault | Some a \<Rightarrow> NumaPolicy_decode (a_numa a))"

definition label_of :: "ArenaTable \<Rightarrow> ArenaId \<Rightarrow> Label" where
  "label_of t arena = (case slot t arena of None \<Rightarrow> Label_PUBLIC | Some a \<Rightarrow> a_label a)"

definition configure :: "ArenaId \<Rightarrow> ArenaConfig \<Rightarrow> ArenaTable \<Rightarrow> unit arena_result" where
  "configure arena cfg t =
     (case slot t arena of
        None \<Rightarrow> (Inl NotFound, t)
      | Some a \<Rightarrow>
          if a_state a = Destroyed then (Inl NotFound, t)
          else let t = store_slot arena (a\<lparr>a_numa := NumaPolicy_encode (cfg_numa cfg)\<rparr>) t in
            (Inr (), store_meta arena
               ((meta t arena)\<lparr>m_decay := cfg_decay cfg, m_huge := cfg_huge cfg,
                  m_cache_budget_bytes := cfg_cache_budget_bytes cfg, m_name := cfg_name cfg\<rparr>) t))"

definition handle :: "ArenaTable \<Rightarrow> ArenaId \<Rightarrow> u64w option" where
  "handle t arena =
     (case stats_locked t arena of
        None \<Rightarrow> None
      | Some s \<Rightarrow>
          if st_state s = Destroyed then None
          else Some (push_bit 32 (of_nat (st_generation s)) OR of_nat arena))"

definition resolve_handle :: "ArenaTable \<Rightarrow> u64w \<Rightarrow> ArenaId option" where
  "resolve_handle t h =
     (let i = unat (h AND 0xFFFFFFFF); gen = unat (drop_bit 32 h) in
      case stats_locked t i of
        None \<Rightarrow> None
      | Some s \<Rightarrow>
          if st_state s \<noteq> Destroyed \<and> st_generation s = gen then Some i else None)"

definition total_numa_bind_failures :: "ArenaTable \<Rightarrow> nat" where
  "total_numa_bind_failures t =
     foldl (wrapping_add 64) 0
       (map (\<lambda>i. a_numa_bind_failures (atomics t i)) [0..<high_water t])"

definition live_count :: "ArenaTable \<Rightarrow> nat" where
  "live_count t =
     length (filter (\<lambda>i. a_state (atomics t i) \<noteq> Destroyed) [0..<high_water t])"

definition quarantined_count :: "ArenaTable \<Rightarrow> nat" where
  "quarantined_count t =
     length (filter (\<lambda>i. a_state (atomics t i) = ErrorQuarantined) [0..<high_water t])"

definition check_slot :: "ArenaAtomics \<Rightarrow> bool" where
  "check_slot a \<longleftrightarrow>
     \<not> a_committed a > a_quota_limit a
     \<and> \<not> (is_terminal (a_state a) \<and> saturating_sub (a_committed a) (a_reserved a) \<noteq> 0)
     \<and> \<not> (a_state a \<noteq> Destroyed \<and> a_generation a = 0)"

definition check_invariants :: "ArenaTable \<Rightarrow> bool" where
  "check_invariants t \<longleftrightarrow>
     is_registered t ArenaId_DEFAULT \<and> \<not> high_water t > MAX_ARENAS
     \<and> list_all (\<lambda>i. check_slot (atomics t i)) [0..<high_water t]"

section \<open>The invariant of the delegation tree\<close>

text \<open>
  The live children of an arena, and what the counters of a slot say about them: a finite
  parent has reserved exactly the limits of its live children, and counts them all.
\<close>

definition children :: "ArenaTable \<Rightarrow> ArenaId \<Rightarrow> ArenaId set" where
  "children t i =
     {c. c < MAX_ARENAS \<and> a_state (atomics t c) \<noteq> Destroyed
         \<and> m_parent_plus1 (meta t c) = Suc i}"

definition slot_ok :: "ArenaAtomics \<Rightarrow> bool" where
  "slot_ok a \<longleftrightarrow>
     a_reserved a \<le> a_committed a \<and> a_committed a \<le> a_quota_limit a
     \<and> a_quota_limit a \<le> U64_MAX \<and> is_u32 (a_generation a)
     \<and> (a_state a \<noteq> Destroyed \<longrightarrow> a_generation a \<noteq> 0)
     \<and> (is_terminal (a_state a) \<or> a_state a = Initializing \<longrightarrow> a_committed a = a_reserved a)
     \<and> (a_state a \<in> {Initializing, Draining, Destroyed} \<longrightarrow> a_live_children a = 0)"

definition quota_ok :: "ArenaTable \<Rightarrow> ArenaId \<Rightarrow> bool" where
  "quota_ok t i \<longleftrightarrow>
     a_live_children (atomics t i) = card (children t i)
     \<and> a_reserved (atomics t i) =
         (if a_quota_limit (atomics t i) = QUOTA_UNLIMITED then 0
          else \<Sum>c\<in>children t i. a_quota_limit (atomics t c))"

text \<open>A live delegated arena has a live parent of the recorded generation, and attenuates it.\<close>

definition link_ok :: "ArenaTable \<Rightarrow> ArenaId \<Rightarrow> bool" where
  "link_ok t c \<longleftrightarrow>
     a_state (atomics t c) \<noteq> Destroyed \<longrightarrow>
       a_label (atomics t c) = m_label (meta t c)
       \<and> (a_state (atomics t c) = Initializing \<longrightarrow> m_parent_plus1 (meta t c) = 0)
       \<and> (\<forall>p. m_parent_plus1 (meta t c) = Suc p \<longrightarrow>
            p < MAX_ARENAS \<and> p \<noteq> c \<and> a_state (atomics t p) \<noteq> Destroyed
            \<and> a_generation (atomics t p) = m_parent_generation (meta t c)
            \<and> CapRights_attenuates (a_rights (atomics t c)) (a_rights (atomics t p))
            \<and> m_label (meta t c) = m_label (meta t p))"

definition arena_wf :: "ArenaTable \<Rightarrow> bool" where
  "arena_wf t \<longleftrightarrow>
     1 \<le> high_water t \<and> high_water t \<le> MAX_ARENAS
     \<and> a_state (atomics t ArenaId_DEFAULT) = Active
     \<and> (\<forall>i < MAX_ARENAS. slot_ok (atomics t i) \<and> quota_ok t i \<and> link_ok t i
          \<and> (high_water t \<le> i \<longrightarrow> a_state (atomics t i) = Destroyed))"

lemma finite_children [simp, intro]: "finite (children t i)"
  by (rule finite_subset [of _ "{..<MAX_ARENAS}"]) (auto simp: children_def)

lemma children_less: "c \<in> children t i \<Longrightarrow> c < MAX_ARENAS"
  by (simp add: children_def)

lemma arena_wfD:
  assumes "arena_wf t" and "i < MAX_ARENAS"
  shows "slot_ok (atomics t i)" and "quota_ok t i" and "link_ok t i"
    and "high_water t \<le> i \<Longrightarrow> a_state (atomics t i) = Destroyed"
  using assms by (auto simp: arena_wf_def)

lemma no_children:
  assumes "arena_wf t" and "i < MAX_ARENAS" and "a_live_children (atomics t i) = 0"
  shows "children t i = {}" and "a_reserved (atomics t i) = 0"
  using arena_wfD(2) [OF assms(1,2)] assms(3) by (auto simp: quota_ok_def)

lemma not_own_child:
  assumes "arena_wf t" and "i < MAX_ARENAS"
  shows "i \<notin> children t i"
  using arena_wfD(3) [OF assms] by (auto simp: children_def link_ok_def)

text \<open>
  An update that leaves the book-keeping of every slot alone (rights, generation, limit,
  reservation, child count, parent link, and whether it is live) keeps the invariant.
\<close>

definition same_books :: "ArenaAtomics \<Rightarrow> ArenaAtomics \<Rightarrow> bool" where
  "same_books a b \<longleftrightarrow>
     a_rights b = a_rights a \<and> a_generation b = a_generation a
     \<and> a_quota_limit b = a_quota_limit a \<and> a_reserved b = a_reserved a
     \<and> a_live_children b = a_live_children a \<and> a_label b = a_label a
     \<and> (a_state b = Destroyed \<longleftrightarrow> a_state a = Destroyed)
     \<and> (a_state b = Initializing \<longrightarrow> a_state a = Initializing)"

definition same_link :: "ArenaMeta \<Rightarrow> ArenaMeta \<Rightarrow> bool" where
  "same_link m n \<longleftrightarrow>
     m_parent_plus1 n = m_parent_plus1 m \<and> m_parent_generation n = m_parent_generation m
     \<and> m_label n = m_label m"

lemma same_books_refl [simp]: "same_books a a"
  by (simp add: same_books_def)

lemma same_link_refl [simp]: "same_link m m"
  by (simp add: same_link_def)

lemma arena_wf_same_books:
  assumes wf: "arena_wf t"
    and hw: "high_water t' = high_water t"
    and books: "\<And>j. j < MAX_ARENAS \<Longrightarrow> same_books (atomics t j) (atomics t' j)"
    and link: "\<And>j. j < MAX_ARENAS \<Longrightarrow> same_link (meta t j) (meta t' j)"
    and ok: "\<And>j. j < MAX_ARENAS \<Longrightarrow> slot_ok (atomics t' j)"
    and dflt: "a_state (atomics t' ArenaId_DEFAULT) = Active"
  shows "arena_wf t'"
proof -
  have ch: "children t' i = children t i" for i
    using books link by (auto simp: children_def same_books_def same_link_def)
  have q: "quota_ok t' i" if "i < MAX_ARENAS" for i
  proof -
    have "(\<Sum>c\<in>children t i. a_quota_limit (atomics t' c))
            = (\<Sum>c\<in>children t i. a_quota_limit (atomics t c))"
      by (rule sum.cong) (use books children_less in \<open>auto simp: same_books_def\<close>)
    then show ?thesis
      using arena_wfD(2) [OF wf that] books [OF that]
      by (simp add: quota_ok_def ch same_books_def)
  qed
  have l: "link_ok t' i" if "i < MAX_ARENAS" for i
    using arena_wfD(3) [OF wf that] books [OF that] link [OF that] books link
    unfolding link_ok_def same_books_def same_link_def by metis
  have d: "a_state (atomics t' i) = Destroyed" if "i < MAX_ARENAS" "high_water t \<le> i" for i
    using arena_wfD(4) [OF wf that] books [OF that(1)] by (simp add: same_books_def)
  show ?thesis
    using wf ok dflt q l d unfolding arena_wf_def hw by simp
qed

lemma arena_wf_store:
  assumes wf: "arena_wf t" and i: "i < MAX_ARENAS"
    and "same_books (atomics t i) a" and "slot_ok a"
    and "i = ArenaId_DEFAULT \<Longrightarrow> a_state a = Active"
  shows "arena_wf (store_slot i a t)"
  by (rule arena_wf_same_books [OF wf])
    (use assms arena_wfD(1) [OF wf] in \<open>auto simp: store_slot_def arena_wf_def\<close>)

text \<open>
  A new arena in a free slot \<open>i\<close>, with the link \<open>m\<close>: the parent it names, if any, reserves
  the new limit and counts one more child.
\<close>

definition parent_share :: "ArenaAtomics \<Rightarrow> nat \<Rightarrow> nat" where
  "parent_share pa limit = (if a_quota_limit pa = QUOTA_UNLIMITED then 0 else limit)"

definition adopt :: "ArenaAtomics \<Rightarrow> nat \<Rightarrow> ArenaAtomics" where
  "adopt pa limit =
     pa\<lparr>a_committed := a_committed pa + parent_share pa limit,
        a_reserved := a_reserved pa + parent_share pa limit,
        a_live_children := Suc (a_live_children pa)\<rparr>"

definition disown :: "ArenaAtomics \<Rightarrow> nat \<Rightarrow> ArenaAtomics" where
  "disown pa limit =
     pa\<lparr>a_live_children := a_live_children pa - 1,
        a_committed := a_committed pa - parent_share pa limit,
        a_reserved := a_reserved pa - parent_share pa limit\<rparr>"

lemma adopt_sel [simp]:
  "a_state (adopt pa l) = a_state pa" "a_rights (adopt pa l) = a_rights pa"
  "a_generation (adopt pa l) = a_generation pa" "a_quota_limit (adopt pa l) = a_quota_limit pa"
  "a_label (adopt pa l) = a_label pa"
  "a_live_children (adopt pa l) = Suc (a_live_children pa)"
  "a_reserved (adopt pa l) = a_reserved pa + parent_share pa l"
  "a_committed (adopt pa l) = a_committed pa + parent_share pa l"
  by (simp_all add: adopt_def)

lemma disown_sel [simp]:
  "a_state (disown pa l) = a_state pa" "a_rights (disown pa l) = a_rights pa"
  "a_generation (disown pa l) = a_generation pa" "a_quota_limit (disown pa l) = a_quota_limit pa"
  "a_label (disown pa l) = a_label pa"
  "a_live_children (disown pa l) = a_live_children pa - 1"
  "a_reserved (disown pa l) = a_reserved pa - parent_share pa l"
  "a_committed (disown pa l) = a_committed pa - parent_share pa l"
  by (simp_all add: disown_def)

lemma slot_ok_adopt:
  assumes "slot_ok a" and "a_state a = Active" and "a_committed a + parent_share a l \<le> a_quota_limit a"
  shows "slot_ok (adopt a l)"
  using assms unfolding slot_ok_def by (simp add: is_terminal_def)

lemma slot_ok_disown:
  assumes "slot_ok a"
  shows "slot_ok (disown a l)"
proof -
  have "a_reserved a - parent_share a l \<le> a_committed a - parent_share a l"
    and "a_committed a - parent_share a l \<le> a_quota_limit a"
    using assms by (auto simp: slot_ok_def)
  then show ?thesis using assms unfolding slot_ok_def disown_sel by simp
qed

lemma arena_wf_add:
  assumes wf: "arena_wf t" and i: "i < MAX_ARENAS" and free: "a_state (atomics t i) = Destroyed"
    and live: "a_state a \<noteq> Destroyed" and lab: "a_label a = m_label m"
    and pend: "a_state a = Initializing \<Longrightarrow> m_parent_plus1 m = 0"
    and fresh: "a_live_children a = 0" "a_reserved a = 0" and ok: "slot_ok a"
    and at: "\<And>j. j < MAX_ARENAS \<Longrightarrow> atomics t' j =
          (if j = i then a
           else if m_parent_plus1 m = Suc j then adopt (atomics t j) (a_quota_limit a)
           else atomics t j)"
    and mt: "meta t' = (meta t)(i := m)"
    and hw: "high_water t \<le> high_water t'" "i < high_water t'" "high_water t' \<le> MAX_ARENAS"
    and parent: "\<And>p. m_parent_plus1 m = Suc p \<Longrightarrow>
          p < MAX_ARENAS \<and> p \<noteq> i \<and> a_state (atomics t p) = Active
          \<and> a_generation (atomics t p) = m_parent_generation m
          \<and> CapRights_attenuates (a_rights a) (a_rights (atomics t p))
          \<and> m_label m = m_label (meta t p)
          \<and> a_committed (atomics t p) + parent_share (atomics t p) (a_quota_limit a)
              \<le> a_quota_limit (atomics t p)"
  shows "arena_wf t'"
proof -
  have i0: "i \<noteq> ArenaId_DEFAULT" using wf free by (auto simp: arena_wf_def)
  have none: "children t i = {}"
    by (rule no_children [OF wf i]) (use arena_wfD(1) [OF wf i] free in \<open>simp add: slot_ok_def\<close>)
  have i_out: "i \<notin> children t j" for j using free by (simp add: children_def)
  have st: "a_state (atomics t' j) = (if j = i then a_state a else a_state (atomics t j))"
    and gn: "j \<noteq> i \<Longrightarrow> a_generation (atomics t' j) = a_generation (atomics t j)"
    and rt: "j \<noteq> i \<Longrightarrow> a_rights (atomics t' j) = a_rights (atomics t j)"
    and lb: "j \<noteq> i \<Longrightarrow> a_label (atomics t' j) = a_label (atomics t j)"
    if "j < MAX_ARENAS" for j using at [OF that] by simp_all
  have ch: "children t' j = (if m_parent_plus1 m = Suc j then insert i (children t j) else children t j)"
    for j using st live i free by (auto simp: children_def mt)
  have lim: "a_quota_limit (atomics t' c) = a_quota_limit (atomics t c)"
    if "c < MAX_ARENAS" "c \<noteq> i" for c using at [OF that(1)] that(2) by simp
  have sum: "(\<Sum>c\<in>children t j. a_quota_limit (atomics t' c))
               = (\<Sum>c\<in>children t j. a_quota_limit (atomics t c))" for j
    by (rule sum.cong) (use lim i_out children_less in \<open>auto, metis\<close>)
  have q: "quota_ok t' j" if j: "j < MAX_ARENAS" for j
    using arena_wfD(2) [OF wf j] at [OF j] at [OF i] parent [of j] none i_out [of j] sum [of j] fresh
    by (auto simp: quota_ok_def ch parent_share_def)
  have s: "slot_ok (atomics t' j)" if j: "j < MAX_ARENAS" for j
    using slot_ok_adopt [OF arena_wfD(1) [OF wf j]] arena_wfD(1) [OF wf j] at [OF j] ok parent [of j]
    by simp
  have l: "link_ok t' j" if j: "j < MAX_ARENAS" for j
  proof (cases "j = i")
    case True
    then show ?thesis using at i lab pend parent by (auto simp: link_ok_def mt)
  next
    case False
    have pi: "p \<noteq> i" if "a_state (atomics t p) \<noteq> Destroyed" for p using that free by auto
    have m: "meta t' j = meta t j" "\<And>p. a_state (atomics t p) \<noteq> Destroyed \<Longrightarrow> meta t' p = meta t p"
      using pi False by (simp_all add: mt)
    show ?thesis
      using arena_wfD(3) [OF wf j] unfolding link_ok_def m(1) st [OF j] if_not_P [OF False]
      by (auto simp: m(2) pi st gn rt lb j False)
  qed
  have d: "a_state (atomics t' j) = Destroyed" if "j < MAX_ARENAS" "high_water t' \<le> j" for j
    using arena_wfD(4) [OF wf that(1)] at [OF that(1)] that(2) hw by auto
  have "a_state (atomics t' ArenaId_DEFAULT) = Active"
    using at [of ArenaId_DEFAULT] i0 wf by (simp add: arena_wf_def MAX_ARENAS_def ArenaId_DEFAULT_def)
  then show ?thesis
    using wf hw q s l d by (auto simp: arena_wf_def)
qed

lemma arena_wf_remove:
  assumes wf: "arena_wf t" and i: "i < MAX_ARENAS" and i0: "i \<noteq> ArenaId_DEFAULT"
    and live: "a_state (atomics t i) \<noteq> Destroyed" and leaf: "a_live_children (atomics t i) = 0"
    and dead: "a_state a = Destroyed" "a_live_children a = 0" "a_reserved a = 0"
    and ok: "slot_ok a"
    and at: "\<And>j. j < MAX_ARENAS \<Longrightarrow> atomics t' j =
          (if j = i then a
           else if m_parent_plus1 (meta t i) = Suc j
           then disown (atomics t j) (a_quota_limit (atomics t i))
           else atomics t j)"
    and mt: "meta t' = meta t" and hw: "high_water t' = high_water t"
  shows "arena_wf t'"
proof -
  have none: "children t i = {}" by (rule no_children [OF wf i leaf])
  have st: "a_state (atomics t' j) = (if j = i then a_state a else a_state (atomics t j))"
    and gn: "j \<noteq> i \<Longrightarrow> a_generation (atomics t' j) = a_generation (atomics t j)"
    and rt: "j \<noteq> i \<Longrightarrow> a_rights (atomics t' j) = a_rights (atomics t j)"
    and lb: "j \<noteq> i \<Longrightarrow> a_label (atomics t' j) = a_label (atomics t j)"
    if "j < MAX_ARENAS" for j using at [OF that] by simp_all
  have ch: "children t' j = children t j - {i}" for j
    using st dead(1) live i by (auto simp: children_def mt split: if_splits)
  have mem: "i \<in> children t j \<longleftrightarrow> m_parent_plus1 (meta t i) = Suc j" for j
    using i live by (simp add: children_def)
  have lim: "a_quota_limit (atomics t' c) = a_quota_limit (atomics t c)"
    if "c < MAX_ARENAS" "c \<noteq> i" for c using at [OF that(1)] that(2) by simp
  have sum: "(\<Sum>c\<in>children t j - {i}. a_quota_limit (atomics t' c))
               = (\<Sum>c\<in>children t j - {i}. a_quota_limit (atomics t c))" for j
    by (rule sum.cong) (use lim children_less in auto)
  have q: "quota_ok t' j" if j: "j < MAX_ARENAS" for j
  proof (cases "j = i")
    case True
    then show ?thesis using at [OF i] dead none by (simp add: quota_ok_def ch)
  next
    case False
    then show ?thesis
      using arena_wfD(2) [OF wf j] at [OF j] mem [of j] sum [of j]
      by (auto simp: quota_ok_def ch parent_share_def card_Diff_singleton sum_diff1_nat)
  qed
  have s: "slot_ok (atomics t' j)" if j: "j < MAX_ARENAS" for j
    using slot_ok_disown [OF arena_wfD(1) [OF wf j]] arena_wfD(1) [OF wf j] at [OF j] ok by simp
  have l: "link_ok t' j" if j: "j < MAX_ARENAS" for j
  proof (cases "j = i")
    case True
    then show ?thesis using at [OF i] dead by (simp add: link_ok_def)
  next
    case False
    have "p \<noteq> i" if "m_parent_plus1 (meta t j) = Suc p" "a_state (atomics t j) \<noteq> Destroyed" for p
      using that j none by (auto simp: children_def)
    then show ?thesis
      using arena_wfD(3) [OF wf j] st gn rt lb j False unfolding link_ok_def mt by metis
  qed
  have d: "a_state (atomics t' j) = Destroyed" if "j < MAX_ARENAS" "high_water t' \<le> j" for j
    using arena_wfD(4) [OF wf that(1)] at [OF that(1)] that(2) hw dead by auto
  have "a_state (atomics t' ArenaId_DEFAULT) = Active"
    using at [of ArenaId_DEFAULT] i0 wf by (simp add: arena_wf_def MAX_ARENAS_def ArenaId_DEFAULT_def)
  then show ?thesis
    using wf hw q s l d by (auto simp: arena_wf_def)
qed

section \<open>Every operation keeps the invariant\<close>

definition hw_ok :: "ArenaTable \<Rightarrow> bool" where
  "hw_ok t \<longleftrightarrow> high_water t \<le> MAX_ARENAS
     \<and> (\<forall>i < MAX_ARENAS. high_water t \<le> i \<longrightarrow> a_state (atomics t i) = Destroyed)"

lemma arena_wf_hw_ok: "arena_wf t \<Longrightarrow> hw_ok t"
  by (simp add: arena_wf_def hw_ok_def)

lemma hw_ok_store_slot:
  "hw_ok t \<Longrightarrow> a_state a = a_state (atomics t i) \<Longrightarrow> hw_ok (store_slot i a t)"
  by (simp add: hw_ok_def store_slot_def)

lemma claim_slot_locked_cases:
  assumes wf: "hw_ok t" and c: "claim_slot_locked t = (r, t')"
  obtains (full) "r = Inl Exhausted" "t' = t"
  | (free) i hw where "r = Inr i" "t' = t\<lparr>high_water := hw\<rparr>" "i < MAX_ARENAS"
      "a_state (atomics t i) = Destroyed" "high_water t \<le> hw" "i < hw" "hw \<le> MAX_ARENAS"
proof (cases "high_water t < MAX_ARENAS")
  case True
  with c wf show ?thesis
    by (intro free [of "high_water t" "high_water t + 1"])
      (auto simp: claim_slot_locked_def hw_ok_def)
next
  case False
  then have hw: "high_water t = MAX_ARENAS" using wf by (simp add: hw_ok_def)
  show ?thesis
  proof (cases "find (\<lambda>i. a_state (atomics t i) = Destroyed) [1..<MAX_ARENAS]")
    case None
    with c False show ?thesis by (intro full) (auto simp: claim_slot_locked_def)
  next
    case (Some i)
    then have "a_state (atomics t i) = Destroyed" "i < MAX_ARENAS"
      by (auto simp: find_Some_iff)
    with c False Some hw show ?thesis
      by (intro free [of i MAX_ARENAS]) (auto simp: claim_slot_locked_def)
  qed
qed

text \<open>What a created slot holds.\<close>

definition created :: "ArenaPolicy \<Rightarrow> bool \<Rightarrow> ArenaAtomics \<Rightarrow> ArenaAtomics" where
  "created policy pub a =
     a\<lparr>a_generation := Generation_next (a_generation a),
       a_reset_gen := Generation_next Generation_FIRST,
       a_rights := pol_rights policy, a_committed := 0, a_reserved := 0,
       a_quota_limit := pol_quota_limit policy, a_numa_bind_failures := 0,
       a_hook_slot := 0, a_numa := NumaPolicy_encode (pol_numa policy),
       a_label := pol_label policy, a_state := (if pub then Active else Initializing)\<rparr>"

definition created_meta :: "ArenaPolicy \<Rightarrow> nat \<Rightarrow> nat \<Rightarrow> ArenaMeta" where
  "created_meta policy pp pg =
     \<lparr>m_label = pol_label policy, m_decay = pol_decay policy, m_huge = pol_huge policy,
      m_cache_budget_bytes = pol_cache_budget_bytes policy,
      m_parent_plus1 = pp, m_parent_generation = pg, m_name = pol_name policy\<rparr>"

lemma create_locked_inner_cases:
  assumes wf: "hw_ok t" and c: "create_locked_inner policy pp pg pub t = (r, t')"
  obtains (full) "r = Inl Exhausted" "t' = t"
  | (made) i hw where "r = Inr i"
      "t' = t\<lparr>atomics := (atomics t)(i := created policy pub (atomics t i)),
               meta := (meta t)(i := created_meta policy pp pg), high_water := hw\<rparr>"
      "i < MAX_ARENAS" "a_state (atomics t i) = Destroyed"
      "high_water t \<le> hw" "i < hw" "hw \<le> MAX_ARENAS"
proof -
  obtain q u where cl: "claim_slot_locked t = (q, u)" by (cases "claim_slot_locked t")
  from wf cl show ?thesis
  proof (cases rule: claim_slot_locked_cases)
    case full
    with c cl show ?thesis by (intro that(1)) (auto simp: create_locked_inner_def)
  next
    case (free i hw)
    have "r = Inr i" and "t' = t\<lparr>atomics := (atomics t)(i := created policy pub (atomics t i)),
               meta := (meta t)(i := created_meta policy pp pg), high_water := hw\<rparr>"
      using c cl free(1,2)
      by (auto simp: create_locked_inner_def Let_def created_def created_meta_def
          store_slot_def store_meta_def)
    then show ?thesis using free by (intro that(2)) auto
  qed
qed

lemma slot_ok_created:
  assumes "slot_ok a" and "a_state a = Destroyed" and "pol_quota_limit policy \<le> U64_MAX"
  shows "slot_ok (created policy pub a)"
  using assms Generation_next_fresh(2,3) [of "a_generation a"]
  by (auto simp: slot_ok_def created_def is_terminal_def Generation_FIRST_def)

lemma created_live:
  assumes "slot_ok a" and "a_state a = Destroyed"
  shows "a_live_children (created policy pub a) = 0"
  using assms by (auto simp: slot_ok_def created_def)

lemma created_sel [simp]:
  "a_state (created policy pub a) = (if pub then Active else Initializing)"
  "a_rights (created policy pub a) = pol_rights policy"
  "a_quota_limit (created policy pub a) = pol_quota_limit policy"
  "a_label (created policy pub a) = pol_label policy"
  "a_reserved (created policy pub a) = 0"
  "a_generation (created policy pub a) = Generation_next (a_generation a)"
  by (simp_all add: created_def)

lemma created_meta_sel [simp]:
  "m_parent_plus1 (created_meta policy pp pg) = pp"
  "m_parent_generation (created_meta policy pp pg) = pg"
  "m_label (created_meta policy pp pg) = pol_label policy"
  by (simp_all add: created_meta_def)

lemma create_root_wf:
  assumes wf: "arena_wf t" and c: "create_locked_inner policy 0 0 pub t = (r, t')"
    and q: "pol_quota_limit policy \<le> U64_MAX"
  shows "arena_wf t'"
  using arena_wf_hw_ok [OF wf] c
proof (cases rule: create_locked_inner_cases)
  case full
  with wf show ?thesis by simp
next
  case (made i hw)
  show ?thesis
    by (rule arena_wf_add [OF wf made(3,4), where a = "created policy pub (atomics t i)"
          and m = "created_meta policy 0 0"])
      (use made q slot_ok_created created_live arena_wfD(1) [OF wf made(3)] in auto)
qed

lemma store_slot_same [simp]: "store_slot i (atomics t i) t = t"
  by (simp add: store_slot_def)

lemma store_slot_sel [simp]:
  "atomics (store_slot i a t) = (atomics t)(i := a)" "meta (store_slot i a t) = meta t"
  "high_water (store_slot i a t) = high_water t"
  "t_destroyed_count (store_slot i a t) = t_destroyed_count t"
  by (simp_all add: store_slot_def)

lemma slot_Some [simp]: "i < MAX_ARENAS \<Longrightarrow> slot t i = Some (atomics t i)"
  by (simp add: slot_def)

lemma slot_eq_Some: "slot t i = Some a \<longleftrightarrow> i < MAX_ARENAS \<and> a = atomics t i"
  by (auto simp: slot_def)

lemma card_children_less: "card (children t i) < 2 ^ 32 - 1"
proof -
  have "card (children t i) \<le> card {..<MAX_ARENAS}"
    by (rule card_mono) (auto simp: children_def)
  then show ?thesis by (simp add: MAX_ARENAS_def)
qed

text \<open>The guards of a delegation, and the policy of the child it makes.\<close>

definition delegable :: "ArenaTable \<Rightarrow> ArenaId \<Rightarrow> Delegation \<Rightarrow> bool" where
  "delegable t p del \<longleftrightarrow>
     p < MAX_ARENAS \<and> a_state (atomics t p) = Active
     \<and> CapRights_attenuates (del_rights del) (a_rights (atomics t p))
     \<and> del_label del = m_label (meta t p) \<and> del_quota_limit del \<noteq> 0
     \<and> (if a_quota_limit (atomics t p) = QUOTA_UNLIMITED then del_quota_limit del \<le> QUOTA_UNLIMITED
        else a_committed (atomics t p) + del_quota_limit del \<le> a_quota_limit (atomics t p))"

definition child_policy :: "Delegation \<Rightarrow> ArenaPolicy" where
  "child_policy del =
     \<lparr>pol_rights = del_rights del, pol_label = del_label del,
      pol_quota_limit = del_quota_limit del, pol_numa = del_numa del,
      pol_decay = DecayConfig_DEFAULT, pol_huge = HugeDefault,
      pol_cache_budget_bytes = 0, pol_latency = MayBlock, pol_name = del_name del\<rparr>"

lemma remaining_quota_bound:
  assumes "slot_ok (atomics t p)" and "p < MAX_ARENAS" and "stats_locked t p = Some s"
  shows "n \<le> remaining_quota s \<longleftrightarrow>
           (if a_quota_limit (atomics t p) = QUOTA_UNLIMITED then n \<le> QUOTA_UNLIMITED
            else n = 0 \<or> a_committed (atomics t p) + n \<le> a_quota_limit (atomics t p))"
proof -
  have r: "a_reserved (atomics t p) \<le> a_committed (atomics t p)"
    using assms(1) by (simp add: slot_ok_def)
  have s: "remaining_quota s =
             (if a_quota_limit (atomics t p) = QUOTA_UNLIMITED then QUOTA_UNLIMITED
              else a_quota_limit (atomics t p) - a_committed (atomics t p))"
    using assms(2,3) r by (auto simp: stats_locked_def remaining_quota_def saturating_sub_def Let_def)
  show ?thesis unfolding s by (simp add: le_diff_conv2 nat_le_linear) linarith
qed

lemma reserve_then_create:
  assumes "p < MAX_ARENAS" and "slot_ok (atomics t p)"
    and "a_committed (atomics t p) + n \<le> a_quota_limit (atomics t p)"
  shows "reserve_child_quota_locked p n t =
           (Inr (), store_slot p ((atomics t p)\<lparr>a_committed := a_committed (atomics t p) + n,
                                   a_reserved := a_reserved (atomics t p) + n\<rparr>) t)"
proof -
  have c: "a_committed (atomics t p) + n < 2 ^ 64" and r: "a_reserved (atomics t p) + n < 2 ^ 64"
    using assms by (auto simp: slot_ok_def U64_MAX_def)
  have "checked_add (a_committed (atomics t p)) n = Some (a_committed (atomics t p) + n)"
    using c by (simp add: checked_add_Some)
  moreover have "wrapping_add 64 (a_reserved (atomics t p)) n = a_reserved (atomics t p) + n"
    by (rule wrapping_add_exact [OF r])
  ultimately show ?thesis
    unfolding reserve_child_quota_locked_def slot_Some [OF assms(1)] using assms(3) by simp
qed

lemma release_undoes_reserve:
  assumes "p < MAX_ARENAS"
  shows "release_child_quota_locked p n
           (store_slot p ((atomics t p)\<lparr>a_committed := a_committed (atomics t p) + n,
                           a_reserved := a_reserved (atomics t p) + n\<rparr>) t) = t"
  using assms by (simp add: release_child_quota_locked_def saturating_sub_def store_slot_def)

lemma stats_locked_Some:
  assumes "p < MAX_ARENAS"
  obtains s where "stats_locked t p = Some s" "st_state s = a_state (atomics t p)"
    "st_rights s = a_rights (atomics t p)" "st_label s = m_label (meta t p)"
    "st_quota_limit s = a_quota_limit (atomics t p)" "st_generation s = a_generation (atomics t p)"
  using assms by (auto simp: stats_locked_def Let_def)

lemma delegate_refused:
  assumes wf: "arena_wf t" and "\<not> delegable t p del"
  shows "\<exists>e. delegate_locked p del t = (Inl e, t)"
proof (cases "p < MAX_ARENAS")
  case False
  then show ?thesis by (simp add: delegate_locked_def stats_locked_def slot_def)
next
  case True
  obtain s where s: "stats_locked t p = Some s" "st_state s = a_state (atomics t p)"
    "st_rights s = a_rights (atomics t p)" "st_label s = m_label (meta t p)"
    "st_quota_limit s = a_quota_limit (atomics t p)" "st_generation s = a_generation (atomics t p)"
    using stats_locked_Some [OF True] .
  have "delegable t p del \<longleftrightarrow> is_active (st_state s)
     \<and> CapRights_attenuates (del_rights del) (st_rights s)
     \<and> \<not> remaining_quota s < del_quota_limit del
     \<and> del_label del = st_label s \<and> del_quota_limit del \<noteq> 0"
    unfolding not_less remaining_quota_bound [OF arena_wfD(1) [OF wf True] True s(1)]
    using True s(2-4) unfolding delegable_def is_active_def by auto
  with assms(2) show ?thesis
    unfolding delegate_locked_def s(1) by (auto simp: Let_def ArenaPolicy_validate_def)
qed

definition reserved_for :: "ArenaTable \<Rightarrow> ArenaId \<Rightarrow> nat \<Rightarrow> ArenaTable" where
  "reserved_for t p n =
     store_slot p ((atomics t p)\<lparr>
       a_committed := a_committed (atomics t p) + parent_share (atomics t p) n,
       a_reserved := a_reserved (atomics t p) + parent_share (atomics t p) n\<rparr>) t"

lemma delegate_accepted:
  assumes wf: "arena_wf t" and d: "delegable t p del"
  shows "delegate_locked p del t =
    (case create_locked (child_policy del) (p + 1) (a_generation (atomics t p))
            (reserved_for t p (del_quota_limit del)) of
       (Inr child, u) \<Rightarrow> (Inr child, store_slot p
          ((atomics u p)\<lparr>a_live_children := wrapping_add 32 (a_live_children (atomics u p)) 1\<rparr>) u)
     | (Inl e, u) \<Rightarrow>
          (Inl e, if a_quota_limit (atomics t p) \<noteq> QUOTA_UNLIMITED
                  then release_child_quota_locked p (del_quota_limit del) u else u))"
proof -
  have p: "p < MAX_ARENAS" using d by (simp add: delegable_def)
  obtain s where s: "stats_locked t p = Some s" "st_state s = a_state (atomics t p)"
    "st_rights s = a_rights (atomics t p)" "st_label s = m_label (meta t p)"
    "st_quota_limit s = a_quota_limit (atomics t p)" "st_generation s = a_generation (atomics t p)"
    using stats_locked_Some [OF p] .
  have guards: "is_active (st_state s)" "CapRights_attenuates (del_rights del) (st_rights s)"
    "\<not> remaining_quota s < del_quota_limit del" "del_label del = st_label s"
    "ArenaPolicy_validate (child_policy del) = Inr ()"
    unfolding not_less remaining_quota_bound [OF arena_wfD(1) [OF wf p] p s(1)]
    using d s(2-4)
    by (auto simp: delegable_def is_active_def ArenaPolicy_validate_def child_policy_def)
  have res: "(if st_quota_limit s \<noteq> QUOTA_UNLIMITED
              then reserve_child_quota_locked p (del_quota_limit del) t else (Inr (), t))
             = (Inr (), reserved_for t p (del_quota_limit del))"
    using reserve_then_create [OF p arena_wfD(1) [OF wf p]] d s(5)
    by (auto simp: delegable_def reserved_for_def parent_share_def)
  show ?thesis
    unfolding delegate_locked_def s(1) child_policy_def [symmetric] option.case Let_def res
    using guards p by (simp add: s(5,6) split: prod.split sum.split)
qed

lemma delegate_cases:
  assumes wf: "arena_wf t" and c: "delegate_locked p del t = (r, t')"
  obtains (refused) e where "r = Inl e" "t' = t"
  | (made) i hw where "r = Inr i" "delegable t p del" "i \<noteq> p"
      "t' = t\<lparr>atomics := (atomics t)(p := adopt (atomics t p) (del_quota_limit del),
                               i := created (child_policy del) True (atomics t i)),
               meta := (meta t)(i := created_meta (child_policy del) (Suc p)
                                       (a_generation (atomics t p))), high_water := hw\<rparr>"
      "i < MAX_ARENAS" "a_state (atomics t i) = Destroyed"
      "high_water t \<le> hw" "i < hw" "hw \<le> MAX_ARENAS"
proof (cases "delegable t p del")
  case False
  then show ?thesis using delegate_refused [OF wf False] c by (auto intro: refused)
next
  case True
  let ?u = "reserved_for t p (del_quota_limit del)"
  have p: "p < MAX_ARENAS" and act: "a_state (atomics t p) = Active"
    using True by (simp_all add: delegable_def)
  have hw: "hw_ok ?u"
    unfolding reserved_for_def by (rule hw_ok_store_slot [OF arena_wf_hw_ok [OF wf]]) simp
  obtain q v where q: "create_locked_inner (child_policy del) (p + 1) (a_generation (atomics t p)) True ?u
      = (q, v)" by (metis surj_pair)
  have eq: "(r, t') = (case q of
      Inr child \<Rightarrow> (Inr child, store_slot p
          ((atomics v p)\<lparr>a_live_children := wrapping_add 32 (a_live_children (atomics v p)) 1\<rparr>) v)
    | Inl e \<Rightarrow> (Inl e, if a_quota_limit (atomics t p) \<noteq> QUOTA_UNLIMITED
                  then release_child_quota_locked p (del_quota_limit del) v else v))"
    using delegate_accepted [OF wf True] c q by (simp add: create_locked_def)
  from hw q show ?thesis
  proof (cases rule: create_locked_inner_cases)
    case full
    have "t' = t"
      using eq full release_undoes_reserve [OF p, of "del_quota_limit del" t]
      by (auto simp: reserved_for_def parent_share_def)
    then show ?thesis using eq full by (intro refused) auto
  next
    case (made i hw)
    have ip: "i \<noteq> p" using made(4) act by (auto simp: reserved_for_def)
    have lc: "wrapping_add 32 (a_live_children (atomics t p)) 1 = Suc (a_live_children (atomics t p))"
      using arena_wfD(2) [OF wf p] card_children_less [of t p]
      by (subst wrapping_add_exact) (auto simp: quota_ok_def)
    show ?thesis
      using eq made True ip lc
      by (intro that(2) [of i hw])
        (auto simp: reserved_for_def store_slot_def adopt_def fun_upd_twist)
  qed
qed

lemma delegate_wf:
  assumes wf: "arena_wf t" and c: "delegate_locked p del t = (r, t')"
  shows "arena_wf t'"
  using wf c
proof (cases rule: delegate_cases)
  case refused
  with wf show ?thesis by simp
next
  case (made i hw)
  note d = made(2) [unfolded delegable_def]
  have lim: "del_quota_limit del \<le> U64_MAX"
    using d arena_wfD(1) [OF wf, of p] by (auto simp: QUOTA_UNLIMITED_def slot_ok_def split: if_splits)
  note ok = arena_wfD(1) [OF wf made(5)]
  have pol: "pol_quota_limit (child_policy del) = del_quota_limit del"
    "pol_rights (child_policy del) = del_rights del" "pol_label (child_policy del) = del_label del"
    by (simp_all add: child_policy_def)
  show ?thesis
  proof (rule arena_wf_add [OF wf made(5,6), where a = "created (child_policy del) True (atomics t i)"
          and m = "created_meta (child_policy del) (Suc p) (a_generation (atomics t p))"])
    show "slot_ok (created (child_policy del) True (atomics t i))"
      by (rule slot_ok_created [OF ok made(6)]) (simp add: pol lim)
  qed (use made created_live [OF ok made(6)] d arena_wfD(1) [OF wf, of p] pol in
       \<open>auto simp: parent_share_def slot_ok_def\<close>)
qed

lemma child_limit_le:
  assumes wf: "arena_wf t" and p: "p < MAX_ARENAS" and c: "c \<in> children t p"
    and fin: "a_quota_limit (atomics t p) \<noteq> QUOTA_UNLIMITED"
  shows "a_quota_limit (atomics t c) \<le> a_reserved (atomics t p)"
    and "a_quota_limit (atomics t c) < QUOTA_UNLIMITED"
proof -
  have "a_reserved (atomics t p) = (\<Sum>c\<in>children t p. a_quota_limit (atomics t c))"
    using arena_wfD(2) [OF wf p] fin by (simp add: quota_ok_def)
  then show "a_quota_limit (atomics t c) \<le> a_reserved (atomics t p)"
    using member_le_sum [OF c, of "\<lambda>c. a_quota_limit (atomics t c)"] by simp
  also have "\<dots> \<le> a_quota_limit (atomics t p)" "a_quota_limit (atomics t p) \<le> U64_MAX"
    using arena_wfD(1) [OF wf p] by (simp_all add: slot_ok_def)
  ultimately show "a_quota_limit (atomics t c) < QUOTA_UNLIMITED"
    using fin by (simp add: QUOTA_UNLIMITED_def)
qed

lemma return_reservation_eq:
  assumes wf: "arena_wf t" and i: "i < MAX_ARENAS" and live: "a_state (atomics t i) \<noteq> Destroyed"
  shows "return_reservation_to_parent_locked i t =
           (case m_parent_plus1 (meta t i) of
              0 \<Rightarrow> t
            | Suc p \<Rightarrow> store_slot p (disown (atomics t p) (a_quota_limit (atomics t i))) t)"
proof (cases "m_parent_plus1 (meta t i)")
  case 0
  then show ?thesis by (simp add: return_reservation_to_parent_locked_def)
next
  case (Suc p)
  then have l: "p < MAX_ARENAS" "p \<noteq> i" "a_generation (atomics t p) = m_parent_generation (meta t i)"
    using arena_wfD(3) [OF wf i] live by (auto simp: link_ok_def)
  have c: "i \<in> children t p" using i live Suc by (simp add: children_def)
  show ?thesis
    using Suc l i child_limit_le(2) [OF wf l(1) c]
    by (auto simp: return_reservation_to_parent_locked_def Let_def disown_def parent_share_def
        release_child_quota_locked_def saturating_sub_def store_slot_def)
qed

text \<open>What a destroyed slot holds.\<close>

definition destroyed :: "ArenaAtomics \<Rightarrow> ArenaAtomics" where
  "destroyed a = a\<lparr>a_committed := 0, a_reserved := 0, a_rights := CapRights 0,
     a_generation := Generation_next (a_generation a), a_state := Destroyed\<rparr>"

lemma destroyed_eq:
  assumes "a_committed a = 0" and "a_reserved a = 0"
  shows "destroyed a = a\<lparr>a_generation := Generation_next (a_generation a),
           a_rights := CapRights 0, a_state := Destroyed\<rparr>"
  using assms by (cases a) (simp add: destroyed_def)

lemma slot_ok_destroyed:
  assumes "slot_ok a" and "a_live_children a = 0"
  shows "slot_ok (destroyed a)"
  using assms Generation_next_fresh(3) [of "a_generation a"]
  by (auto simp: slot_ok_def destroyed_def)

lemma finish_destroy_cases:
  assumes wf: "arena_wf t" and c: "finish_destroy i t = (r, t')"
  obtains (refused) e where "r = Inl e" "t' = t"
  | (ended) "i < MAX_ARENAS" "a_state (atomics t i) = Draining"
      "r = Inr (Generation_next (a_generation (atomics t i)))"
      "\<And>j. atomics t' j =
          (if j = i then destroyed (atomics t i)
           else if m_parent_plus1 (meta t i) = Suc j
           then disown (atomics t j) (a_quota_limit (atomics t i))
           else atomics t j)"
      "meta t' = meta t" "high_water t' = high_water t"
      "t_destroyed_count t' = wrapping_add 64 (t_destroyed_count t) 1"
proof (cases "i < MAX_ARENAS \<and> a_state (atomics t i) = Draining")
  case False
  have ct: "can_transition s Destroyed \<longleftrightarrow> s = Draining" for s by (cases s) auto
  have "\<exists>e. finish_destroy i t = (Inl e, t)"
    using False by (cases "i < MAX_ARENAS") (simp_all add: finish_destroy_def slot_def ct)
  then show ?thesis using c by (auto intro: refused)
next
  case True
  then have i: "i < MAX_ARENAS" and st: "a_state (atomics t i) = Draining" by auto
  have ne: "m_parent_plus1 (meta t i) \<noteq> Suc i"
    using arena_wfD(3) [OF wf i] st by (auto simp: link_ok_def)
  define u where "u = return_reservation_to_parent_locked i t"
  have u: "atomics u j = (if m_parent_plus1 (meta t i) = Suc j
             then disown (atomics t j) (a_quota_limit (atomics t i)) else atomics t j)"
    and um: "meta u = meta t" "high_water u = high_water t" "t_destroyed_count u = t_destroyed_count t"
    for j
    using return_reservation_eq [OF wf i] st
    by (cases "m_parent_plus1 (meta t i)"; simp add: u_def)+
  have ui: "atomics u i = atomics t i" using u ne by simp
  have "(r, t') = (Inr (Generation_next (a_generation (atomics t i))),
      (store_slot i (destroyed (atomics t i)) u)
        \<lparr>t_destroyed_count := wrapping_add 64 (t_destroyed_count t) 1\<rparr>)"
    using c i st ui unfolding finish_destroy_def u_def [symmetric]
    by (simp add: Let_def destroyed_def um)
  then show ?thesis by (intro ended i st) (simp_all add: u um)
qed

lemma finish_destroy_wf:
  assumes wf: "arena_wf t" and c: "finish_destroy i t = (r, t')"
  shows "arena_wf t'"
  using wf c
proof (cases rule: finish_destroy_cases)
  case refused
  with wf show ?thesis by simp
next
  case ended
  have leaf: "a_live_children (atomics t i) = 0"
    using arena_wfD(1) [OF wf ended(1)] ended(2) by (simp add: slot_ok_def)
  have dflt: "i \<noteq> ArenaId_DEFAULT" using wf ended(2) by (auto simp: arena_wf_def)
  show ?thesis
    by (rule arena_wf_remove [OF wf ended(1) dflt _ leaf _ _ _
          slot_ok_destroyed [OF arena_wfD(1) [OF wf ended(1)] leaf] ended(4-6)])
      (simp_all add: ended(2) leaf destroyed_def)
qed

lemma abandon_pending_wf:
  assumes wf: "arena_wf t"
  shows "arena_wf (snd (abandon_pending i t))"
proof (cases "i < MAX_ARENAS \<and> a_state (atomics t i) = Initializing")
  case False
  then show ?thesis using wf by (auto simp: abandon_pending_def slot_def)
next
  case True
  then have i: "i < MAX_ARENAS" and st: "a_state (atomics t i) = Initializing" by auto
  have leaf: "a_live_children (atomics t i) = 0" and eq: "a_committed (atomics t i) = a_reserved (atomics t i)"
    using arena_wfD(1) [OF wf i] st by (auto simp: slot_ok_def)
  have root: "m_parent_plus1 (meta t i) = 0" using arena_wfD(3) [OF wf i] st by (auto simp: link_ok_def)
  have dflt: "i \<noteq> ArenaId_DEFAULT" using wf st by (auto simp: arena_wf_def)
  note r0 = no_children(2) [OF wf i leaf]
  have d: "snd (abandon_pending i t) = store_slot i (destroyed (atomics t i)) t"
    using i st eq r0 by (simp add: abandon_pending_def destroyed_eq)
  show ?thesis unfolding d
    by (rule arena_wf_remove [OF wf i dflt _ leaf _ _ _
          slot_ok_destroyed [OF arena_wfD(1) [OF wf i] leaf]])
      (simp_all add: st leaf root destroyed_def)
qed

lemma slot_op_wf:
  assumes wf: "arena_wf t"
    and upd: "\<And>a. slot_ok a \<Longrightarrow> g a \<Longrightarrow> same_books a (f a) \<and> slot_ok (f a)"
    and dflt: "\<And>a. a_state a = Active \<Longrightarrow> i = ArenaId_DEFAULT \<Longrightarrow> g a \<Longrightarrow> a_state (f a) = Active"
    and eq: "t' = t \<or> (i < MAX_ARENAS \<and> g (atomics t i) \<and> t' = store_slot i (f (atomics t i)) t)"
  shows "arena_wf t'"
  using eq
proof
  assume "t' = t"
  with wf show ?thesis by simp
next
  assume h: "i < MAX_ARENAS \<and> g (atomics t i) \<and> t' = store_slot i (f (atomics t i)) t"
  then have "same_books (atomics t i) (f (atomics t i)) \<and> slot_ok (f (atomics t i))"
    using upd arena_wfD(1) [OF wf] by blast
  moreover have "i = ArenaId_DEFAULT \<Longrightarrow> a_state (f (atomics t i)) = Active"
    using dflt h wf by (simp add: arena_wf_def)
  ultimately show ?thesis using arena_wf_store [OF wf] h by blast
qed

lemma can_transition_iff:
  "can_transition a Active \<longleftrightarrow> a = Initializing \<or> a = Resetting"
  "can_transition a Resetting \<longleftrightarrow> a = Active"
  "can_transition a Draining \<longleftrightarrow> a = Active"
  "can_transition a Destroyed \<longleftrightarrow> a = Draining"
  "can_transition a ErrorQuarantined \<longleftrightarrow> a = Resetting \<or> a = Draining"
  by (cases a; simp)+

lemma publish_wf: "arena_wf t \<Longrightarrow> arena_wf (snd (publish i t))"
  by (erule slot_op_wf [where i = i and f = "\<lambda>a. a\<lparr>a_state := Active\<rparr>"
        and g = "\<lambda>a. a_state a = Initializing"])
    (auto simp: publish_def slot_def same_books_def slot_ok_def is_terminal_def)

lemma begin_reset_wf: "arena_wf t \<Longrightarrow> arena_wf (snd (begin_reset i t))"
  by (erule slot_op_wf [where i = i and f = "\<lambda>a. a\<lparr>a_state := Resetting\<rparr>"
        and g = "\<lambda>a. a_state a = Active \<and> i \<noteq> ArenaId_DEFAULT"])
    (auto simp: begin_reset_def transition_locked_def can_transition_iff slot_def same_books_def
      slot_ok_def is_terminal_def)

lemma finish_reset_wf: "arena_wf t \<Longrightarrow> arena_wf (snd (finish_reset i t))"
  by (erule slot_op_wf [where i = i
        and f = "\<lambda>a. a\<lparr>a_committed := a_reserved a, a_reset_gen := Generation_next (a_reset_gen a),
                       a_state := Active\<rparr>"
        and g = "\<lambda>a. a_state a = Initializing \<or> a_state a = Resetting"])
    (auto simp: finish_reset_def can_transition_iff slot_def same_books_def slot_ok_def
      is_terminal_def Let_def)

lemma begin_destroy_wf: "arena_wf t \<Longrightarrow> arena_wf (snd (begin_destroy i t))"
  by (erule slot_op_wf [where i = i and f = "\<lambda>a. a\<lparr>a_state := Draining\<rparr>"
        and g = "\<lambda>a. a_state a = Active \<and> a_live_children a = 0 \<and> i \<noteq> ArenaId_DEFAULT"])
    (auto simp: begin_destroy_def transition_locked_def can_transition_iff slot_def same_books_def
      slot_ok_def is_terminal_def)

lemma quarantine_wf: "arena_wf t \<Longrightarrow> arena_wf (snd (quarantine i t))"
  by (erule slot_op_wf [where i = i
        and f = "\<lambda>a. a\<lparr>a_committed := a_reserved a, a_state := ErrorQuarantined\<rparr>"
        and g = "\<lambda>a. a_state a = Resetting \<or> a_state a = Draining"])
    (auto simp: quarantine_def can_transition_iff slot_def same_books_def slot_ok_def
      is_terminal_def)

lemma try_charge_wf: "arena_wf t \<Longrightarrow> arena_wf (snd (try_charge i n t))"
  by (erule slot_op_wf [where i = i and f = "\<lambda>a. a\<lparr>a_committed := a_committed a + n\<rparr>"
        and g = "\<lambda>a. a_state a = Active \<and> a_committed a + n \<le> a_quota_limit a"])
    (auto simp: try_charge_def is_active_def slot_def same_books_def slot_ok_def
      is_terminal_def checked_simps split: option.split)

lemma credit_wf:
  assumes "arena_wf t" and "i < MAX_ARENAS \<Longrightarrow> n \<le> a_committed (atomics t i) - a_reserved (atomics t i)"
  shows "arena_wf (credit i n t)"
  by (rule slot_op_wf [OF assms(1), where i = i and f = "\<lambda>a. a\<lparr>a_committed := a_committed a - n\<rparr>"
        and g = "\<lambda>a. n \<le> a_committed a - a_reserved a"])
    (use assms(2) in \<open>auto simp: credit_def saturating_sub_def slot_def same_books_def slot_ok_def\<close>)

lemma record_numa_bind_failure_wf: "arena_wf t \<Longrightarrow> arena_wf (record_numa_bind_failure i t)"
  by (erule slot_op_wf [where i = i
        and f = "\<lambda>a. a\<lparr>a_numa_bind_failures := wrapping_add 64 (a_numa_bind_failures a) 1\<rparr>"
        and g = "\<lambda>_. True"])
    (auto simp: record_numa_bind_failure_def slot_def same_books_def slot_ok_def)

lemma set_hook_slot_wf: "arena_wf t \<Longrightarrow> arena_wf (set_hook_slot i k t)"
  by (erule slot_op_wf [where i = i and f = "\<lambda>a. a\<lparr>a_hook_slot := k\<rparr>" and g = "\<lambda>_. True"])
    (auto simp: set_hook_slot_def slot_def same_books_def slot_ok_def)

lemma configure_wf:
  assumes wf: "arena_wf t"
  shows "arena_wf (snd (configure i cfg t))"
proof (cases "i < MAX_ARENAS \<and> a_state (atomics t i) \<noteq> Destroyed")
  case False
  with wf show ?thesis by (auto simp: configure_def slot_def)
next
  case True
  show ?thesis
    by (rule arena_wf_same_books [OF wf])
      (use True wf arena_wfD(1) [OF wf] in
        \<open>auto simp: configure_def Let_def store_meta_def same_books_def same_link_def slot_ok_def
           arena_wf_def\<close>)
qed

section \<open>Sequences of operations\<close>

text \<open>
  The operations that change the table, with the error each may return. \<open>op_ok\<close> is what the
  callers owe: quotas are 64-bit values, and bytes credited were charged before.
\<close>

datatype arena_op =
  OpCreate ArenaPolicy | OpCreatePending ArenaPolicy | OpPublish ArenaId | OpAbandon ArenaId
| OpDelegate ArenaId Delegation | OpBeginReset ArenaId | OpFinishReset ArenaId
| OpBeginDestroy ArenaId | OpFinishDestroy ArenaId | OpQuarantine ArenaId
| OpCharge ArenaId nat | OpCredit ArenaId nat | OpNumaFailure ArenaId | OpSetHook ArenaId nat
| OpConfigure ArenaId ArenaConfig

fun err_of :: "'a arena_result \<Rightarrow> ArenaError option \<times> ArenaTable" where
  "err_of (Inl e, t) = (Some e, t)"
| "err_of (Inr r, t) = (None, t)"

fun run_op :: "arena_op \<Rightarrow> ArenaTable \<Rightarrow> ArenaError option \<times> ArenaTable" where
  "run_op (OpCreate policy) t = err_of (create policy t)"
| "run_op (OpCreatePending policy) t = err_of (create_pending policy t)"
| "run_op (OpPublish i) t = err_of (publish i t)"
| "run_op (OpAbandon i) t = err_of (abandon_pending i t)"
| "run_op (OpDelegate p del) t = err_of (delegate p del t)"
| "run_op (OpBeginReset i) t = err_of (begin_reset i t)"
| "run_op (OpFinishReset i) t = err_of (finish_reset i t)"
| "run_op (OpBeginDestroy i) t = err_of (begin_destroy i t)"
| "run_op (OpFinishDestroy i) t = err_of (finish_destroy i t)"
| "run_op (OpQuarantine i) t = err_of (quarantine i t)"
| "run_op (OpCharge i n) t = err_of (try_charge i n t)"
| "run_op (OpCredit i n) t = (None, credit i n t)"
| "run_op (OpNumaFailure i) t = (None, record_numa_bind_failure i t)"
| "run_op (OpSetHook i k) t = (None, set_hook_slot i k t)"
| "run_op (OpConfigure i cfg) t = err_of (configure i cfg t)"

fun op_ok :: "arena_op \<Rightarrow> ArenaTable \<Rightarrow> bool" where
  "op_ok (OpCreate policy) t \<longleftrightarrow> pol_quota_limit policy \<le> U64_MAX"
| "op_ok (OpCreatePending policy) t \<longleftrightarrow> pol_quota_limit policy \<le> U64_MAX"
| "op_ok (OpCredit i n) t \<longleftrightarrow>
     (case stats_locked t i of None \<Rightarrow> True | Some s \<Rightarrow> n \<le> st_used s)"
| "op_ok _ t \<longleftrightarrow> True"

fun run_ops :: "arena_op list \<Rightarrow> ArenaTable \<Rightarrow> ArenaTable" where
  "run_ops [] t = t"
| "run_ops (p # ps) t = run_ops ps (snd (run_op p t))"

fun ops_ok :: "arena_op list \<Rightarrow> ArenaTable \<Rightarrow> bool" where
  "ops_ok [] t \<longleftrightarrow> True"
| "ops_ok (p # ps) t \<longleftrightarrow> op_ok p t \<and> ops_ok ps (snd (run_op p t))"

lemma snd_err_of [simp]: "snd (err_of x) = snd x"
  by (cases x rule: err_of.cases) simp_all

lemma create_wf:
  assumes "arena_wf t" and "pol_quota_limit policy \<le> U64_MAX"
  shows "arena_wf (snd (create policy t))" and "arena_wf (snd (create_pending policy t))"
  using assms create_root_wf [OF assms(1) surjective_pairing assms(2)]
  by (auto simp: create_def create_pending_def create_locked_def split: sum.split)

lemma run_op_wf:
  assumes "arena_wf t" and "op_ok op t"
  shows "arena_wf (snd (run_op op t))"
proof (cases op)
  case (OpCredit i n)
  then show ?thesis
    using assms by (auto intro!: credit_wf simp: stats_locked_def saturating_sub_def Let_def)
next
  case (OpDelegate p del)
  then show ?thesis
    using delegate_wf [OF assms(1) surjective_pairing] by (simp add: delegate_def)
next
  case (OpFinishDestroy i)
  then show ?thesis using finish_destroy_wf [OF assms(1) surjective_pairing] by simp
qed (use assms in \<open>simp_all add: create_wf publish_wf abandon_pending_wf begin_reset_wf
      finish_reset_wf begin_destroy_wf quarantine_wf try_charge_wf record_numa_bind_failure_wf
      set_hook_slot_wf configure_wf\<close>)

lemma ArenaTable_new_wf: "arena_wf ArenaTable_new"
proof -
  have "children ArenaTable_new i = {}" for i
    by (auto simp: children_def ArenaTable_new_def Let_def store_slot_def store_meta_def
        ArenaMeta_empty_def)
  then show ?thesis
    by (auto simp: arena_wf_def slot_ok_def quota_ok_def link_ok_def ArenaTable_new_def Let_def
        store_slot_def store_meta_def ArenaAtomics_empty_def ArenaMeta_empty_def
        ArenaPolicy_ambient_default_def QUOTA_UNLIMITED_def is_terminal_def MAX_ARENAS_def
        Generation_next_eq Generation_FIRST_def U32_MAX_def ArenaId_DEFAULT_def)
qed

lemma run_ops_wf: "arena_wf t \<Longrightarrow> ops_ok ops t \<Longrightarrow> arena_wf (run_ops ops t)"
  by (induction ops arbitrary: t) (auto intro: run_op_wf)

lemmas reachable_wf = run_ops_wf [OF ArenaTable_new_wf]

section \<open>Properties of reachable tables\<close>

text \<open>What an arena and its descendants down to depth \<open>n\<close> use together.\<close>

primrec subtree_used :: "nat \<Rightarrow> ArenaTable \<Rightarrow> ArenaId \<Rightarrow> nat" where
  "subtree_used 0 t i = a_committed (atomics t i) - a_reserved (atomics t i)"
| "subtree_used (Suc n) t i =
     (a_committed (atomics t i) - a_reserved (atomics t i))
     + (\<Sum>c\<in>children t i. subtree_used n t c)"

lemma subtree_used_le_committed:
  assumes wf: "arena_wf t"
  shows "i < MAX_ARENAS \<Longrightarrow> a_quota_limit (atomics t i) \<noteq> QUOTA_UNLIMITED
           \<Longrightarrow> subtree_used n t i \<le> a_committed (atomics t i)"
proof (induction n arbitrary: i)
  case (Suc n)
  have "subtree_used n t c \<le> a_quota_limit (atomics t c)" if "c \<in> children t i" for c
  proof -
    have c: "c < MAX_ARENAS" using that by (rule children_less)
    have "subtree_used n t c \<le> a_committed (atomics t c)"
      using Suc.IH [OF c] child_limit_le(2) [OF wf Suc.prems(1) that Suc.prems(2)] by simp
    also have "\<dots> \<le> a_quota_limit (atomics t c)"
      using arena_wfD(1) [OF wf c] by (simp add: slot_ok_def)
    finally show ?thesis .
  qed
  then have "(\<Sum>c\<in>children t i. subtree_used n t c) \<le> (\<Sum>c\<in>children t i. a_quota_limit (atomics t c))"
    by (rule sum_mono)
  also have "\<dots> = a_reserved (atomics t i)"
    using arena_wfD(2) [OF wf Suc.prems(1)] Suc.prems(2) by (simp add: quota_ok_def)
  finally show ?case
    using arena_wfD(1) [OF wf Suc.prems(1)] by (simp add: slot_ok_def)
qed simp

text \<open>
  C1. In every table reached from the initial one by any sequence of operations, the bytes used
  by an arena with a finite quota and by all its live descendants, to any depth, stay within
  that arena's quota.
\<close>

theorem subtree_used_le_quota:
  assumes "ops_ok ops ArenaTable_new" and "t = run_ops ops ArenaTable_new"
    and "i < MAX_ARENAS" and "a_quota_limit (atomics t i) \<noteq> QUOTA_UNLIMITED"
  shows "subtree_used n t i \<le> a_quota_limit (atomics t i)"
proof -
  have wf: "arena_wf t" using assms(1,2) reachable_wf by simp
  have "subtree_used n t i \<le> a_committed (atomics t i)"
    by (rule subtree_used_le_committed [OF wf assms(3,4)])
  also have "\<dots> \<le> a_quota_limit (atomics t i)"
    using arena_wfD(1) [OF wf assms(3)] by (simp add: slot_ok_def)
  finally show ?thesis .
qed

text \<open>A table with a quota of 1000 delegated twice, used below.\<close>

definition demo_delegation :: "nat \<Rightarrow> Delegation" where
  "demo_delegation q = \<lparr>del_rights = CapRights_ALLOC, del_quota_limit = q, del_label = Label_PUBLIC,
     del_numa = OsDefault, del_name = []\<rparr>"

definition demo_ops :: "arena_op list" where
  "demo_ops = [OpCreate (with_quota ArenaPolicy_explicit 1000), OpDelegate 1 (demo_delegation 600),
     OpDelegate 2 (demo_delegation 200), OpCharge 3 150, OpCharge 1 300, OpCredit 1 100]"

lemmas arena_eval =
  ArenaTable_new_def ArenaPolicy_ambient_default_def ArenaAtomics_empty_def ArenaMeta_empty_def
  ArenaPolicy_explicit_def with_quota_def demo_delegation_def Let_def store_slot_def store_meta_def
  create_def create_locked_def create_locked_inner_def claim_slot_locked_def ArenaPolicy_validate_def
  delegate_def delegate_locked_def stats_locked_def remaining_quota_def is_active_def slot_def
  reserve_child_quota_locked_def try_charge_def credit_def checked_add_def saturating_sub_def
  wrapping_add_def CapRights_attenuates_def CapRights_ALL_def CapRights_ALLOC_def ALL_BITS_def
  MAX_ARENAS_def QUOTA_UNLIMITED_def U64_MAX_def USIZE_MAX_def ArenaId_DEFAULT_def
  Label_PUBLIC_def Generation_next_def Generation_FIRST_def

lemma demo_ok: "ops_ok demo_ops ArenaTable_new"
  by (simp add: demo_ops_def arena_eval)

lemma demo_limit: "a_quota_limit (atomics (run_ops demo_ops ArenaTable_new) 1) = 1000"
  by (simp add: demo_ops_def arena_eval)

theorem subtree_used_le_quota_witness:
  "subtree_used 2 (run_ops demo_ops ArenaTable_new) 1 \<le> 1000"
  using subtree_used_le_quota [OF demo_ok refl, of 1 2] demo_limit
  by (simp add: QUOTA_UNLIMITED_def U64_MAX_def MAX_ARENAS_def)

text \<open>
  C29. In every reachable table a live delegated arena has a live parent of the generation it
  was delegated by, holds no right its parent lacks, and carries its parent's label; with a
  finite parent its quota is finite and within the parent's.
\<close>

theorem delegation_attenuates:
  assumes "ops_ok ops ArenaTable_new" and "t = run_ops ops ArenaTable_new"
    and "is_registered t c" and "stats_locked t c = Some s" and "st_parent s = Some p"
  shows "is_registered t p \<and> p \<noteq> c
    \<and> a_generation (atomics t p) = m_parent_generation (meta t c)
    \<and> rights_set (a_rights (atomics t c)) \<subseteq> rights_set (a_rights (atomics t p))
    \<and> label_of t c = label_of t p
    \<and> (a_quota_limit (atomics t p) \<noteq> QUOTA_UNLIMITED \<longrightarrow>
         a_quota_limit (atomics t c) \<le> a_quota_limit (atomics t p))"
proof -
  have wf: "arena_wf t" using assms(1,2) reachable_wf by simp
  have c: "c < MAX_ARENAS" "a_state (atomics t c) \<noteq> Destroyed"
    using assms(3) by (auto simp: is_registered_def slot_def split: if_splits)
  have pp: "m_parent_plus1 (meta t c) = Suc p"
    using assms(4,5) c by (auto simp: stats_locked_def Let_def split: if_splits)
  note l = arena_wfD(3) [OF wf c(1), unfolded link_ok_def, rule_format, OF c(2)]
  have p: "p < MAX_ARENAS" "p \<noteq> c" "a_state (atomics t p) \<noteq> Destroyed"
    "a_generation (atomics t p) = m_parent_generation (meta t c)"
    "CapRights_attenuates (a_rights (atomics t c)) (a_rights (atomics t p))"
    "m_label (meta t c) = m_label (meta t p)"
    using l pp by auto
  have "a_label (atomics t p) = m_label (meta t p)"
    using arena_wfD(3) [OF wf p(1)] p(3) by (simp add: link_ok_def)
  then have lab: "label_of t c = label_of t p" using l p c by (simp add: label_of_def)
  have "c \<in> children t p" using c pp by (simp add: children_def)
  from child_limit_le(1) [OF wf p(1) this] arena_wfD(1) [OF wf p(1)]
  have "a_quota_limit (atomics t p) \<noteq> QUOTA_UNLIMITED \<longrightarrow>
         a_quota_limit (atomics t c) \<le> a_quota_limit (atomics t p)" by (auto simp: slot_ok_def)
  then show ?thesis
    using p lab by (simp add: is_registered_def CapRights_attenuates_def CapRights_contains_iff)
qed

lemma demo_child:
  "\<exists>s. stats_locked (run_ops demo_ops ArenaTable_new) 2 = Some s \<and> st_parent s = Some 1
     \<and> is_registered (run_ops demo_ops ArenaTable_new) 2"
  by (simp add: demo_ops_def arena_eval is_registered_def)

theorem delegation_attenuates_witness:
  "is_registered (run_ops demo_ops ArenaTable_new) 1
   \<and> rights_set (a_rights (atomics (run_ops demo_ops ArenaTable_new) 2))
       \<subseteq> rights_set (a_rights (atomics (run_ops demo_ops ArenaTable_new) 1))"
  using demo_child delegation_attenuates [OF demo_ok refl, of 2 _ 1] by blast

text \<open>
  C34. The table's self-check holds in every reachable table, the default arena stays active,
  and the number of live arenas is the number of live slots.
\<close>

theorem check_invariants_reachable:
  assumes "ops_ok ops ArenaTable_new" and "t = run_ops ops ArenaTable_new"
  shows "check_invariants t \<and> arena_is_active t ArenaId_DEFAULT
    \<and> live_count t = card {i. is_registered t i}"
proof -
  have wf: "arena_wf t" using assms reachable_wf by simp
  have hw: "high_water t \<le> MAX_ARENAS" "ArenaId_DEFAULT < MAX_ARENAS"
    using wf by (simp_all add: arena_wf_def ArenaId_DEFAULT_def MAX_ARENAS_def)
  have dflt: "a_state (atomics t ArenaId_DEFAULT) = Active" using wf by (simp add: arena_wf_def)
  have "check_slot (atomics t i)" if "i < high_water t" for i
    using arena_wfD(1) [OF wf, of i] that hw by (auto simp: check_slot_def slot_ok_def saturating_sub_def)
  then have c: "check_invariants t"
    using hw dflt by (auto simp: check_invariants_def is_registered_def list_all_iff)
  have "live_count t = card (set (filter (\<lambda>i. a_state (atomics t i) \<noteq> Destroyed) [0..<high_water t]))"
    unfolding live_count_def by (rule distinct_card [symmetric]) simp
  also have "set (filter (\<lambda>i. a_state (atomics t i) \<noteq> Destroyed) [0..<high_water t]) = {i. is_registered t i}"
    using arena_wfD(4) [OF wf] hw by (auto simp: is_registered_def slot_def not_le split: if_splits)
      (metis not_le)
  finally show ?thesis using c dflt hw by (simp add: arena_is_active_def is_active_def)
qed

theorem check_invariants_reachable_witness:
  "check_invariants (run_ops demo_ops ArenaTable_new)"
  using check_invariants_reachable [OF demo_ok refl] by blast

text \<open>
  C32. An operation that returns an error leaves the table exactly as it was, a delegation that
  finds no free slot after reserving its quota included.
\<close>

theorem failed_op_changes_nothing:
  assumes "ops_ok ops ArenaTable_new" and "t = run_ops ops ArenaTable_new"
    and "run_op op t = (Some e, t')"
  shows "t' = t"
proof -
  have wf: "arena_wf t" using assms(1,2) reachable_wf by simp
  have err: "\<exists>e. x = (Inl e, t')" if "err_of x = (Some e, t')" for x :: "'a arena_result"
    using that by (cases x rule: err_of.cases) auto
  have cr: "u = t" if "create_locked_inner policy 0 0 pub t = (Inl e, u)" for policy pub e u
    using arena_wf_hw_ok [OF wf] that by (cases rule: create_locked_inner_cases) auto
  have de: "u = t" if "delegate_locked p del t = (Inl e, u)" for p del e u
    using wf that by (cases rule: delegate_cases) auto
  have fd: "u = t" if "finish_destroy i t = (Inl e, u)" for i e u
    using wf that by (cases rule: finish_destroy_cases) auto
  show ?thesis
  proof (cases op)
    case (OpCreate policy)
    then show ?thesis using assms(3) cr
      by (auto simp: create_def create_locked_def dest!: err split: sum.splits)
  next
    case (OpCreatePending policy)
    then show ?thesis using assms(3) cr by (auto simp: create_pending_def dest!: err split: sum.splits)
  next
    case (OpDelegate p del)
    then show ?thesis using assms(3) de by (auto simp: delegate_def dest!: err)
  next
    case (OpFinishDestroy i)
    then show ?thesis using assms(3) fd by (auto dest!: err)
  qed (use assms(3) in \<open>auto simp: publish_def abandon_pending_def begin_reset_def finish_reset_def
        begin_destroy_def quarantine_def try_charge_def configure_def transition_locked_def Let_def
        split: option.splits if_splits\<close>)
qed

theorem failed_op_changes_nothing_witness:
  "run_op (OpDelegate 1 (demo_delegation 600)) (run_ops demo_ops ArenaTable_new)
     = (Some Attenuation, run_ops demo_ops ArenaTable_new)"
proof -
  have "fst (run_op (OpDelegate 1 (demo_delegation 600)) (run_ops demo_ops ArenaTable_new))
          = Some Attenuation"
    by (simp add: demo_ops_def arena_eval)
  then obtain t' where t': "run_op (OpDelegate 1 (demo_delegation 600)) (run_ops demo_ops ArenaTable_new)
      = (Some Attenuation, t')" by (metis prod.collapse)
  from failed_op_changes_nothing [OF demo_ok refl t'] t' show ?thesis by blast
qed

section \<open>Handles\<close>

lemma handle_fields:
  fixes g i :: nat
  assumes "is_u32 g" and "is_u32 i"
  shows "unat ((push_bit 32 (of_nat g) OR of_nat i) AND (0xFFFFFFFF :: u64w)) = i"
    and "unat (drop_bit 32 (push_bit 32 (of_nat g) OR (of_nat i :: u64w))) = g"
proof -
  have m: "(0xFFFFFFFF :: u64w) = mask 32" by (simp add: mask_eq_exp_minus_1)
  have hi: "bit n k \<Longrightarrow> k < 32" if "is_u32 n" for n k :: nat
    using that by (metis bit_take_bit_iff take_bit_nat_eq_self numeral_power_eq_of_nat_cancel_iff)
  have "(push_bit 32 (of_nat g) OR of_nat i) AND mask 32 = (of_nat i :: u64w)"
    by (rule bit_word_eqI) (auto simp: bit_simps bit_of_nat_iff dest: hi [OF assms(2)])
  then show "unat ((push_bit 32 (of_nat g) OR of_nat i) AND (0xFFFFFFFF :: u64w)) = i"
    unfolding m using assms(2) by (simp add: unat_of_nat)
  have "drop_bit 32 (push_bit 32 (of_nat g) OR (of_nat i :: u64w)) = of_nat g"
    by (rule bit_word_eqI) (auto simp: bit_simps bit_of_nat_iff dest: hi [OF assms(1)] hi [OF assms(2)])
  then show "unat (drop_bit 32 (push_bit 32 (of_nat g) OR (of_nat i :: u64w))) = g"
    using assms(1) by (simp add: unat_of_nat)
qed

lemma handle_eq_Some:
  "handle t i = Some h \<longleftrightarrow> i < MAX_ARENAS \<and> a_state (atomics t i) \<noteq> Destroyed
     \<and> h = push_bit 32 (of_nat (a_generation (atomics t i))) OR of_nat i"
  by (auto simp: handle_def stats_locked_def slot_def Let_def)

lemma resolve_handle_of:
  assumes "is_u32 g" and "i < MAX_ARENAS"
  shows "resolve_handle t (push_bit 32 (of_nat g) OR of_nat i) =
           (if a_state (atomics t i) \<noteq> Destroyed \<and> a_generation (atomics t i) = g then Some i else None)"
proof -
  have "is_u32 i" using assms(2) by (simp add: MAX_ARENAS_def)
  then show ?thesis
    unfolding resolve_handle_def handle_fields [OF assms(1) \<open>is_u32 i\<close>] Let_def
    using assms(2) by (simp add: stats_locked_def Let_def)
qed

text \<open>The generation of a slot never goes back: it cycles through \<open>2 ^ 32 - 1\<close> values.\<close>

lemma Generation_next_pow:
  assumes "g \<noteq> 0" and "is_u32 g"
  shows "(Generation_next ^^ k) g = (g - 1 + k) mod U32_MAX + 1"
proof (induction k)
  case 0
  then show ?case using assms by (simp add: U32_MAX_def)
next
  case (Suc k)
  have "(g - 1 + k) mod U32_MAX < U32_MAX" by (simp add: U32_MAX_def)
  then have "is_u32 ((g - 1 + k) mod U32_MAX + 1)" by (simp add: U32_MAX_def)
  then have "Generation_next ((g - 1 + k) mod U32_MAX + 1)
      = (if Suc ((g - 1 + k) mod U32_MAX) = U32_MAX then 1 else (g - 1 + k) mod U32_MAX + 2)"
    by (simp add: Generation_next_eq)
  also have "\<dots> = (g - 1 + Suc k) mod U32_MAX + 1" by (simp add: mod_Suc)
  finally show ?case using Suc by simp
qed

lemma Generation_next_pow_neq:
  assumes "g \<noteq> 0" and "is_u32 g" and "0 < k" and "k < U32_MAX"
  shows "(Generation_next ^^ k) g \<noteq> g"
proof
  assume "(Generation_next ^^ k) g = g"
  then have "(g - 1 + k) mod U32_MAX = (g - 1) mod U32_MAX"
    using assms Generation_next_pow [OF assms(1,2), of k] by (simp add: U32_MAX_def)
  then have "U32_MAX dvd k" by (metis add_diff_cancel_left' mod_eq_dvd_iff_nat le_add1)
  then show False using assms(3,4) by (simp add: nat_dvd_not_less)
qed

lemma run_op_generation:
  assumes wf: "arena_wf t"
  shows "a_generation (atomics (snd (run_op op t)) i) = a_generation (atomics t i)
       \<or> a_generation (atomics (snd (run_op op t)) i) = Generation_next (a_generation (atomics t i))"
proof -
  let ?P = "\<lambda>u. a_generation (atomics u i) = a_generation (atomics t i)
       \<or> a_generation (atomics u i) = Generation_next (a_generation (atomics t i))"
  have cr: "?P (snd (create_locked_inner policy 0 0 pub t))" for policy pub
  proof -
    obtain q u where q: "create_locked_inner policy 0 0 pub t = (q, u)" by (metis surj_pair)
    from arena_wf_hw_ok [OF wf] q show ?thesis
      by (cases rule: create_locked_inner_cases) (auto simp: q)
  qed
  have de: "?P (snd (delegate_locked p del t))" for p del
  proof -
    obtain q u where q: "delegate_locked p del t = (q, u)" by (metis surj_pair)
    from wf q show ?thesis by (cases rule: delegate_cases) (auto simp: q)
  qed
  have fd: "?P (snd (finish_destroy j t))" for j
  proof -
    obtain q u where q: "finish_destroy j t = (q, u)" by (metis surj_pair)
    from wf q show ?thesis by (cases rule: finish_destroy_cases) (auto simp: q destroyed_def)
  qed
  show ?thesis
  proof (cases op)
    case (OpCreate policy)
    then show ?thesis using cr by (simp add: create_def create_locked_def split: sum.split)
  next
    case (OpCreatePending policy)
    then show ?thesis using cr by (simp add: create_pending_def split: sum.split)
  qed (use de fd in \<open>simp_all add: delegate_def publish_def abandon_pending_def begin_reset_def
        finish_reset_def begin_destroy_def quarantine_def try_charge_def configure_def credit_def
        record_numa_bind_failure_def set_hook_slot_def store_meta_def transition_locked_def Let_def
        slot_eq_Some split: option.split\<close>)
qed

lemma run_ops_generation:
  "arena_wf t \<Longrightarrow> ops_ok ops t \<Longrightarrow>
     \<exists>k \<le> length ops. a_generation (atomics (run_ops ops t) i)
                        = (Generation_next ^^ k) (a_generation (atomics t i))"
proof (induction ops arbitrary: t)
  case (Cons p ps)
  let ?u = "snd (run_op p t)"
  obtain k where k: "k \<le> length ps"
    "a_generation (atomics (run_ops ps ?u) i) = (Generation_next ^^ k) (a_generation (atomics ?u i))"
    using Cons.IH [of ?u] Cons.prems run_op_wf by auto
  from run_op_generation [OF Cons.prems(1), of p i] show ?case
  proof
    assume "a_generation (atomics ?u i) = a_generation (atomics t i)"
    with k show ?thesis by (intro exI [of _ k]) auto
  next
    assume "a_generation (atomics ?u i) = Generation_next (a_generation (atomics t i))"
    with k show ?thesis by (intro exI [of _ "Suc k"]) (auto simp: funpow_swap1)
  qed
qed (auto intro: exI [of _ 0])


definition demo_pending :: "arena_op list" where
  "demo_pending = [OpCreate (with_quota ArenaPolicy_explicit 1000), OpBeginDestroy 1]"

lemmas arena_eval2 = arena_eval demo_pending_def begin_destroy_def transition_locked_def
  finish_destroy_def return_reservation_to_parent_locked_def

lemma demo_pending_ok: "ops_ok demo_pending ArenaTable_new"
  by (simp add: arena_eval2)

lemma demo_pending_handle: "handle (run_ops demo_pending ArenaTable_new) 1 = Some 4294967297"
  by (simp add: arena_eval2 handle_def)


section \<open>Delegation and destruction\<close>

lemma adopt_disown [simp]: "disown (adopt a l) l = a"
  by (cases a) (simp add: adopt_def disown_def parent_share_def)

text \<open>
  C33. A leaf can always be taken down: from every reachable table, destroying a freshly
  delegated child (begin, then finish) succeeds, gives the parent back exactly the quota,
  reservation and child count it had, frees the slot, and moves on its generation.
\<close>

theorem delegate_destroy_restores:
  assumes "ops_ok ops ArenaTable_new" and "t = run_ops ops ArenaTable_new"
    and "delegate p del t = (Inr c, t1)"
  shows "\<exists>t2 t3. begin_destroy c t1 = (Inr (), t2)
    \<and> finish_destroy c t2 = (Inr (Generation_next (a_generation (atomics t1 c))), t3)
    \<and> atomics t3 p = atomics t p \<and> \<not> is_registered t3 c
    \<and> (\<forall>j. j \<noteq> c \<longrightarrow> atomics t3 j = atomics t j)"
proof -
  have wf: "arena_wf t" using assms(1,2) reachable_wf by simp
  have d: "delegate_locked p del t = (Inr c, t1)" using assms(3) by (simp add: delegate_def)
  have wf1: "arena_wf t1" by (rule delegate_wf [OF wf d])
  from wf d obtain hw where m: "delegable t p del" "c \<noteq> p"
      "t1 = t\<lparr>atomics := (atomics t)(p := adopt (atomics t p) (del_quota_limit del),
                               c := created (child_policy del) True (atomics t c)),
               meta := (meta t)(c := created_meta (child_policy del) (Suc p)
                                       (a_generation (atomics t p))), high_water := hw\<rparr>"
      "c < MAX_ARENAS" "a_state (atomics t c) = Destroyed"
    by (cases rule: delegate_cases) auto
  have c0: "c \<noteq> ArenaId_DEFAULT" using wf m(5) by (auto simp: arena_wf_def)
  have act: "a_state (atomics t1 c) = Active" "a_live_children (atomics t1 c) = 0"
    using m(3) created_live [OF arena_wfD(1) [OF wf m(4)] m(5)] by simp_all
  define t2 where "t2 = store_slot c ((atomics t1 c)\<lparr>a_state := Draining\<rparr>) t1"
  have b: "begin_destroy c t1 = (Inr (), t2)"
    using c0 act m(4) by (simp add: begin_destroy_def transition_locked_def t2_def)
  have wf2: "arena_wf t2" using begin_destroy_wf [OF wf1, of c] b by simp
  obtain r t3 where f: "finish_destroy c t2 = (r, t3)" by (metis surj_pair)
  have e: "a_quota_limit (atomics t2 c) = del_quota_limit del" "m_parent_plus1 (meta t2 c) = Suc p"
    "atomics t2 p = adopt (atomics t p) (del_quota_limit del)" "a_state (atomics t2 c) = Draining"
    "\<And>j. j \<noteq> c \<Longrightarrow> j \<noteq> p \<Longrightarrow> atomics t2 j = atomics t j"
    "a_generation (atomics t2 c) = a_generation (atomics t1 c)"
    using m(2) by (simp_all add: t2_def m(3) child_policy_def)
  from wf2 f show ?thesis
  proof (cases rule: finish_destroy_cases)
    case (refused err)
    then show ?thesis using f m(4) e(4) by (auto simp: finish_destroy_def Let_def)
  next
    case ended
    have "atomics t3 j = atomics t j" if "j \<noteq> c" for j
      using ended(4) [of j] that e by (cases "j = p") auto
    moreover have "\<not> is_registered t3 c"
      using ended(1,4) by (simp add: is_registered_def destroyed_def)
    ultimately show ?thesis
      using b f ended(3) e(6) m(2) by (intro exI [of _ t2] exI [of _ t3]) auto
  qed
qed

theorem delegate_destroy_restores_witness:
  "\<exists>c t1 t2 t3. delegate 1 (demo_delegation 100) (run_ops demo_ops ArenaTable_new) = (Inr c, t1)
     \<and> begin_destroy c t1 = (Inr (), t2)
     \<and> finish_destroy c t2 = (Inr (Generation_next (a_generation (atomics t1 c))), t3)
     \<and> atomics t3 1 = atomics (run_ops demo_ops ArenaTable_new) 1"
proof -
  have "\<exists>c. fst (delegate 1 (demo_delegation 100) (run_ops demo_ops ArenaTable_new)) = Inr c"
    by (simp add: demo_ops_def arena_eval)
  then obtain c t1 where "delegate 1 (demo_delegation 100) (run_ops demo_ops ArenaTable_new) = (Inr c, t1)"
    by (metis prod.collapse)
  with delegate_destroy_restores [OF demo_ok refl this] show ?thesis by blast
qed

section \<open>Charging under any interleaving\<close>

text \<open>
  The compare-exchange loops of \<open>try_charge\<close> and \<open>credit\<close> on the \<open>committed\<close> counter of one
  active arena, run by any number of threads. A thread has loaded \<open>cur\<close> in a charge of \<open>n\<close>
  bytes, or in a credit of \<open>n\<close> bytes it took off the outstanding charges \<open>held\<close>. The exchange
  may fail spuriously, and then the loop goes on with the value it observed.
\<close>

datatype charge_pc = CIdle | Charging (ccur: nat) (csize: nat) | Crediting (ccur: nat) (csize: nat)

record charge_world =
  cw_committed :: nat
  cw_limit :: nat
  cw_pcs :: "charge_pc list"
  cw_held :: "nat multiset"

inductive charge_step :: "charge_world \<Rightarrow> charge_world \<Rightarrow> bool" where
  charge_load: "k < length (cw_pcs w) \<Longrightarrow> cw_pcs w ! k = CIdle \<Longrightarrow>
    charge_step w (w\<lparr>cw_pcs := (cw_pcs w)[k := Charging (cw_committed w) n]\<rparr>)"
| charge_overflow: "k < length (cw_pcs w) \<Longrightarrow> cw_pcs w ! k = Charging cur n \<Longrightarrow>
    checked_add cur n = None \<Longrightarrow>
    charge_step w (w\<lparr>cw_pcs := (cw_pcs w)[k := CIdle]\<rparr>)"
| charge_exceeded: "k < length (cw_pcs w) \<Longrightarrow> cw_pcs w ! k = Charging cur n \<Longrightarrow>
    checked_add cur n = Some nxt \<Longrightarrow> cw_limit w < nxt \<Longrightarrow>
    charge_step w (w\<lparr>cw_pcs := (cw_pcs w)[k := CIdle]\<rparr>)"
| charge_retry: "k < length (cw_pcs w) \<Longrightarrow> cw_pcs w ! k = Charging cur n \<Longrightarrow>
    checked_add cur n = Some nxt \<Longrightarrow> \<not> cw_limit w < nxt \<Longrightarrow>
    charge_step w (w\<lparr>cw_pcs := (cw_pcs w)[k := Charging (cw_committed w) n]\<rparr>)"
| charge_commit: "k < length (cw_pcs w) \<Longrightarrow> cw_pcs w ! k = Charging cur n \<Longrightarrow>
    checked_add cur n = Some nxt \<Longrightarrow> \<not> cw_limit w < nxt \<Longrightarrow> cw_committed w = cur \<Longrightarrow>
    charge_step w (w\<lparr>cw_committed := nxt, cw_pcs := (cw_pcs w)[k := CIdle],
                     cw_held := add_mset n (cw_held w)\<rparr>)"
| credit_load: "k < length (cw_pcs w) \<Longrightarrow> cw_pcs w ! k = CIdle \<Longrightarrow> n \<in># cw_held w \<Longrightarrow>
    charge_step w (w\<lparr>cw_pcs := (cw_pcs w)[k := Crediting (cw_committed w) n],
                     cw_held := cw_held w - {#n#}\<rparr>)"
| credit_retry: "k < length (cw_pcs w) \<Longrightarrow> cw_pcs w ! k = Crediting cur n \<Longrightarrow>
    charge_step w (w\<lparr>cw_pcs := (cw_pcs w)[k := Crediting (cw_committed w) n]\<rparr>)"
| credit_commit: "k < length (cw_pcs w) \<Longrightarrow> cw_pcs w ! k = Crediting cur n \<Longrightarrow>
    cw_committed w = cur \<Longrightarrow>
    charge_step w (w\<lparr>cw_committed := saturating_sub cur n, cw_pcs := (cw_pcs w)[k := CIdle]\<rparr>)"

fun returning :: "charge_pc \<Rightarrow> nat" where
  "returning (Crediting _ n) = n"
| "returning _ = 0"

definition charge_inv :: "charge_world \<Rightarrow> bool" where
  "charge_inv w \<longleftrightarrow>
     cw_committed w = sum_mset (cw_held w) + sum_list (map returning (cw_pcs w))
     \<and> cw_committed w \<le> cw_limit w"

lemma returning_update:
  "k < length ps \<Longrightarrow>
     sum_list (map returning (ps[k := x])) + returning (ps ! k)
       = sum_list (map returning ps) + returning x"
proof -
  assume k: "k < length ps"
  have "returning (ps ! k) \<le> sum_list (map returning ps)"
    using k by (intro member_le_sum_list) auto
  then show ?thesis using k by (simp add: map_update sum_list_update)
qed

lemma charge_step_inv: "charge_step w w' \<Longrightarrow> charge_inv w \<Longrightarrow> charge_inv w' \<and> cw_limit w' = cw_limit w"
proof (induction rule: charge_step.induct)
  case (charge_commit k w cur n nxt)
  then show ?case
    using returning_update [OF charge_commit.hyps(1), of CIdle]
    by (simp add: charge_inv_def checked_simps)
next
  case (credit_load k w n)
  then show ?case
    using returning_update [OF credit_load.hyps(1), of "Crediting (cw_committed w) n"]
      sum_mset.remove [OF credit_load.hyps(3)]
    by (simp add: charge_inv_def)
next
  case (credit_commit k w cur n)
  then show ?case
    using returning_update [OF credit_commit.hyps(1), of CIdle]
    by (simp add: charge_inv_def saturating_sub_def) linarith
next
  case (charge_load k w n)
  then show ?case using returning_update [OF charge_load.hyps(1)] by (simp add: charge_inv_def)
next
  case (charge_overflow k w cur n)
  then show ?case using returning_update [OF charge_overflow.hyps(1)] by (simp add: charge_inv_def)
next
  case (charge_exceeded k w cur n nxt)
  then show ?case using returning_update [OF charge_exceeded.hyps(1)] by (simp add: charge_inv_def)
next
  case (charge_retry k w cur n nxt)
  then show ?case using returning_update [OF charge_retry.hyps(1)] by (simp add: charge_inv_def)
next
  case (credit_retry k w cur n)
  then show ?case
    using returning_update [OF credit_retry.hyps(1), of "Crediting (cw_committed w) n"]
    by (simp add: charge_inv_def)
qed

definition charge_start :: "nat \<Rightarrow> nat \<Rightarrow> charge_world" where
  "charge_start limit threads =
     \<lparr>cw_committed = 0, cw_limit = limit, cw_pcs = replicate threads CIdle, cw_held = {#}\<rparr>"

lemma charge_reachable_inv:
  "charge_step\<^sup>*\<^sup>* (charge_start limit threads) w \<Longrightarrow> charge_inv w \<and> cw_limit w = limit"
proof (induction rule: rtranclp_induct)
  case base
  have "sum_list (map returning (replicate threads CIdle)) = 0" by (induction threads) auto
  then show ?case by (simp add: charge_start_def charge_inv_def)
next
  case (step y z)
  then show ?case using charge_step_inv by blast
qed

text \<open>
  C30. Under every interleaving of the charge and credit loops of any number of threads, the
  committed bytes of the arena never exceed its limit, and are exactly the bytes charged and not
  yet credited: no update is lost and no saturation ever happens.
\<close>

theorem charge_concurrent:
  assumes "charge_step\<^sup>*\<^sup>* (charge_start limit threads) w"
  shows "cw_committed w \<le> limit
    \<and> cw_committed w = sum_mset (cw_held w) + sum_list (map returning (cw_pcs w))"
  using charge_reachable_inv [OF assms] by (simp add: charge_inv_def)

text \<open>Two threads load the same value; one commits, the other retries and is refused.\<close>

theorem charge_concurrent_witness:
  "\<exists>w. charge_step\<^sup>*\<^sup>* (charge_start 100 2) w \<and> cw_held w = {#60#} \<and> cw_committed w = 60
     \<and> cw_pcs w = [CIdle, CIdle]"
proof -
  let ?w = "\<lambda>c p h. \<lparr>cw_committed = c, cw_limit = 100, cw_pcs = p, cw_held = h\<rparr>"
  have s0: "charge_start 100 2 = ?w 0 [CIdle, CIdle] {#}"
    by (simp add: charge_start_def numeral_2_eq_2)
  have s1: "charge_step (?w 0 [CIdle, CIdle] {#}) (?w 0 [Charging 0 60, CIdle] {#})"
    using charge_load [of 0 "?w 0 [CIdle, CIdle] {#}" 60] by simp
  have s2: "charge_step (?w 0 [Charging 0 60, CIdle] {#}) (?w 0 [Charging 0 60, Charging 0 50] {#})"
    using charge_load [of 1 "?w 0 [Charging 0 60, CIdle] {#}" 50] by simp
  have s3: "charge_step (?w 0 [Charging 0 60, Charging 0 50] {#}) (?w 60 [CIdle, Charging 0 50] {#60#})"
    using charge_commit [of 0 "?w 0 [Charging 0 60, Charging 0 50] {#}" 0 60 60]
    by (simp add: checked_add_def USIZE_MAX_def)
  have s4: "charge_step (?w 60 [CIdle, Charging 0 50] {#60#}) (?w 60 [CIdle, Charging 60 50] {#60#})"
    using charge_retry [of 1 "?w 60 [CIdle, Charging 0 50] {#60#}" 0 50 50]
    by (simp add: checked_add_def USIZE_MAX_def)
  have s5: "charge_step (?w 60 [CIdle, Charging 60 50] {#60#}) (?w 60 [CIdle, CIdle] {#60#})"
    using charge_exceeded [of 1 "?w 60 [CIdle, Charging 60 50] {#60#}" 60 50 110]
    by (simp add: checked_add_def USIZE_MAX_def)
  have run: "charge_step\<^sup>*\<^sup>* (charge_start 100 2) (?w 60 [CIdle, CIdle] {#60#})"
    unfolding s0 using s1 s2 s3 s4 s5 by (meson r_into_rtranclp rtranclp.rtrancl_into_rtrancl)
  from charge_concurrent [OF run] run show ?thesis by fastforce
qed

end
