(* ===== verification/DList.thy ===== *)
theory DList
  imports Main
begin

text \<open>
  Intrusive doubly linked lists over an index-addressed pool: \<open>nx\<close> and \<open>pv\<close> are the link
  fields of every index, \<open>chain nx pv p xs e\<close> says that the nodes \<open>xs\<close> are linked in this
  order between a predecessor \<open>p\<close> and a successor \<open>e\<close>. The lemmas give the effect of the three
  pointer updates the allocator uses: insertion at the front, insertion after a node, removal.
\<close>

definition hd_or :: "'a list \<Rightarrow> 'a \<Rightarrow> 'a" where
  "hd_or xs e = (case xs of [] \<Rightarrow> e | x # _ \<Rightarrow> x)"

definition last_or :: "'a \<Rightarrow> 'a list \<Rightarrow> 'a" where
  "last_or p xs = (if xs = [] then p else last xs)"

fun chain :: "('a \<Rightarrow> 'a) \<Rightarrow> ('a \<Rightarrow> 'a) \<Rightarrow> 'a \<Rightarrow> 'a list \<Rightarrow> 'a \<Rightarrow> bool" where
  "chain nx pv p [] e \<longleftrightarrow> True"
| "chain nx pv p (x # xs) e \<longleftrightarrow> pv x = p \<and> nx x = hd_or xs e \<and> chain nx pv x xs e"

lemma hd_or_simps [simp]: "hd_or [] e = e" "hd_or (x # xs) e = x"
  by (simp_all add: hd_or_def)

lemma last_or_simps [simp]: "last_or p [] = p" "last_or p (xs @ [x]) = x" "last_or p (x # xs) = last_or x xs"
  by (auto simp: last_or_def)

lemma hd_or_append: "hd_or (xs @ ys) e = hd_or xs (hd_or ys e)"
  by (cases xs) simp_all

lemma last_or_append: "last_or p (xs @ ys) = last_or (last_or p xs) ys"
  by (simp add: last_or_def)

lemma last_or_mem: "last_or p xs = p \<or> last_or p xs \<in> set xs"
  by (auto simp: last_or_def)

lemma hd_or_mem: "hd_or xs e = e \<or> hd_or xs e \<in> set xs"
  by (cases xs) simp_all

lemma chain_append:
  "chain nx pv p (xs @ ys) e \<longleftrightarrow> chain nx pv p xs (hd_or ys e) \<and> chain nx pv (last_or p xs) ys e"
  by (induction xs arbitrary: p) (auto simp: hd_or_append)

lemma chain_cong:
  assumes "\<And>x. x \<in> set xs \<Longrightarrow> nx' x = nx x" and "\<And>x. x \<in> set xs \<Longrightarrow> pv' x = pv x"
  shows "chain nx' pv' p xs e \<longleftrightarrow> chain nx pv p xs e"
  using assms by (induction xs arbitrary: p) auto

lemma chain_other [simp]:
  "i \<notin> set xs \<Longrightarrow> chain (nx(i := v)) pv p xs e = chain nx pv p xs e"
  "i \<notin> set xs \<Longrightarrow> chain nx (pv(i := v)) p xs e = chain nx pv p xs e"
  by (rule chain_cong; auto)+

text \<open>The links around a node of the list.\<close>

lemma chain_links:
  assumes "chain nx pv p (xs @ i # ys) e"
  shows "pv i = last_or p xs" and "nx i = hd_or ys e"
  using assms by (auto simp: chain_append)

text \<open>Changing the successor of the last node, or the predecessor of the first.\<close>

lemma chain_new_end:
  assumes "chain nx pv p xs e" and "distinct xs" and "xs \<noteq> []"
  shows "chain (nx(last xs := e')) pv p xs e'"
  using assms
proof (induction xs arbitrary: p)
  case (Cons x xs)
  then show ?case by (cases xs) (auto simp: hd_or_def)
qed simp

lemma chain_new_start:
  assumes "chain nx pv p xs e" and "distinct xs" and "xs \<noteq> []"
  shows "chain nx (pv(hd xs := p')) p' xs e"
  using assms by (cases xs) auto

definition set_end :: "('a \<Rightarrow> 'a) \<Rightarrow> 'a list \<Rightarrow> 'a \<Rightarrow> 'a \<Rightarrow> 'a" where
  "set_end nx xs e = (if xs = [] then nx else nx(last xs := e))"

definition set_start :: "('a \<Rightarrow> 'a) \<Rightarrow> 'a list \<Rightarrow> 'a \<Rightarrow> 'a \<Rightarrow> 'a" where
  "set_start pv xs p = (if xs = [] then pv else pv(hd xs := p))"

text \<open>Removal of \<open>i\<close>: its neighbours are linked to each other.\<close>

lemma chain_remove:
  assumes "chain nx pv p (xs @ i # ys) e" and "distinct (xs @ i # ys)"
  shows "chain (set_end nx xs (hd_or ys e)) (set_start pv ys (last_or p xs)) p (xs @ ys) e"
proof -
  have c: "chain nx pv p xs i" "chain nx pv i ys e" using assms(1) by (auto simp: chain_append)
  have d: "distinct xs" "distinct ys" "set xs \<inter> set ys = {}" "i \<notin> set xs" "i \<notin> set ys"
    using assms(2) by auto
  have 1: "chain (set_end nx xs (hd_or ys e)) (set_start pv ys (last_or p xs)) p xs (hd_or ys e)"
  proof (cases "xs = []")
    case False
    have "chain (nx(last xs := hd_or ys e)) pv p xs (hd_or ys e)"
      by (rule chain_new_end [OF c(1) d(1) False])
    moreover have "hd ys \<notin> set xs" if "ys \<noteq> []" using that d(3) hd_in_set by blast
    ultimately show ?thesis using False by (auto simp: set_end_def set_start_def)
  qed simp
  have 2: "chain (set_end nx xs (hd_or ys e)) (set_start pv ys (last_or p xs)) (last_or p xs) ys e"
  proof (cases "ys = []")
    case False
    have "chain nx (pv(hd ys := last_or p xs)) (last_or p xs) ys e"
      by (rule chain_new_start [OF c(2) d(2) False])
    moreover have "last xs \<notin> set ys" if "xs \<noteq> []" using that d(3) last_in_set by blast
    ultimately show ?thesis using False by (auto simp: set_end_def set_start_def)
  qed simp
  from 1 2 show ?thesis by (simp add: chain_append)
qed

text \<open>Insertion of a node \<open>n\<close> between \<open>xs\<close> and \<open>ys\<close>.\<close>

lemma chain_insert:
  assumes "chain nx pv p (xs @ ys) e" and "distinct (xs @ ys)" and "n \<notin> set xs" and "n \<notin> set ys"
  shows "chain (set_end (nx(n := hd_or ys e)) xs n) (set_start (pv(n := last_or p xs)) ys n)
           p (xs @ n # ys) e"
proof -
  have c: "chain nx pv p xs (hd_or ys e)" "chain nx pv (last_or p xs) ys e"
    using assms(1) by (auto simp: chain_append)
  have d: "distinct xs" "distinct ys" "set xs \<inter> set ys = {}" using assms(2) by auto
  let ?nx = "set_end (nx(n := hd_or ys e)) xs n" and ?pv = "set_start (pv(n := last_or p xs)) ys n"
  have 1: "chain ?nx ?pv p xs n"
  proof (cases "xs = []")
    case False
    have "chain (nx(last xs := n)) pv p xs n" by (rule chain_new_end [OF c(1) d(1) False])
    then have "chain ((nx(last xs := n))(n := hd_or ys e)) pv p xs n" using assms(3) by simp
    moreover have "(nx(last xs := n))(n := hd_or ys e) = ?nx"
      using False assms(3) by (simp add: set_end_def) (metis fun_upd_twist last_in_set)
    moreover have "hd ys \<notin> set xs" if "ys \<noteq> []" using that d(3) hd_in_set by blast
    ultimately show ?thesis using assms(3) by (auto simp: set_start_def)
  qed simp
  have 2: "chain ?nx ?pv n ys e"
  proof (cases "ys = []")
    case False
    have "chain nx (pv(hd ys := n)) n ys e" by (rule chain_new_start [OF c(2) d(2) False])
    then have "chain (nx(n := hd_or ys e)) (pv(hd ys := n)) n ys e" using assms(4) by simp
    moreover have "last xs \<notin> set ys" if "xs \<noteq> []" using that d(3) last_in_set by blast
    ultimately have "chain ?nx (pv(hd ys := n)) n ys e" by (simp add: set_end_def)
    moreover have "?pv = (pv(hd ys := n))(n := last_or p xs)"
      using False assms(4) by (simp add: set_start_def) (metis fun_upd_twist hd_in_set)
    ultimately show ?thesis using assms(4) by simp
  qed simp
  have "?nx n = hd_or ys e" using assms(3) by (auto simp: set_end_def)
  moreover have "?pv n = last_or p xs" using assms(4) by (auto simp: set_start_def)
  ultimately show ?thesis using 1 2 by (simp add: chain_append)
qed

text \<open>A list is determined by its first node and its successor links.\<close>

lemma chain_unique:
  assumes "chain nx pv p xs e" and "chain nx pv p ys e" and "hd_or xs e = hd_or ys e"
    and "e \<notin> set xs" and "e \<notin> set ys"
  shows "xs = ys"
  using assms
proof (induction xs arbitrary: ys p)
  case Nil
  then show ?case by (cases ys) auto
next
  case (Cons x xs)
  then obtain ys' where ys: "ys = x # ys'" by (cases ys) auto
  have "xs = ys'" by (rule Cons.IH [of x]) (use Cons.prems ys in auto)
  then show ?case using ys by simp
qed

end
