(* ===== verification/Extent.thy ===== *)
theory Extent
  imports Overflow Ids SizeClasses DList "HOL-Library.Monad_Syntax"
begin

text \<open>
  \<open>crates/topo-core/src/extent.rs\<close>, the extent map: the page-granular ranges of one region, kept
  in a fixed pool of slots. Three intrusive lists run through the pool: the address-ordered list
  of all extents, a doubly linked list of free extents per size bin, and the singly linked list
  of unused slots. \<open>NIL\<close> ends every list. A slot read or written through an index is the raw
  pointer access of the code; \<open>em_notes\<close> records the calls to the \<open>ExtentNotify\<close> hook.
\<close>

section \<open>Extents and slots\<close>

definition NIL :: nat where "NIL = U32_MAX"
definition NBINS :: nat where "NBINS = 64 + 1"

type_synonym ExtentId = nat

record ExtentRef =
  er_id :: ExtentId
  er_generation :: nat

datatype ExtentState = EReserved | EActive | EDirty | EMuzzy | EReleased

definition ExtentState_from_u8 :: "nat \<Rightarrow> ExtentState" where
  "ExtentState_from_u8 v =
     (if v = 1 then EActive
      else if v = 2 then EDirty
      else if v = 3 then EMuzzy
      else if v = 4 then EReleased
      else EReserved)"

definition is_free :: "ExtentState \<Rightarrow> bool" where
  "is_free s \<longleftrightarrow> s \<noteq> EActive"

definition is_backed :: "ExtentState \<Rightarrow> bool" where
  "is_backed s \<longleftrightarrow> s = EActive \<or> s = EDirty \<or> s = EMuzzy"

fun ExtentState_can_transition :: "ExtentState \<Rightarrow> ExtentState \<Rightarrow> bool" where
  "ExtentState_can_transition a EActive = True"
| "ExtentState_can_transition EActive EDirty = True"
| "ExtentState_can_transition EActive EReleased = True"
| "ExtentState_can_transition EReserved EDirty = True"
| "ExtentState_can_transition EReleased EDirty = True"
| "ExtentState_can_transition EDirty EMuzzy = True"
| "ExtentState_can_transition EReserved EReleased = True"
| "ExtentState_can_transition EDirty EReleased = True"
| "ExtentState_can_transition EMuzzy EReleased = True"
| "ExtentState_can_transition a b = (a = b)"

record HugeRange =
  hr_base :: usize
  hr_len :: usize

definition HugeRange_is_some :: "HugeRange \<Rightarrow> bool" where
  "HugeRange_is_some h \<longleftrightarrow> hr_len h \<noteq> 0"

record Extent =
  ex_id :: ExtentId
  ex_arena :: ArenaId
  ex_base :: addr
  ex_len :: usize
  ex_committed_len :: usize
  ex_state :: ExtentState
  ex_huge :: HugeRange
  ex_split_generation :: nat
  ex_generation :: nat
  ex_flags :: nat

definition Extent_end :: "Extent \<Rightarrow> addr" where
  "Extent_end e = saturating_add 64 (ex_base e) (ex_len e)"

definition Extent_range :: "Extent \<Rightarrow> addr \<times> addr" where
  "Extent_range e = (ex_base e, saturating_add 64 (ex_base e) (ex_len e))"

record StateBytes =
  sb_reserved :: usize
  sb_active :: usize
  sb_dirty :: usize
  sb_muzzy :: usize
  sb_released :: usize

definition StateBytes_zero :: StateBytes where
  "StateBytes_zero = \<lparr>sb_reserved = 0, sb_active = 0, sb_dirty = 0, sb_muzzy = 0, sb_released = 0\<rparr>"

definition StateBytes_total :: "StateBytes \<Rightarrow> usize" where
  "StateBytes_total b = wrapping_add 64 (wrapping_add 64 (wrapping_add 64 (wrapping_add 64
       (sb_reserved b) (sb_active b)) (sb_dirty b)) (sb_muzzy b)) (sb_released b)"

definition StateBytes_committed :: "StateBytes \<Rightarrow> usize" where
  "StateBytes_committed b = wrapping_add 64 (wrapping_add 64 (sb_active b) (sb_dirty b)) (sb_muzzy b)"

definition StateBytes_free :: "StateBytes \<Rightarrow> usize" where
  "StateBytes_free b = wrapping_add 64 (wrapping_add 64 (wrapping_add 64
       (sb_reserved b) (sb_dirty b)) (sb_muzzy b)) (sb_released b)"

definition StateBytes_add :: "StateBytes \<Rightarrow> StateBytes \<Rightarrow> StateBytes" where
  "StateBytes_add a b =
     \<lparr>sb_reserved = saturating_add 64 (sb_reserved a) (sb_reserved b),
      sb_active = saturating_add 64 (sb_active a) (sb_active b),
      sb_dirty = saturating_add 64 (sb_dirty a) (sb_dirty b),
      sb_muzzy = saturating_add 64 (sb_muzzy a) (sb_muzzy b),
      sb_released = saturating_add 64 (sb_released a) (sb_released b)\<rparr>"

datatype Fit = First | Best

datatype ExtentNote =
  OnSplit (n_base: addr) (n_total: usize) (n_prefix: usize) (n_backed: bool)
| OnMerge (n_left: addr) (n_left_len: usize) (n_right: addr) (n_right_len: usize) (n_mbacked: bool)

text \<open>The \<open>u8\<close> flags \<open>occupied\<close> and \<open>canary\<close> only ever hold 0 and 1.\<close>

record Slot =
  s_base :: addr
  s_len :: usize
  s_committed_len :: usize
  s_huge_base :: usize
  s_huge_len :: usize
  s_arena :: ArenaId
  s_split_gen :: nat
  s_generation :: nat
  s_flags :: nat
  addr_prev :: nat
  addr_next :: nat
  bin_prev :: nat
  bin_next :: nat
  free_next :: nat
  s_state :: ExtentState
  s_occupied :: bool
  s_canary :: bool

text \<open>\<open>usize::BITS - leading_zeros\<close>: the number of significant bits.\<close>

fun bit_length :: "nat \<Rightarrow> nat" where
  "bit_length n = (if n = 0 then 0 else Suc (bit_length (n div 2)))"

declare bit_length.simps [simp del]

definition bin_index :: "usize \<Rightarrow> nat" where
  "bin_index pages = bit_length pages"

record ExtentMap =
  slots :: "nat \<Rightarrow> Slot"
  cap :: nat
  region_base :: addr
  region_len :: usize
  em_arena :: ArenaId
  free_slot_head :: nat
  unused_slots :: nat
  addr_head :: nat
  addr_tail :: nat
  bins :: "nat \<Rightarrow> nat"
  free_bytes :: usize
  committed_bytes :: usize
  em_notes :: "ExtentNote list"

definition put :: "nat \<Rightarrow> Slot \<Rightarrow> ExtentMap \<Rightarrow> ExtentMap" where
  "put i s m = m\<lparr>slots := (slots m)(i := s)\<rparr>"

section \<open>The slot pool and the two indexes\<close>

definition pop_slot :: "ExtentMap \<Rightarrow> (ExtentId \<times> ExtentMap) option" where
  "pop_slot m =
     (let i = free_slot_head m in
      if i = NIL then None
      else let s = slots m i;
               m = m\<lparr>free_slot_head := free_next s, unused_slots := wrapping_sub 32 (unused_slots m) 1\<rparr>
           in Some (i, put i (s\<lparr>free_next := NIL,
                               s_generation := wrapping_add 32 (s_generation s) 1\<rparr>) m))"

definition push_slot :: "nat \<Rightarrow> ExtentMap \<Rightarrow> ExtentMap" where
  "push_slot i m =
     (let s = slots m i;
          m = put i (s\<lparr>s_occupied := False,
                      s_generation := wrapping_add 32 (s_generation s) 1,
                      free_next := free_slot_head m\<rparr>) m
      in m\<lparr>free_slot_head := i, unused_slots := wrapping_add 32 (unused_slots m) 1\<rparr>)"

definition bin_of :: "Slot \<Rightarrow> nat" where
  "bin_of s = bin_index (s_len s div PAGE_SIZE)"

definition bin_insert :: "nat \<Rightarrow> ExtentMap \<Rightarrow> ExtentMap" where
  "bin_insert i m =
     (let s = slots m i; b = bin_of s; head = bins m b;
          m = put i (s\<lparr>bin_prev := NIL, bin_next := head\<rparr>) m;
          m = (if head \<noteq> NIL then put head ((slots m head)\<lparr>bin_prev := i\<rparr>) m else m)
      in m\<lparr>bins := (bins m)(b := i)\<rparr>)"

definition bin_remove :: "nat \<Rightarrow> ExtentMap \<Rightarrow> ExtentMap" where
  "bin_remove i m =
     (let s = slots m i; b = bin_of s;
          m = (if bin_prev s \<noteq> NIL
               then put (bin_prev s) ((slots m (bin_prev s))\<lparr>bin_next := bin_next s\<rparr>) m
               else m\<lparr>bins := (bins m)(b := bin_next s)\<rparr>);
          m = (if bin_next s \<noteq> NIL
               then put (bin_next s) ((slots m (bin_next s))\<lparr>bin_prev := bin_prev s\<rparr>) m
               else m)
      in put i ((slots m i)\<lparr>bin_prev := NIL, bin_next := NIL\<rparr>) m)"

definition addr_insert_after :: "nat \<Rightarrow> nat \<Rightarrow> ExtentMap \<Rightarrow> ExtentMap" where
  "addr_insert_after new after m =
     (let next = (if after = NIL then addr_head m else addr_next (slots m after));
          m = put new ((slots m new)\<lparr>addr_prev := after, addr_next := next\<rparr>) m;
          m = (if after = NIL then m\<lparr>addr_head := new\<rparr>
               else put after ((slots m after)\<lparr>addr_next := new\<rparr>) m)
      in if next = NIL then m\<lparr>addr_tail := new\<rparr>
         else put next ((slots m next)\<lparr>addr_prev := new\<rparr>) m)"

definition addr_remove :: "nat \<Rightarrow> ExtentMap \<Rightarrow> ExtentMap" where
  "addr_remove i m =
     (let s = slots m i;
          m = (if addr_prev s \<noteq> NIL
               then put (addr_prev s) ((slots m (addr_prev s))\<lparr>addr_next := addr_next s\<rparr>) m
               else m\<lparr>addr_head := addr_next s\<rparr>)
      in if addr_next s \<noteq> NIL
         then put (addr_next s) ((slots m (addr_next s))\<lparr>addr_prev := addr_prev s\<rparr>) m
         else m\<lparr>addr_tail := addr_prev s\<rparr>)"

definition EXTENT_SLOT_BYTES :: usize where "EXTENT_SLOT_BYTES = 80"

text \<open>
  The pool comes zeroed from the metadata allocator; only whether the allocation succeeded
  matters here.
\<close>

definition zero_slot :: Slot where
  "zero_slot =
     \<lparr>s_base = 0, s_len = 0, s_committed_len = 0, s_huge_base = 0, s_huge_len = 0, s_arena = 0,
      s_split_gen = 0, s_generation = 0, s_flags = 0, addr_prev = 0, addr_next = 0, bin_prev = 0,
      bin_next = 0, free_next = 0, s_state = EReserved, s_occupied = False, s_canary = False\<rparr>"

fun link_free_slots :: "nat list \<Rightarrow> ExtentMap \<Rightarrow> ExtentMap" where
  "link_free_slots [] m = m"
| "link_free_slots (i # is) m =
     (let m = put i ((slots m i)\<lparr>free_next := free_slot_head m\<rparr>) m
      in link_free_slots is (m\<lparr>free_slot_head := i, unused_slots := wrapping_add 32 (unused_slots m) 1\<rparr>))"

definition ExtentMap_new ::
  "('m \<Rightarrow> usize \<Rightarrow> usize \<Rightarrow> addr option \<times> 'm) \<Rightarrow> 'm \<Rightarrow> addr \<Rightarrow> usize \<Rightarrow> usize \<Rightarrow>
     ExtentMap option \<times> 'm" where
  "ExtentMap_new alloc meta rbase rlen slot_cap =
     (if rlen = 0 \<or> slot_cap = 0 \<or> \<not> PAGE_SIZE dvd rbase \<or> \<not> PAGE_SIZE dvd rlen
         \<or> NIL < slot_cap \<or> checked_add rbase rlen = None
      then (None, meta)
      else case checked_mul slot_cap EXTENT_SLOT_BYTES of
             None \<Rightarrow> (None, meta)
           | Some bytes \<Rightarrow>
               (case alloc meta bytes 8 of
                  (None, meta) \<Rightarrow> (None, meta)
                | (Some _, meta) \<Rightarrow>
                    (let m = \<lparr>slots = (\<lambda>_. zero_slot), cap = slot_cap, region_base = rbase,
                              region_len = rlen, em_arena = ArenaId_DEFAULT, free_slot_head = NIL,
                              unused_slots = 0, addr_head = NIL, addr_tail = NIL,
                              bins = (\<lambda>_. NIL), free_bytes = 0, committed_bytes = 0,
                              em_notes = []\<rparr>;
                         m = link_free_slots (rev [0..<slot_cap]) m
                     in case pop_slot m of
                          None \<Rightarrow> (None, meta)
                        | Some (i, m) \<Rightarrow>
                            (let m = put i ((slots m i)\<lparr>s_base := rbase, s_len := rlen,
                                       s_committed_len := 0, s_huge_base := 0, s_huge_len := 0,
                                       s_arena := ArenaId_DEFAULT, s_split_gen := 0, s_flags := 0,
                                       s_state := EReserved, s_occupied := True, s_canary := False,
                                       addr_prev := NIL, addr_next := NIL\<rparr>) m;
                                 m = m\<lparr>addr_head := i, addr_tail := i\<rparr>;
                                 m = bin_insert i m
                             in (Some (m\<lparr>free_bytes := rlen\<rparr>), meta)))))"

definition em_set_arena :: "ArenaId \<Rightarrow> ExtentMap \<Rightarrow> ExtentMap" where
  "em_set_arena arena m =
     (let m = m\<lparr>em_arena := arena\<rparr>; head = addr_head m in
      if head \<noteq> NIL then put head ((slots m head)\<lparr>s_arena := arena\<rparr>) m else m)"

section \<open>Views\<close>

definition snapshot :: "nat \<Rightarrow> Slot \<Rightarrow> Extent" where
  "snapshot i s =
     \<lparr>ex_id = i, ex_arena = s_arena s, ex_base = s_base s, ex_len = s_len s,
      ex_committed_len = s_committed_len s, ex_state = s_state s,
      ex_huge = \<lparr>hr_base = s_huge_base s, hr_len = s_huge_len s\<rparr>,
      ex_split_generation = s_split_gen s, ex_generation = s_generation s, ex_flags = s_flags s\<rparr>"

definition view :: "ExtentMap \<Rightarrow> ExtentId \<Rightarrow> Extent option" where
  "view m i =
     (if cap m \<le> i then None
      else let s = slots m i in if \<not> s_occupied s then None else Some (snapshot i s))"

definition extent_ref :: "ExtentMap \<Rightarrow> ExtentId \<Rightarrow> ExtentRef option" where
  "extent_ref m i = map_option (\<lambda>e. \<lparr>er_id = i, er_generation = ex_generation e\<rparr>) (view m i)"

definition resolve :: "ExtentMap \<Rightarrow> ExtentRef \<Rightarrow> Extent option" where
  "resolve m r = do {
     e \<leftarrow> view m (er_id r);
     (if ex_generation e = er_generation r then Some e else None)
   }"

definition em_region :: "ExtentMap \<Rightarrow> addr \<times> addr" where
  "em_region m = (region_base m, wrapping_add 64 (region_base m) (region_len m))"

definition state_bytes_step :: "Slot \<Rightarrow> StateBytes \<Rightarrow> StateBytes" where
  "state_bytes_step s sb =
     (case s_state s of
        EReserved \<Rightarrow> sb\<lparr>sb_reserved := wrapping_add 64 (sb_reserved sb) (s_len s)\<rparr>
      | EActive \<Rightarrow> sb\<lparr>sb_active := wrapping_add 64 (sb_active sb) (s_len s)\<rparr>
      | EDirty \<Rightarrow> sb\<lparr>sb_dirty := wrapping_add 64 (sb_dirty sb) (s_len s)\<rparr>
      | EMuzzy \<Rightarrow> sb\<lparr>sb_muzzy := wrapping_add 64 (sb_muzzy sb) (s_len s)\<rparr>
      | EReleased \<Rightarrow> sb\<lparr>sb_released := wrapping_add 64 (sb_released sb) (s_len s)\<rparr>)"

text \<open>The loop over the address list; it does not end on a cyclic list.\<close>

partial_function (option) state_bytes_loop ::
  "ExtentMap \<Rightarrow> nat \<Rightarrow> StateBytes \<Rightarrow> StateBytes option" where
  "state_bytes_loop m i sb =
     (if i = NIL then Some sb
      else let s = slots m i in state_bytes_loop m (addr_next s) (state_bytes_step s sb))"

definition state_bytes :: "ExtentMap \<Rightarrow> StateBytes option" where
  "state_bytes m = state_bytes_loop m (addr_head m) StateBytes_zero"

section \<open>Splitting and merging\<close>

definition split_in :: "ExtentId \<Rightarrow> usize \<Rightarrow> ExtentMap \<Rightarrow> (ExtentId \<times> ExtentMap) option" where
  "split_in i prefix_len m =
     (case view m i of
        None \<Rightarrow> None
      | Some parent \<Rightarrow>
          if prefix_len = 0 \<or> ex_len parent \<le> prefix_len \<or> \<not> PAGE_SIZE dvd prefix_len then None
          else case pop_slot m of
                 None \<Rightarrow> None
               | Some (right, m) \<Rightarrow>
                   (let suffix_len = ex_len parent - prefix_len;
                        backed = (ex_committed_len parent = ex_len parent);
                        right_base = wrapping_add 64 (ex_base parent) prefix_len;
                        parent_canary = s_canary (slots m i);
                        m = put right ((slots m right)\<lparr>s_base := right_base, s_len := suffix_len,
                              s_committed_len := (if backed then suffix_len else 0),
                              s_huge_base := 0, s_huge_len := 0, s_arena := ex_arena parent,
                              s_split_gen := wrapping_add 32 (ex_split_generation parent) 1,
                              s_flags := ex_flags parent, s_state := ex_state parent,
                              s_occupied := True, s_canary := parent_canary\<rparr>) m;
                        was_free = is_free (s_state (slots m i));
                        m = (if was_free then bin_remove i m else m);
                        ls = slots m i;
                        m = put i (ls\<lparr>s_len := prefix_len,
                              s_committed_len := (if backed then prefix_len else 0),
                              s_split_gen := wrapping_add 32 (s_split_gen ls) 1\<rparr>) m;
                        m = addr_insert_after right i m;
                        m = (if was_free then bin_insert right (bin_insert i m) else m)
                    in Some (right, m\<lparr>em_notes := em_notes m
                         @ [OnSplit (ex_base parent) (ex_len parent) prefix_len backed]\<rparr>)))"

definition mergeable :: "Extent \<Rightarrow> Extent \<Rightarrow> bool" where
  "mergeable left right \<longleftrightarrow>
     Extent_end left = ex_base right \<and> ex_arena left = ex_arena right
     \<and> is_free (ex_state left) \<and> is_free (ex_state right)
     \<and> (ex_committed_len left = ex_len left) = (ex_committed_len right = ex_len right)
     \<and> \<not> HugeRange_is_some (ex_huge left) \<and> \<not> HugeRange_is_some (ex_huge right)"

definition merge_in :: "ExtentId \<Rightarrow> ExtentId \<Rightarrow> ExtentMap \<Rightarrow> bool \<times> ExtentMap" where
  "merge_in left right m =
     (case (view m left, view m right) of
        (Some lv, Some rv) \<Rightarrow>
          if left = right \<or> \<not> mergeable lv rv then (False, m)
          else
            (let right_canary = s_canary (slots m right);
                 m = bin_remove left m;
                 m = bin_remove right m;
                 m = addr_remove right m;
                 ls = slots m left;
                 len = wrapping_add 64 (ex_len lv) (ex_len rv);
                 committed_len = wrapping_add 64 (ex_committed_len lv) (ex_committed_len rv);
                 m = put left (ls\<lparr>s_len := len, s_committed_len := committed_len,
                       s_split_gen := wrapping_add 32 (s_split_gen ls) 1,
                       s_canary := (s_canary ls \<and> right_canary),
                       s_state := (if committed_len = len then EDirty else EReleased)\<rparr>) m;
                 m = bin_insert left m;
                 m = push_slot right m
             in (True, m\<lparr>em_notes := em_notes m
                  @ [OnMerge (ex_base lv) (ex_len lv) (ex_base rv) (ex_len rv)
                       (ex_committed_len lv = ex_len lv)]\<rparr>))
      | _ \<Rightarrow> (False, m))"

definition coalesce_in :: "ExtentId \<Rightarrow> ExtentMap \<Rightarrow> ExtentId \<times> ExtentMap" where
  "coalesce_in i m =
     (let survivor = i;
          next = addr_next (slots m survivor);
          m = (if next \<noteq> NIL then snd (merge_in survivor next m) else m);
          prev = addr_prev (slots m survivor)
      in if prev \<noteq> NIL
         then (case merge_in prev survivor m of (ok, m) \<Rightarrow> (if ok then prev else survivor, m))
         else (survivor, m))"

definition em_addr_next :: "ExtentMap \<Rightarrow> ExtentId \<Rightarrow> ExtentId option" where
  "em_addr_next m i = (let n = addr_next (slots m i) in if n \<noteq> NIL then Some n else None)"

definition absorb_next_in :: "ExtentId \<Rightarrow> ExtentId \<Rightarrow> ExtentMap \<Rightarrow> ExtentMap" where
  "absorb_next_in i next m =
     (let lv = slots m i; rv = slots m next;
          m = bin_remove next m;
          m = addr_remove next m;
          s = slots m i;
          m = put i (s\<lparr>s_len := wrapping_add 64 (s_len s) (s_len rv),
                s_committed_len := wrapping_add 64 (s_committed_len s) (s_committed_len rv),
                s_split_gen := wrapping_add 32 (s_split_gen s) 1, s_canary := False\<rparr>) m;
          m = m\<lparr>free_bytes := wrapping_sub 64 (free_bytes m) (s_len rv)\<rparr>;
          m = push_slot next m
      in m\<lparr>em_notes := em_notes m @ [OnMerge (s_base lv) (s_len lv) (s_base rv) (s_len rv) True]\<rparr>)"

section \<open>Carving and freeing\<close>

text \<open>
  The search through the bins. \<open>steps\<close> counts the nodes visited and bounds the loop by the size
  of the pool: \<open>Inl\<close> is the early return of the whole function.
\<close>

type_synonym fit_result = "(nat \<times> addr \<times> usize) option"

definition fit_hit :: "ExtentMap \<Rightarrow> usize \<Rightarrow> usize \<Rightarrow> nat \<Rightarrow> fit_result" where
  "fit_hit m needed align i =
     (let s = slots m i in
      case align_up (s_base s) align of
        None \<Rightarrow> None
      | Some aligned \<Rightarrow>
          let prefix = wrapping_sub 64 aligned (s_base s) in
          (case checked_add prefix needed of
             None \<Rightarrow> None
           | Some tot \<Rightarrow> if tot \<le> s_len s then Some (i, aligned, prefix) else None))"

definition fit_better :: "ExtentMap \<Rightarrow> nat \<Rightarrow> fit_result \<Rightarrow> bool" where
  "fit_better m i best =
     (case best of None \<Rightarrow> True | Some (bi, _, _) \<Rightarrow> s_len (slots m i) < s_len (slots m bi))"

function fit_bin ::
  "ExtentMap \<Rightarrow> usize \<Rightarrow> usize \<Rightarrow> Fit \<Rightarrow> nat \<Rightarrow> nat \<Rightarrow> fit_result \<Rightarrow> fit_result + nat \<times> fit_result"
where
  "fit_bin m needed align fit i steps best =
     (if i = NIL then Inr (steps, best)
      else if cap m < steps + 1 then Inl best
      else case (fit_hit m needed align i, fit) of
             (Some h, First) \<Rightarrow> Inl (Some h)
           | (Some h, Best) \<Rightarrow>
               fit_bin m needed align fit (bin_next (slots m i)) (steps + 1)
                 (if fit_better m i best then Some h else best)
           | (None, _) \<Rightarrow> fit_bin m needed align fit (bin_next (slots m i)) (steps + 1) best)"
  by pat_completeness auto
termination
  by (relation "measure (\<lambda>(m, needed, align, fit, i, steps, best). cap m - steps)") auto

declare fit_bin.simps [simp del]

fun fit_bins ::
  "ExtentMap \<Rightarrow> usize \<Rightarrow> usize \<Rightarrow> Fit \<Rightarrow> nat list \<Rightarrow> nat \<Rightarrow> fit_result \<Rightarrow> fit_result" where
  "fit_bins m needed align fit [] steps best = best"
| "fit_bins m needed align fit (b # bs) steps best =
     (case fit_bin m needed align fit (bins m b) steps best of
        Inl r \<Rightarrow> r
      | Inr (steps, best) \<Rightarrow>
          if fit = Best \<and> best \<noteq> None then best
          else fit_bins m needed align fit bs steps best)"

definition find_fit :: "ExtentMap \<Rightarrow> usize \<Rightarrow> usize \<Rightarrow> Fit \<Rightarrow> fit_result" where
  "find_fit m needed align fit =
     fit_bins m needed align fit [bin_index (needed div PAGE_SIZE)..<NBINS] 0 None"

definition carve_in ::
  "usize \<Rightarrow> usize \<Rightarrow> Fit \<Rightarrow> ExtentMap \<Rightarrow> ExtentId option \<times> ExtentMap" where
  "carve_in needed align fit m =
     (if needed = 0 \<or> \<not> PAGE_SIZE dvd needed \<or> \<not> is_power_of_two align then (None, m)
      else case find_fit m needed align fit of
             None \<Rightarrow> (None, m)
           | Some (slot, aligned, prefix) \<Rightarrow>
               (let avail = s_len (slots m slot);
                    splits = (if prefix > 0 then 1 else 0)
                             + (if wrapping_sub 64 avail prefix > needed then 1 else 0 :: nat)
                in if unused_slots m < splits then (None, m)
                   else case (if prefix > 0 then split_in slot prefix m else Some (slot, m)) of
                          None \<Rightarrow> (None, m)
                        | Some (active, m) \<Rightarrow>
                            (case (if s_len (slots m active) > needed
                                   then map_option snd (split_in active needed m) else Some m) of
                               None \<Rightarrow> (None, m)
                             | Some m \<Rightarrow>
                                 (let m = bin_remove active m;
                                      s = slots m active;
                                      m = put active (s\<lparr>s_state := EActive\<rparr>) m
                                  in (Some active,
                                      m\<lparr>free_bytes := wrapping_sub 64 (free_bytes m) (s_len s)\<rparr>)))))"

definition free_in_canary ::
  "ExtentId \<Rightarrow> ExtentState \<Rightarrow> bool \<Rightarrow> ExtentMap \<Rightarrow> ExtentId option \<times> ExtentMap" where
  "free_in_canary i new_state canary m =
     (case view m i of
        None \<Rightarrow> (None, m)
      | Some e \<Rightarrow>
          if ex_state e \<noteq> EActive \<or> \<not> ExtentState_can_transition (ex_state e) new_state
          then (None, m)
          else (let s = slots m i;
                    m = put i (s\<lparr>s_state := new_state,
                                s_canary := (canary \<and> new_state = EDirty)\<rparr>) m;
                    m = m\<lparr>free_bytes := wrapping_add 64 (free_bytes m) (ex_len e)\<rparr>;
                    m = bin_insert i m
                in case coalesce_in i m of (survivor, m) \<Rightarrow> (Some survivor, m)))"

definition free_in :: "ExtentId \<Rightarrow> ExtentState \<Rightarrow> ExtentMap \<Rightarrow> ExtentId option \<times> ExtentMap" where
  "free_in i new_state m = free_in_canary i new_state False m"

definition mark_committed :: "ExtentId \<Rightarrow> ExtentMap \<Rightarrow> usize \<times> ExtentMap" where
  "mark_committed i m =
     (let s = slots m i;
          newly = wrapping_sub 64 (s_len s) (s_committed_len s);
          s = s\<lparr>s_committed_len := s_len s\<rparr>;
          s = (if newly > 0 then s\<lparr>s_canary := False\<rparr> else s);
          s = (if is_free (s_state s) \<and> \<not> is_backed (s_state s) then s\<lparr>s_state := EDirty\<rparr> else s);
          m = put i s m
      in (newly, m\<lparr>committed_bytes := wrapping_add 64 (committed_bytes m) newly\<rparr>))"

definition mark_decommitted :: "ExtentId \<Rightarrow> ExtentState \<Rightarrow> ExtentMap \<Rightarrow> usize \<times> ExtentMap" where
  "mark_decommitted i new_state m =
     (let s = slots m i;
          was = s_committed_len s;
          m = put i (s\<lparr>s_committed_len := 0, s_canary := False, s_state := new_state\<rparr>) m
      in (was, m\<lparr>committed_bytes := wrapping_sub 64 (committed_bytes m) was\<rparr>))"

definition em_set_state :: "ExtentId \<Rightarrow> ExtentState \<Rightarrow> ExtentMap \<Rightarrow> bool \<times> ExtentMap" where
  "em_set_state i new_state m =
     (if view m i = None then (False, m)
      else let s = slots m i;
               s = (if new_state \<noteq> EDirty then s\<lparr>s_canary := False\<rparr> else s)
           in (True, put i (s\<lparr>s_state := new_state\<rparr>) m))"

definition extent_canary :: "ExtentMap \<Rightarrow> ExtentId \<Rightarrow> bool" where
  "extent_canary m i = s_canary (slots m i)"

definition set_flags :: "ExtentId \<Rightarrow> nat \<Rightarrow> ExtentMap \<Rightarrow> ExtentMap" where
  "set_flags i flags m = put i ((slots m i)\<lparr>s_flags := flags\<rparr>) m"

section \<open>The invariant walk\<close>

function is_in_bin_loop :: "ExtentMap \<Rightarrow> nat \<Rightarrow> nat \<Rightarrow> nat \<Rightarrow> bool" where
  "is_in_bin_loop m i j steps =
     (if j = NIL then False
      else if j = i then True
      else let j = bin_next (slots m j); steps = steps + 1 in
           if cap m < steps then False else is_in_bin_loop m i j steps)"
  by pat_completeness auto
termination
  by (relation "measure (\<lambda>(m, i, j, steps). cap m + 1 - steps)") auto

definition is_in_bin :: "ExtentMap \<Rightarrow> nat \<Rightarrow> bool" where
  "is_in_bin m i = is_in_bin_loop m i (bins m (bin_of (slots m i))) 0"

text \<open>The cursor, the previous slot and the counts the walk of the address list collects.\<close>

record Walk =
  w_cursor :: addr
  w_prev :: nat
  w_listed :: nat
  w_free :: usize
  w_committed :: usize

definition walk_slot_ok :: "ExtentMap \<Rightarrow> nat \<Rightarrow> Walk \<Rightarrow> bool" where
  "walk_slot_ok m i w =
     (let s = slots m i; st = s_state s in
      s_occupied s \<and> addr_prev s = w_prev w \<and> s_base s = w_cursor w
      \<and> s_len s \<noteq> 0 \<and> PAGE_SIZE dvd s_len s
      \<and> \<not> (s_committed_len s \<noteq> 0 \<and> s_committed_len s \<noteq> s_len s)
      \<and> \<not> (is_free st \<and> is_backed st \<noteq> (s_committed_len s = s_len s))
      \<and> is_free st = is_in_bin m i)"

function addr_walk :: "ExtentMap \<Rightarrow> nat \<Rightarrow> Walk \<Rightarrow> Walk option" where
  "addr_walk m i w =
     (if i = NIL then Some w
      else if \<not> walk_slot_ok m i w then None
      else let s = slots m i in
           case checked_add (w_cursor w) (s_len s) of
             None \<Rightarrow> None
           | Some c \<Rightarrow>
               let w' = \<lparr>w_cursor = c, w_prev = i, w_listed = w_listed w + 1,
                         w_free = (if is_free (s_state s) then wrapping_add 64 (w_free w) (s_len s)
                                   else w_free w),
                         w_committed = wrapping_add 64 (w_committed w) (s_committed_len s)\<rparr>
               in if cap m < w_listed w' then None else addr_walk m (addr_next s) w')"
  by pat_completeness auto
termination
  by (relation "measure (\<lambda>(m, i, w). cap m + 1 - w_listed w)") auto

function bin_walk :: "ExtentMap \<Rightarrow> nat \<Rightarrow> nat \<Rightarrow> nat \<Rightarrow> bool" where
  "bin_walk m b j seen =
     (if j = NIL then True
      else let s = slots m j in
           if \<not> s_occupied s \<or> \<not> is_free (s_state s) \<or> bin_of s \<noteq> b then False
           else if cap m < seen + 1 then False
           else bin_walk m b (bin_next s) (seen + 1))"
  by pat_completeness auto
termination
  by (relation "measure (\<lambda>(m, b, j, seen). cap m - seen)") auto

declare is_in_bin_loop.simps [simp del] addr_walk.simps [simp del] bin_walk.simps [simp del]

definition em_check_invariants :: "ExtentMap \<Rightarrow> bool" where
  "em_check_invariants m =
     (case addr_walk m (addr_head m)
             \<lparr>w_cursor = region_base m, w_prev = NIL, w_listed = 0, w_free = 0, w_committed = 0\<rparr> of
        None \<Rightarrow> False
      | Some w \<Rightarrow>
          w_cursor w = wrapping_add 64 (region_base m) (region_len m)
          \<and> addr_tail m = w_prev w
          \<and> w_free w = free_bytes m \<and> w_committed w = committed_bytes m
          \<and> w_listed w + unused_slots m = cap m
          \<and> list_all (\<lambda>b. bin_walk m b (bins m b) 0) [0..<NBINS])"

end
