(* ===== verification/Extent_Rep.thy ===== *)
theory Extent_Rep
  imports Extent
begin

text \<open>
  The representation invariant of the extent map of \<open>Extent\<close>: which lists the link fields of the
  slot pool hold, and the effect of the list primitives on them.
\<close>

section \<open>Representation\<close>

text \<open>
  \<open>em_rep m al fl bl\<close>: the address list holds \<open>al\<close>, the unused-slot list \<open>fl\<close>, the bin \<open>b\<close> the
  free extents \<open>bl b\<close>. The lists share the pool, the extents of \<open>al\<close> tile the region in order,
  and the byte counts are sums over them. The parts are kept separate because the operations
  change one at a time.
\<close>

lemma slots_put [simp]: "slots (put i s m) = (slots m)(i := s)"
  by (simp add: put_def)

lemma put_fields [simp]:
  "cap (put i s m) = cap m" "region_base (put i s m) = region_base m"
  "region_len (put i s m) = region_len m" "em_arena (put i s m) = em_arena m"
  "free_slot_head (put i s m) = free_slot_head m" "unused_slots (put i s m) = unused_slots m"
  "addr_head (put i s m) = addr_head m" "addr_tail (put i s m) = addr_tail m"
  "bins (put i s m) = bins m" "free_bytes (put i s m) = free_bytes m"
  "committed_bytes (put i s m) = committed_bytes m" "em_notes (put i s m) = em_notes m"
  by (simp_all add: put_def)

abbreviation anx :: "ExtentMap \<Rightarrow> nat \<Rightarrow> nat" where "anx m \<equiv> (\<lambda>i. addr_next (slots m i))"
abbreviation apv :: "ExtentMap \<Rightarrow> nat \<Rightarrow> nat" where "apv m \<equiv> (\<lambda>i. addr_prev (slots m i))"
abbreviation bnx :: "ExtentMap \<Rightarrow> nat \<Rightarrow> nat" where "bnx m \<equiv> (\<lambda>i. bin_next (slots m i))"
abbreviation bpv :: "ExtentMap \<Rightarrow> nat \<Rightarrow> nat" where "bpv m \<equiv> (\<lambda>i. bin_prev (slots m i))"

definition addr_ok :: "ExtentMap \<Rightarrow> nat list \<Rightarrow> bool" where
  "addr_ok m al \<longleftrightarrow> chain (anx m) (apv m) NIL al NIL
     \<and> addr_head m = hd_or al NIL \<and> addr_tail m = last_or NIL al \<and> distinct al \<and> NIL \<notin> set al"

definition bin_ok :: "ExtentMap \<Rightarrow> nat \<Rightarrow> nat list \<Rightarrow> bool" where
  "bin_ok m b xs \<longleftrightarrow> chain (bnx m) (bpv m) NIL xs NIL \<and> bins m b = hd_or xs NIL
     \<and> distinct xs \<and> NIL \<notin> set xs \<and> (\<forall>i\<in>set xs. bin_of (slots m i) = b)"

definition bins_ok :: "ExtentMap \<Rightarrow> (nat \<Rightarrow> nat list) \<Rightarrow> bool" where
  "bins_ok m bl \<longleftrightarrow> (\<forall>b. bin_ok m b (bl b))"

fun slist :: "(nat \<Rightarrow> nat) \<Rightarrow> nat list \<Rightarrow> nat \<Rightarrow> bool" where
  "slist nx [] e \<longleftrightarrow> True"
| "slist nx (x # xs) e \<longleftrightarrow> nx x = hd_or xs e \<and> slist nx xs e"

definition pool_ok :: "ExtentMap \<Rightarrow> nat list \<Rightarrow> bool" where
  "pool_ok m fl \<longleftrightarrow> slist (\<lambda>i. free_next (slots m i)) fl NIL \<and> free_slot_head m = hd_or fl NIL
     \<and> unused_slots m = length fl \<and> length fl < 2 ^ 32 \<and> distinct fl \<and> NIL \<notin> set fl
     \<and> (\<forall>i\<in>set fl. \<not> s_occupied (slots m i))"

fun tiles :: "(nat \<Rightarrow> Slot) \<Rightarrow> addr \<Rightarrow> nat list \<Rightarrow> addr \<Rightarrow> bool" where
  "tiles sl c [] e \<longleftrightarrow> c = e"
| "tiles sl c (i # is) e \<longleftrightarrow>
     s_base (sl i) = c \<and> 0 < s_len (sl i) \<and> PAGE_SIZE dvd s_len (sl i) \<and> tiles sl (c + s_len (sl i)) is e"

definition slot_ok :: "Slot \<Rightarrow> bool" where
  "slot_ok s \<longleftrightarrow> s_occupied s \<and> (s_committed_len s = 0 \<or> s_committed_len s = s_len s)
     \<and> (is_free (s_state s) \<longrightarrow> is_backed (s_state s) = (s_committed_len s = s_len s))"

definition free_len :: "Slot \<Rightarrow> nat" where
  "free_len s = (if is_free (s_state s) then s_len s else 0)"

definition geo_ok :: "ExtentMap \<Rightarrow> nat list \<Rightarrow> bool" where
  "geo_ok m al \<longleftrightarrow> tiles (slots m) (region_base m) al (region_base m + region_len m)
     \<and> is_usize (region_base m + region_len m) \<and> PAGE_SIZE dvd region_base m
     \<and> (\<forall>i\<in>set al. slot_ok (slots m i))
     \<and> free_bytes m = (\<Sum>i\<leftarrow>al. free_len (slots m i))
     \<and> committed_bytes m = (\<Sum>i\<leftarrow>al. s_committed_len (slots m i))"

definition binned :: "ExtentMap \<Rightarrow> nat list \<Rightarrow> (nat \<Rightarrow> nat list) \<Rightarrow> bool" where
  "binned m al bl \<longleftrightarrow>
     (\<forall>b i. i \<in> set (bl b) \<longleftrightarrow> i \<in> set al \<and> is_free (s_state (slots m i)) \<and> bin_of (slots m i) = b)"

subsection \<open>The fields the primitives leave alone\<close>

definition no_bin :: "Slot \<Rightarrow> Slot" where
  "no_bin s = s\<lparr>bin_prev := 0, bin_next := 0\<rparr>"

definition no_addr :: "Slot \<Rightarrow> Slot" where
  "no_addr s = s\<lparr>addr_prev := 0, addr_next := 0\<rparr>"

lemma no_bin_upd [simp]:
  "no_bin (s\<lparr>bin_prev := v\<rparr>) = no_bin s" "no_bin (s\<lparr>bin_next := v\<rparr>) = no_bin s"
  "no_bin (s\<lparr>bin_prev := v, bin_next := w\<rparr>) = no_bin s"
  by (simp_all add: no_bin_def)

lemma no_addr_upd [simp]:
  "no_addr (s\<lparr>addr_prev := v\<rparr>) = no_addr s" "no_addr (s\<lparr>addr_next := v\<rparr>) = no_addr s"
  "no_addr (s\<lparr>addr_prev := v, addr_next := w\<rparr>) = no_addr s"
  by (simp_all add: no_addr_def)

lemma no_bin_fields:
  assumes "no_bin s = no_bin t"
  shows "s_base s = s_base t" "s_len s = s_len t" "s_committed_len s = s_committed_len t"
    "s_huge_base s = s_huge_base t" "s_huge_len s = s_huge_len t" "s_arena s = s_arena t"
    "s_split_gen s = s_split_gen t" "s_generation s = s_generation t" "s_flags s = s_flags t"
    "addr_prev s = addr_prev t" "addr_next s = addr_next t" "free_next s = free_next t"
    "s_state s = s_state t" "s_occupied s = s_occupied t" "s_canary s = s_canary t"
  using assms by (cases s, cases t, simp add: no_bin_def)+

lemma no_addr_fields:
  assumes "no_addr s = no_addr t"
  shows "s_base s = s_base t" "s_len s = s_len t" "s_committed_len s = s_committed_len t"
    "s_huge_base s = s_huge_base t" "s_huge_len s = s_huge_len t" "s_arena s = s_arena t"
    "s_split_gen s = s_split_gen t" "s_generation s = s_generation t" "s_flags s = s_flags t"
    "bin_prev s = bin_prev t" "bin_next s = bin_next t" "free_next s = free_next t"
    "s_state s = s_state t" "s_occupied s = s_occupied t" "s_canary s = s_canary t"
  using assms by (cases s, cases t, simp add: no_addr_def)+

lemma put_no_bin:
  "no_bin s = no_bin (slots m i) \<Longrightarrow> (\<lambda>j. no_bin (slots (put i s m) j)) = (\<lambda>j. no_bin (slots m j))"
  by (auto simp: fun_eq_iff)

lemma put_no_addr:
  "no_addr s = no_addr (slots m i) \<Longrightarrow> (\<lambda>j. no_addr (slots (put i s m) j)) = (\<lambda>j. no_addr (slots m j))"
  by (auto simp: fun_eq_iff)

lemma bin_insert_no_bins: "(\<lambda>j. no_bin (slots (bin_insert i m) j)) = (\<lambda>j. no_bin (slots m j))"
  by (simp add: bin_insert_def Let_def put_no_bin del: slots_put)

lemma bin_remove_no_bins: "(\<lambda>j. no_bin (slots (bin_remove i m) j)) = (\<lambda>j. no_bin (slots m j))"
  by (simp add: bin_remove_def Let_def put_no_bin del: slots_put)

lemma addr_insert_after_no_addrs:
  "(\<lambda>j. no_addr (slots (addr_insert_after n a m) j)) = (\<lambda>j. no_addr (slots m j))"
  by (simp add: addr_insert_after_def Let_def put_no_addr del: slots_put)

lemma addr_remove_no_addrs: "(\<lambda>j. no_addr (slots (addr_remove i m) j)) = (\<lambda>j. no_addr (slots m j))"
  by (simp add: addr_remove_def Let_def put_no_addr del: slots_put)

lemmas bin_insert_no_bin = fun_cong [OF bin_insert_no_bins]
lemmas bin_remove_no_bin = fun_cong [OF bin_remove_no_bins]
lemmas addr_insert_after_no_addr = fun_cong [OF addr_insert_after_no_addrs]
lemmas addr_remove_no_addr = fun_cong [OF addr_remove_no_addrs]

lemmas bin_insert_slot [simp] = no_bin_fields [OF bin_insert_no_bin]
lemmas bin_remove_slot [simp] = no_bin_fields [OF bin_remove_no_bin]
lemmas addr_insert_after_slot [simp] = no_addr_fields [OF addr_insert_after_no_addr]
lemmas addr_remove_slot [simp] = no_addr_fields [OF addr_remove_no_addr]

lemma bin_insert_fields [simp]:
  "cap (bin_insert i m) = cap m" "region_base (bin_insert i m) = region_base m"
  "region_len (bin_insert i m) = region_len m" "em_arena (bin_insert i m) = em_arena m"
  "free_slot_head (bin_insert i m) = free_slot_head m" "unused_slots (bin_insert i m) = unused_slots m"
  "addr_head (bin_insert i m) = addr_head m" "addr_tail (bin_insert i m) = addr_tail m"
  "free_bytes (bin_insert i m) = free_bytes m" "committed_bytes (bin_insert i m) = committed_bytes m"
  "em_notes (bin_insert i m) = em_notes m"
  by (simp_all add: bin_insert_def Let_def)

lemma bin_remove_fields [simp]:
  "cap (bin_remove i m) = cap m" "region_base (bin_remove i m) = region_base m"
  "region_len (bin_remove i m) = region_len m" "em_arena (bin_remove i m) = em_arena m"
  "free_slot_head (bin_remove i m) = free_slot_head m" "unused_slots (bin_remove i m) = unused_slots m"
  "addr_head (bin_remove i m) = addr_head m" "addr_tail (bin_remove i m) = addr_tail m"
  "free_bytes (bin_remove i m) = free_bytes m" "committed_bytes (bin_remove i m) = committed_bytes m"
  "em_notes (bin_remove i m) = em_notes m"
  by (simp_all add: bin_remove_def Let_def)

lemma addr_insert_after_fields [simp]:
  "cap (addr_insert_after n a m) = cap m" "region_base (addr_insert_after n a m) = region_base m"
  "region_len (addr_insert_after n a m) = region_len m"
  "em_arena (addr_insert_after n a m) = em_arena m"
  "free_slot_head (addr_insert_after n a m) = free_slot_head m"
  "unused_slots (addr_insert_after n a m) = unused_slots m" "bins (addr_insert_after n a m) = bins m"
  "free_bytes (addr_insert_after n a m) = free_bytes m"
  "committed_bytes (addr_insert_after n a m) = committed_bytes m"
  "em_notes (addr_insert_after n a m) = em_notes m"
  by (simp_all add: addr_insert_after_def Let_def)

lemma addr_remove_fields [simp]:
  "cap (addr_remove i m) = cap m" "region_base (addr_remove i m) = region_base m"
  "region_len (addr_remove i m) = region_len m" "em_arena (addr_remove i m) = em_arena m"
  "free_slot_head (addr_remove i m) = free_slot_head m" "unused_slots (addr_remove i m) = unused_slots m"
  "bins (addr_remove i m) = bins m" "free_bytes (addr_remove i m) = free_bytes m"
  "committed_bytes (addr_remove i m) = committed_bytes m" "em_notes (addr_remove i m) = em_notes m"
  by (simp_all add: addr_remove_def Let_def)

lemma bin_of_len: "s_len s = s_len t \<Longrightarrow> bin_of s = bin_of t"
  by (simp add: bin_of_def)

subsection \<open>The primitives on the lists\<close>

lemma bin_insert_links:
  fixes m i
  defines "h \<equiv> bins m (bin_of (slots m i))"
  assumes "i \<noteq> NIL" and "h \<noteq> i"
  shows "bnx (bin_insert i m) = (bnx m)(i := h)"
    and "bpv (bin_insert i m) = (if h \<noteq> NIL then (bpv m)(i := NIL, h := i) else (bpv m)(i := NIL))"
    and "bins (bin_insert i m) = (bins m)(bin_of (slots m i) := i)"
  using assms by (auto simp: bin_insert_def Let_def fun_eq_iff)

lemma bin_insert_ok:
  assumes ok: "bins_ok m bl" and i: "i \<noteq> NIL" "\<And>b. i \<notin> set (bl b)" and b: "b = bin_of (slots m i)"
  shows "bins_ok (bin_insert i m) (bl(b := i # bl b))"
proof -
  have B: "bin_ok m c (bl c)" for c using ok by (simp add: bins_ok_def)
  have h: "bins m b = hd_or (bl b) NIL" using B [of b] by (simp add: bin_ok_def)
  then have hi: "bins m b \<noteq> i" using hd_or_mem [of "bl b" NIL] i by auto
  note L = bin_insert_links [of i m, folded b, OF i(1) hi]
  have same: "bin_of (slots (bin_insert i m) j) = bin_of (slots m j)" for j
    by (rule bin_of_len) simp
  have hn: "bl b \<noteq> []" "bins m b = hd (bl b)" if "bins m b \<noteq> NIL"
    using that h by (cases "bl b"; simp)+
  have other: "bin_ok (bin_insert i m) c (bl c)" if "c \<noteq> b" for c
  proof -
    have nm: "bins m b \<notin> set (bl c)" if "bins m b \<noteq> NIL"
      using hn [OF that] B [of b] B [of c] \<open>c \<noteq> b\<close> unfolding bin_ok_def
      by (metis list.set_sel(1))
    show ?thesis
      using B [of c] nm i(2) [of c] \<open>c \<noteq> b\<close> by (simp add: bin_ok_def L same)
  qed
  have "bin_ok (bin_insert i m) b (i # bl b)"
  proof -
    have "chain (bnx m) (bpv m) NIL ([] @ bl b) NIL" "distinct ([] @ bl b)"
      using B [of b] by (auto simp: bin_ok_def)
    from chain_insert [OF this, of i] i(2)
    have "chain ((bnx m)(i := hd_or (bl b) NIL)) (set_start ((bpv m)(i := NIL)) (bl b) i) NIL (i # bl b) NIL"
      by (simp add: set_end_def)
    moreover have "set_start ((bpv m)(i := NIL)) (bl b) i = bpv (bin_insert i m)"
      using h B [of b] by (cases "bl b") (auto simp: set_start_def L bin_ok_def)
    ultimately show ?thesis
      using B [of b] i h b by (simp add: bin_ok_def L same)
  qed
  with other show ?thesis by (simp add: bins_ok_def)
qed

lemma bin_remove_links:
  assumes p: "bin_prev (slots m i) = p" "p \<noteq> i" and n: "bin_next (slots m i) = n" "n \<noteq> i"
    and pn: "p = NIL \<or> p \<noteq> n"
  shows "bnx (bin_remove i m) = (if p \<noteq> NIL then (bnx m)(p := n) else bnx m)(i := NIL)"
    and "bpv (bin_remove i m) = (if n \<noteq> NIL then (bpv m)(n := p) else bpv m)(i := NIL)"
    and "bins (bin_remove i m) = (if p \<noteq> NIL then bins m else (bins m)(bin_of (slots m i) := n))"
proof -
  have sl: "slots (bin_remove i m) =
    ((let f = (if p \<noteq> NIL then (slots m)(p := (slots m p)\<lparr>bin_next := n\<rparr>) else slots m);
          f = (if n \<noteq> NIL then f(n := (f n)\<lparr>bin_prev := p\<rparr>) else f)
      in f(i := (f i)\<lparr>bin_prev := NIL, bin_next := NIL\<rparr>)))"
    by (simp add: bin_remove_def Let_def p(1) n(1))
  show "bnx (bin_remove i m) = (if p \<noteq> NIL then (bnx m)(p := n) else bnx m)(i := NIL)"
    unfolding sl Let_def using p(2) n(2) pn by (cases "p = NIL"; cases "n = NIL"; simp add: fun_eq_iff)
  show "bpv (bin_remove i m) = (if n \<noteq> NIL then (bpv m)(n := p) else bpv m)(i := NIL)"
    unfolding sl Let_def using p(2) n(2) pn by (cases "p = NIL"; cases "n = NIL"; simp add: fun_eq_iff)
  show "bins (bin_remove i m) = (if p \<noteq> NIL then bins m else (bins m)(bin_of (slots m i) := n))"
    by (simp add: bin_remove_def Let_def p(1) n(1))
qed

text \<open>The link updates of a removal are those of \<^const>\<open>set_end\<close> and \<^const>\<open>set_start\<close>.\<close>

lemma set_end_eq:
  "NIL \<notin> set xs \<Longrightarrow> set_end nx xs e = (if last_or NIL xs \<noteq> NIL then nx(last_or NIL xs := e) else nx)"
  by (cases "xs = []") (simp add: set_end_def, metis last_in_set last_or_def set_end_def)

lemma set_start_eq:
  "NIL \<notin> set ys \<Longrightarrow> set_start pv ys p = (if hd_or ys NIL \<noteq> NIL then pv(hd_or ys NIL := p) else pv)"
  by (cases ys) (auto simp: set_start_def)

lemma neighbours_distinct:
  assumes "distinct (xs @ i # ys)" and "NIL \<notin> set (xs @ i # ys)"
  shows "last_or NIL xs \<noteq> i" and "hd_or ys NIL \<noteq> i"
    and "last_or NIL xs = NIL \<or> last_or NIL xs \<noteq> hd_or ys NIL"
  using assms last_or_mem [of NIL xs] hd_or_mem [of ys NIL] by auto

lemma bin_remove_ok:
  assumes ok: "bins_ok m bl" and i: "i \<in> set (bl b)"
  shows "bins_ok (bin_remove i m) (bl(b := remove1 i (bl b)))"
proof -
  have B: "bin_ok m c (bl c)" for c using ok by (simp add: bins_ok_def)
  obtain xs ys where xy: "bl b = xs @ i # ys" using i by (meson split_list)
  have d: "distinct (xs @ i # ys)" "NIL \<notin> set (xs @ i # ys)"
    and c: "chain (bnx m) (bpv m) NIL (xs @ i # ys) NIL" and bi: "bin_of (slots m i) = b"
    and h: "bins m b = hd_or (xs @ i # ys) NIL"
    using B [of b] by (auto simp: bin_ok_def xy)
  define p n where "p = last_or NIL xs" and "n = hd_or ys NIL"
  note nb = neighbours_distinct [OF d, folded p_def n_def]
  note L = bin_remove_links [OF chain_links(1) [OF c, folded p_def] nb(1)
      chain_links(2) [OF c, folded n_def] nb(2,3)]
  have same: "bin_of (slots (bin_remove i m) j) = bin_of (slots m j)" for j
    by (rule bin_of_len) simp
  have other: "bin_ok (bin_remove i m) e (bl e)" if "e \<noteq> b" for e
  proof -
    have "set (bl e) \<inter> set (bl b) = {}" using B [of e] B [of b] that by (auto simp: bin_ok_def)
    moreover have "p = NIL \<or> p \<in> set (bl b)" "n = NIL \<or> n \<in> set (bl b)"
      using last_or_mem [of NIL xs] hd_or_mem [of ys NIL] by (auto simp: p_def n_def xy)
    ultimately have "i \<notin> set (bl e)" "p \<notin> set (bl e)" "n \<notin> set (bl e)"
      using i B [of e] by (auto simp: bin_ok_def)
    then show ?thesis
      using B [of e] that by (simp add: bin_ok_def L same bi)
  qed
  have "chain (set_end (bnx m) xs n) (set_start (bpv m) ys p) NIL (xs @ ys) NIL"
    unfolding p_def n_def by (rule chain_remove [OF c d(1)])
  then have "chain (bnx (bin_remove i m)) (bpv (bin_remove i m)) NIL (xs @ ys) NIL"
    using d by (simp add: L set_end_eq set_start_eq p_def n_def split: if_splits)
  moreover have "bins (bin_remove i m) b = hd_or (xs @ ys) NIL"
    using d h bi last_in_set [of xs]
    by (cases xs) (auto simp: L p_def n_def last_or_def)
  ultimately have "bin_ok (bin_remove i m) b (remove1 i (bl b))"
    using B [of b] d by (auto simp: bin_ok_def xy same remove1_append)
  with other show ?thesis by (simp add: bins_ok_def)
qed

lemma addr_remove_links:
  assumes p: "addr_prev (slots m i) = p" "p \<noteq> i" and n: "addr_next (slots m i) = n" "n \<noteq> i"
    and pn: "p = NIL \<or> p \<noteq> n"
  shows "anx (addr_remove i m) = (if p \<noteq> NIL then (anx m)(p := n) else anx m)"
    and "apv (addr_remove i m) = (if n \<noteq> NIL then (apv m)(n := p) else apv m)"
    and "addr_head (addr_remove i m) = (if p \<noteq> NIL then addr_head m else n)"
    and "addr_tail (addr_remove i m) = (if n \<noteq> NIL then addr_tail m else p)"
proof -
  have sl: "slots (addr_remove i m) =
    (let f = (if p \<noteq> NIL then (slots m)(p := (slots m p)\<lparr>addr_next := n\<rparr>) else slots m)
     in if n \<noteq> NIL then f(n := (f n)\<lparr>addr_prev := p\<rparr>) else f)"
    by (simp add: addr_remove_def Let_def p(1) n(1))
  show "anx (addr_remove i m) = (if p \<noteq> NIL then (anx m)(p := n) else anx m)"
    unfolding sl Let_def using p(2) n(2) pn by (cases "p = NIL"; cases "n = NIL"; simp add: fun_eq_iff)
  show "apv (addr_remove i m) = (if n \<noteq> NIL then (apv m)(n := p) else apv m)"
    unfolding sl Let_def using p(2) n(2) pn by (cases "p = NIL"; cases "n = NIL"; simp add: fun_eq_iff)
  show "addr_head (addr_remove i m) = (if p \<noteq> NIL then addr_head m else n)"
    and "addr_tail (addr_remove i m) = (if n \<noteq> NIL then addr_tail m else p)"
    by (simp_all add: addr_remove_def Let_def p(1) n(1))
qed

lemma addr_remove_ok:
  assumes "addr_ok m (xs @ i # ys)"
  shows "addr_ok (addr_remove i m) (xs @ ys)"
proof -
  have d: "distinct (xs @ i # ys)" "NIL \<notin> set (xs @ i # ys)"
    and c: "chain (anx m) (apv m) NIL (xs @ i # ys) NIL"
    and h: "addr_head m = hd_or (xs @ i # ys) NIL" "addr_tail m = last_or NIL (xs @ i # ys)"
    using assms by (auto simp: addr_ok_def)
  define p n where "p = last_or NIL xs" and "n = hd_or ys NIL"
  note nb = neighbours_distinct [OF d, folded p_def n_def]
  note L = addr_remove_links [OF chain_links(1) [OF c, folded p_def] nb(1)
      chain_links(2) [OF c, folded n_def] nb(2,3)]
  have "chain (set_end (anx m) xs n) (set_start (apv m) ys p) NIL (xs @ ys) NIL"
    unfolding p_def n_def by (rule chain_remove [OF c d(1)])
  then have "chain (anx (addr_remove i m)) (apv (addr_remove i m)) NIL (xs @ ys) NIL"
    using d by (simp add: L set_end_eq set_start_eq p_def n_def split: if_splits)
  moreover have "addr_head (addr_remove i m) = hd_or (xs @ ys) NIL"
    using d h last_in_set [of xs] by (cases xs) (auto simp: L p_def n_def last_or_def)
  moreover have "addr_tail (addr_remove i m) = last_or NIL (xs @ ys)"
    using d h by (cases ys) (auto simp: L p_def n_def last_or_append)
  ultimately show ?thesis using d by (simp add: addr_ok_def)
qed

lemma addr_insert_after_links:
  assumes a: "a \<noteq> NIL" "a \<noteq> n" and x: "addr_next (slots m a) = x" "x \<noteq> n" "x \<noteq> a"
  shows "anx (addr_insert_after n a m) = (anx m)(n := x, a := n)"
    and "apv (addr_insert_after n a m) = (if x = NIL then (apv m)(n := a) else (apv m)(n := a, x := n))"
    and "addr_head (addr_insert_after n a m) = addr_head m"
    and "addr_tail (addr_insert_after n a m) = (if x = NIL then n else addr_tail m)"
proof -
  have sl: "slots (addr_insert_after n a m) =
    (let f = (slots m)(n := (slots m n)\<lparr>addr_prev := a, addr_next := x\<rparr>);
         f = f(a := (f a)\<lparr>addr_next := n\<rparr>)
     in if x = NIL then f else f(x := (f x)\<lparr>addr_prev := n\<rparr>))"
    by (simp add: addr_insert_after_def Let_def x(1) a(1))
  show "anx (addr_insert_after n a m) = (anx m)(n := x, a := n)"
    unfolding sl Let_def using a x(2,3) by (cases "x = NIL"; simp add: fun_eq_iff)
  show "apv (addr_insert_after n a m) = (if x = NIL then (apv m)(n := a) else (apv m)(n := a, x := n))"
    unfolding sl Let_def using a x(2,3) by (cases "x = NIL"; simp add: fun_eq_iff)
  show "addr_head (addr_insert_after n a m) = addr_head m"
    and "addr_tail (addr_insert_after n a m) = (if x = NIL then n else addr_tail m)"
    by (simp_all add: addr_insert_after_def Let_def x(1) a(1))
qed

lemma addr_insert_after_ok:
  assumes ok: "addr_ok m (xs @ a # ys)" and n: "n \<notin> set (xs @ a # ys)" "n \<noteq> NIL"
  shows "addr_ok (addr_insert_after n a m) (xs @ a # n # ys)"
proof -
  have d: "distinct (xs @ a # ys)" "NIL \<notin> set (xs @ a # ys)"
    and c: "chain (anx m) (apv m) NIL (xs @ a # ys) NIL"
    and h: "addr_head m = hd_or (xs @ a # ys) NIL" "addr_tail m = last_or NIL (xs @ a # ys)"
    using ok by (auto simp: addr_ok_def)
  define x where "x = hd_or ys NIL"
  have nb: "x \<noteq> n" "x \<noteq> a" using n d hd_or_mem [of ys NIL] by (auto simp: x_def)
  have an: "a \<noteq> NIL" "a \<noteq> n" using n d by auto
  note L = addr_insert_after_links [OF an chain_links(2) [OF c, folded x_def] nb]
  have c': "chain (anx m) (apv m) NIL ((xs @ [a]) @ ys) NIL" "distinct ((xs @ [a]) @ ys)"
    "n \<notin> set (xs @ [a])" "n \<notin> set ys"
    using c d n by auto
  have "set_end ((anx m)(n := x)) (xs @ [a]) n = anx (addr_insert_after n a m)"
    by (simp add: set_end_def L)
  moreover have "set_start ((apv m)(n := a)) ys n = apv (addr_insert_after n a m)"
    using d by (simp add: set_start_eq L x_def)
  ultimately have "chain (anx (addr_insert_after n a m)) (apv (addr_insert_after n a m)) NIL (xs @ a # n # ys) NIL"
    using chain_insert [OF c'] by (simp add: x_def)
  moreover have "addr_tail (addr_insert_after n a m) = last_or NIL (xs @ a # n # ys)"
    using d h by (cases ys) (auto simp: L x_def last_or_append)
  ultimately show ?thesis using d n h by (auto simp: addr_ok_def L hd_or_append)
qed

subsection \<open>Frames\<close>

text \<open>All fields of a slot but its links; only these matter for the tiling.\<close>

definition slot_data :: "Slot \<Rightarrow> Slot" where
  "slot_data s = s\<lparr>addr_prev := 0, addr_next := 0, bin_prev := 0, bin_next := 0, free_next := 0\<rparr>"

lemma slot_data_fields:
  assumes "slot_data s = slot_data t"
  shows "s_base s = s_base t" "s_len s = s_len t" "s_committed_len s = s_committed_len t"
    "s_huge_base s = s_huge_base t" "s_huge_len s = s_huge_len t" "s_arena s = s_arena t"
    "s_split_gen s = s_split_gen t" "s_generation s = s_generation t" "s_flags s = s_flags t"
    "s_state s = s_state t" "s_occupied s = s_occupied t" "s_canary s = s_canary t"
  using assms by (cases s, cases t, simp add: slot_data_def)+

lemma slot_data_eqI:
  assumes "s_base s = s_base t" "s_len s = s_len t" "s_committed_len s = s_committed_len t"
    "s_huge_base s = s_huge_base t" "s_huge_len s = s_huge_len t" "s_arena s = s_arena t"
    "s_split_gen s = s_split_gen t" "s_generation s = s_generation t" "s_flags s = s_flags t"
    "s_state s = s_state t" "s_occupied s = s_occupied t" "s_canary s = s_canary t"
  shows "slot_data s = slot_data t"
  using assms by (cases s, cases t) (simp add: slot_data_def)

lemma addr_ok_cong:
  assumes "\<And>i. i \<in> set al \<Longrightarrow> addr_next (slots m' i) = addr_next (slots m i)"
    and "\<And>i. i \<in> set al \<Longrightarrow> addr_prev (slots m' i) = addr_prev (slots m i)"
    and "addr_head m' = addr_head m" and "addr_tail m' = addr_tail m"
  shows "addr_ok m' al \<longleftrightarrow> addr_ok m al"
  using chain_cong [of al "anx m'" "anx m" "apv m'" "apv m" NIL NIL] assms by (simp add: addr_ok_def)

lemma bins_ok_cong:
  assumes "\<And>i b. i \<in> set (bl b) \<Longrightarrow> bin_next (slots m' i) = bin_next (slots m i)"
    and "\<And>i b. i \<in> set (bl b) \<Longrightarrow> bin_prev (slots m' i) = bin_prev (slots m i)"
    and "\<And>i b. i \<in> set (bl b) \<Longrightarrow> s_len (slots m' i) = s_len (slots m i)"
    and "bins m' = bins m"
  shows "bins_ok m' bl \<longleftrightarrow> bins_ok m bl"
proof -
  have "bin_ok m' b (bl b) \<longleftrightarrow> bin_ok m b (bl b)" for b
  proof -
    have "chain (bnx m') (bpv m') NIL (bl b) NIL \<longleftrightarrow> chain (bnx m) (bpv m) NIL (bl b) NIL"
      by (rule chain_cong) (rule assms(1,2), assumption)+
    moreover have "\<forall>i\<in>set (bl b). bin_of (slots m' i) = bin_of (slots m i)"
      using assms(3) by (blast intro: bin_of_len)
    ultimately show ?thesis using assms(4) by (auto simp: bin_ok_def)
  qed
  then show ?thesis by (simp add: bins_ok_def)
qed

lemma slist_cong:
  assumes "\<And>i. i \<in> set fl \<Longrightarrow> nx' i = nx i"
  shows "slist nx' fl e \<longleftrightarrow> slist nx fl e"
  using assms by (induction fl) auto

lemma pool_ok_cong:
  assumes "\<And>i. i \<in> set fl \<Longrightarrow> free_next (slots m' i) = free_next (slots m i)"
    and "\<And>i. i \<in> set fl \<Longrightarrow> s_occupied (slots m' i) = s_occupied (slots m i)"
    and "free_slot_head m' = free_slot_head m" and "unused_slots m' = unused_slots m"
  shows "pool_ok m' fl \<longleftrightarrow> pool_ok m fl"
proof -
  have "slist (\<lambda>i. free_next (slots m' i)) fl NIL \<longleftrightarrow> slist (\<lambda>i. free_next (slots m i)) fl NIL"
    by (rule slist_cong) (rule assms(1))
  then show ?thesis using assms(2-4) by (auto simp: pool_ok_def)
qed

lemma tiles_cong:
  assumes "\<And>i. i \<in> set al \<Longrightarrow> s_base (sl' i) = s_base (sl i)"
    and "\<And>i. i \<in> set al \<Longrightarrow> s_len (sl' i) = s_len (sl i)"
  shows "tiles sl' c al e \<longleftrightarrow> tiles sl c al e"
  using assms by (induction al arbitrary: c) auto

lemma tiles_append: "tiles sl c (xs @ ys) e \<longleftrightarrow> (\<exists>d. tiles sl c xs d \<and> tiles sl d ys e)"
  by (induction xs arbitrary: c) auto

lemma tiles_end: "tiles sl c xs e \<Longrightarrow> e = c + (\<Sum>i\<leftarrow>xs. s_len (sl i))"
  by (induction xs arbitrary: c) (simp, fastforce simp: add.assoc)

lemma tiles_mem:
  assumes "tiles sl c xs e" and "i \<in> set xs"
  shows "c \<le> s_base (sl i)" and "s_base (sl i) + s_len (sl i) \<le> e" and "0 < s_len (sl i)"
    and "PAGE_SIZE dvd s_len (sl i)" and "PAGE_SIZE dvd c \<Longrightarrow> PAGE_SIZE dvd s_base (sl i)"
proof -
  obtain ys zs where x: "xs = ys @ i # zs" using assms(2) by (meson split_list)
  obtain d where d: "tiles sl c ys d" "tiles sl d (i # zs) e"
    using assms(1) by (auto simp: x tiles_append)
  have dvd: "PAGE_SIZE dvd d" if "PAGE_SIZE dvd c"
    using d(1) that by (induction ys arbitrary: c) auto
  have "c \<le> d" using tiles_end [OF d(1)] by simp
  moreover have "d + s_len (sl i) \<le> e" using d(2) tiles_end [of sl "d + s_len (sl i)" zs e] by auto
  ultimately show "c \<le> s_base (sl i)" "s_base (sl i) + s_len (sl i) \<le> e" "0 < s_len (sl i)"
    "PAGE_SIZE dvd s_len (sl i)" "PAGE_SIZE dvd c \<Longrightarrow> PAGE_SIZE dvd s_base (sl i)"
    using d(2) dvd by auto
qed

text \<open>Updates of the counters alone.\<close>

lemma addr_ok_upd [simp]:
  "addr_ok (m\<lparr>em_notes := v\<rparr>) al = addr_ok m al" "addr_ok (m\<lparr>free_bytes := f\<rparr>) al = addr_ok m al"
  "addr_ok (m\<lparr>committed_bytes := f\<rparr>) al = addr_ok m al"
  by (simp_all add: addr_ok_def)

lemma bins_ok_upd [simp]:
  "bins_ok (m\<lparr>em_notes := v\<rparr>) bl = bins_ok m bl" "bins_ok (m\<lparr>free_bytes := f\<rparr>) bl = bins_ok m bl"
  "bins_ok (m\<lparr>committed_bytes := f\<rparr>) bl = bins_ok m bl"
  by (simp_all add: bins_ok_def bin_ok_def)

lemma pool_ok_upd [simp]:
  "pool_ok (m\<lparr>em_notes := v\<rparr>) fl = pool_ok m fl" "pool_ok (m\<lparr>free_bytes := f\<rparr>) fl = pool_ok m fl"
  "pool_ok (m\<lparr>committed_bytes := f\<rparr>) fl = pool_ok m fl"
  by (simp_all add: pool_ok_def)

lemma binned_upd [simp]:
  "binned (m\<lparr>em_notes := v\<rparr>) al bl = binned m al bl" "binned (m\<lparr>free_bytes := f\<rparr>) al bl = binned m al bl"
  "binned (m\<lparr>committed_bytes := f\<rparr>) al bl = binned m al bl"
  by (simp_all add: binned_def)

lemma geo_ok_notes [simp]: "geo_ok (m\<lparr>em_notes := v\<rparr>) al = geo_ok m al"
  by (simp add: geo_ok_def)

subsection \<open>The slot pool\<close>

lemma pop_slot_None: "pool_ok m [] \<Longrightarrow> pop_slot m = None"
  by (simp add: pop_slot_def pool_ok_def Let_def)

definition popped :: "nat \<Rightarrow> ExtentMap \<Rightarrow> ExtentMap" where
  "popped i m =
     put i ((slots m i)\<lparr>free_next := NIL, s_generation := wrapping_add 32 (s_generation (slots m i)) 1\<rparr>)
       (m\<lparr>free_slot_head := free_next (slots m i), unused_slots := unused_slots m - 1\<rparr>)"

lemma pop_slot_Cons:
  assumes "pool_ok m (i # fl)"
  shows "pop_slot m = Some (i, popped i m)" and "pool_ok (popped i m) fl"
proof -
  have "i \<noteq> NIL" and "free_slot_head m = i" and u: "unused_slots m = Suc (length fl)"
    "Suc (length fl) < 2 ^ 32"
    using assms by (auto simp: pool_ok_def)
  moreover have "wrapping_sub 32 (unused_slots m) 1 = unused_slots m - 1"
    using u by (intro wrapping_sub_exact) simp_all
  ultimately show "pop_slot m = Some (i, popped i m)"
    by (simp add: pop_slot_def Let_def popped_def)
  have "slist (\<lambda>j. free_next (slots (popped i m) j)) fl NIL \<longleftrightarrow> slist (\<lambda>j. free_next (slots m j)) fl NIL"
    using assms by (intro slist_cong) (auto simp: popped_def pool_ok_def)
  then show "pool_ok (popped i m) fl"
    using assms by (auto simp: pool_ok_def popped_def)
qed

lemma popped_fields [simp]:
  "cap (popped i m) = cap m" "region_base (popped i m) = region_base m"
  "region_len (popped i m) = region_len m" "addr_head (popped i m) = addr_head m"
  "addr_tail (popped i m) = addr_tail m" "bins (popped i m) = bins m"
  "free_bytes (popped i m) = free_bytes m" "committed_bytes (popped i m) = committed_bytes m"
  "em_notes (popped i m) = em_notes m" "em_arena (popped i m) = em_arena m"
  by (simp_all add: popped_def)

lemma popped_slots:
  "slots (popped i m) = (slots m)(i := (slots m i)\<lparr>free_next := NIL,
     s_generation := wrapping_add 32 (s_generation (slots m i)) 1\<rparr>)"
  by (simp add: popped_def)

lemma push_slot_fields [simp]:
  "cap (push_slot i m) = cap m" "region_base (push_slot i m) = region_base m"
  "region_len (push_slot i m) = region_len m" "addr_head (push_slot i m) = addr_head m"
  "addr_tail (push_slot i m) = addr_tail m" "bins (push_slot i m) = bins m"
  "free_bytes (push_slot i m) = free_bytes m" "committed_bytes (push_slot i m) = committed_bytes m"
  "em_notes (push_slot i m) = em_notes m" "em_arena (push_slot i m) = em_arena m"
  by (simp_all add: push_slot_def Let_def)

lemma push_slot_slots:
  "slots (push_slot i m) = (slots m)(i := (slots m i)\<lparr>s_occupied := False,
     s_generation := wrapping_add 32 (s_generation (slots m i)) 1, free_next := free_slot_head m\<rparr>)"
  by (simp add: push_slot_def Let_def)

lemma push_slot_ok:
  assumes "pool_ok m fl" and "i \<notin> set fl" and "i \<noteq> NIL" and "Suc (length fl) < 2 ^ 32"
  shows "pool_ok (push_slot i m) (i # fl)"
proof -
  have "slist (\<lambda>j. free_next (slots (push_slot i m) j)) fl NIL \<longleftrightarrow> slist (\<lambda>j. free_next (slots m j)) fl NIL"
    using assms by (intro slist_cong) (auto simp: push_slot_slots)
  moreover have "free_slot_head (push_slot i m) = i" "unused_slots (push_slot i m) = Suc (length fl)"
    using assms by (simp_all add: push_slot_def Let_def pool_ok_def)
  moreover have "free_next (slots (push_slot i m) i) = hd_or fl NIL"
    "\<forall>j\<in>set (i # fl). \<not> s_occupied (slots (push_slot i m) j)"
    using assms by (simp_all add: push_slot_slots pool_ok_def)
  ultimately show ?thesis using assms by (simp add: pool_ok_def)
qed

subsection \<open>The lists together\<close>

definition links :: "ExtentMap \<Rightarrow> nat list \<Rightarrow> nat list \<Rightarrow> (nat \<Rightarrow> nat list) \<Rightarrow> bool" where
  "links m al fl bl \<longleftrightarrow> addr_ok m al \<and> pool_ok m fl \<and> bins_ok m bl"

lemma links_upd [simp]:
  "links (m\<lparr>em_notes := v\<rparr>) al fl bl = links m al fl bl"
  "links (m\<lparr>free_bytes := f\<rparr>) al fl bl = links m al fl bl"
  "links (m\<lparr>committed_bytes := f\<rparr>) al fl bl = links m al fl bl"
  by (simp_all add: links_def)

lemma links_put:
  assumes "links m al fl bl"
    and "i \<in> set al \<Longrightarrow> addr_next s = addr_next (slots m i) \<and> addr_prev s = addr_prev (slots m i)"
    and "i \<in> set fl \<Longrightarrow> free_next s = free_next (slots m i) \<and> s_occupied s = s_occupied (slots m i)"
    and "\<And>b. i \<in> set (bl b) \<Longrightarrow> bin_next s = bin_next (slots m i) \<and> bin_prev s = bin_prev (slots m i)
           \<and> s_len s = s_len (slots m i)"
  shows "links (put i s m) al fl bl"
proof -
  have "addr_ok (put i s m) al = addr_ok m al" using assms(2) by (intro addr_ok_cong) auto
  moreover have "pool_ok (put i s m) fl = pool_ok m fl" using assms(3) by (intro pool_ok_cong) auto
  moreover have "bins_ok (put i s m) bl = bins_ok m bl" using assms(4) by (intro bins_ok_cong) auto
  ultimately show ?thesis using assms(1) by (simp add: links_def)
qed

lemma links_bin_insert:
  assumes "links m al fl bl" and "i \<noteq> NIL" and "\<And>b. i \<notin> set (bl b)" and "b = bin_of (slots m i)"
  shows "links (bin_insert i m) al fl (bl(b := i # bl b))"
proof -
  have "addr_ok (bin_insert i m) al = addr_ok m al" by (rule addr_ok_cong) simp_all
  moreover have "pool_ok (bin_insert i m) fl = pool_ok m fl" by (rule pool_ok_cong) simp_all
  ultimately show ?thesis using assms bin_insert_ok by (simp add: links_def)
qed

lemma links_bin_remove:
  assumes "links m al fl bl" and "i \<in> set (bl b)"
  shows "links (bin_remove i m) al fl (bl(b := remove1 i (bl b)))"
proof -
  have "addr_ok (bin_remove i m) al = addr_ok m al" by (rule addr_ok_cong) simp_all
  moreover have "pool_ok (bin_remove i m) fl = pool_ok m fl" by (rule pool_ok_cong) simp_all
  ultimately show ?thesis using assms bin_remove_ok by (simp add: links_def)
qed

lemma links_addr_insert_after:
  assumes "links m (xs @ a # ys) fl bl" and "n \<notin> set (xs @ a # ys)" and "n \<noteq> NIL"
  shows "links (addr_insert_after n a m) (xs @ a # n # ys) fl bl"
proof -
  have "bins_ok (addr_insert_after n a m) bl = bins_ok m bl" by (rule bins_ok_cong) simp_all
  moreover have "pool_ok (addr_insert_after n a m) fl = pool_ok m fl" by (rule pool_ok_cong) simp_all
  ultimately show ?thesis using assms addr_insert_after_ok by (simp add: links_def)
qed

lemma links_addr_remove:
  assumes "links m (xs @ i # ys) fl bl"
  shows "links (addr_remove i m) (xs @ ys) fl bl"
proof -
  have "bins_ok (addr_remove i m) bl = bins_ok m bl" by (rule bins_ok_cong) simp_all
  moreover have "pool_ok (addr_remove i m) fl = pool_ok m fl" by (rule pool_ok_cong) simp_all
  ultimately show ?thesis using assms addr_remove_ok by (simp add: links_def)
qed

lemma links_popped:
  assumes "links m al (r # fl) bl" and "r \<notin> set al" and "\<And>b. r \<notin> set (bl b)"
  shows "links (popped r m) al fl bl"
proof -
  have "addr_ok (popped r m) al = addr_ok m al"
    using assms(2) by (intro addr_ok_cong) (auto simp: popped_slots)
  moreover have "bins_ok (popped r m) bl = bins_ok m bl"
    using assms(3) by (intro bins_ok_cong) (auto simp: popped_slots)
  ultimately show ?thesis using assms pop_slot_Cons(2) by (simp add: links_def)
qed

lemma links_push_slot:
  assumes "links m al fl bl" and "r \<notin> set fl" and "r \<noteq> NIL" and "Suc (length fl) < 2 ^ 32"
  shows "links (push_slot r m) al (r # fl) bl"
proof -
  have "addr_ok (push_slot r m) al = addr_ok m al" by (rule addr_ok_cong) (simp_all add: push_slot_slots)
  moreover have "bins_ok (push_slot r m) bl = bins_ok m bl" by (rule bins_ok_cong) (simp_all add: push_slot_slots)
  ultimately show ?thesis using assms push_slot_ok by (simp add: links_def)
qed

definition em_rep :: "ExtentMap \<Rightarrow> nat list \<Rightarrow> nat list \<Rightarrow> (nat \<Rightarrow> nat list) \<Rightarrow> bool" where
  "em_rep m al fl bl \<longleftrightarrow>
     cap m \<le> NIL \<and> set al \<inter> set fl = {} \<and> set al \<union> set fl = {..<cap m}
     \<and> links m al fl bl \<and> binned m al bl \<and> geo_ok m al"

text \<open>The contents of the bins after an insertion or a removal.\<close>

lemma bins_insert_mem [simp]: "j \<in> set ((bl(b := i # bl b)) c) \<longleftrightarrow> j \<in> set (bl c) \<or> j = i \<and> c = b"
  by auto

lemma links_bins_remove_mem:
  assumes "links m al fl bl" and "i \<in> set (bl b)"
  shows "j \<in> set ((bl(b := remove1 i (bl b))) c) \<longleftrightarrow> j \<in> set (bl c) \<and> j \<noteq> i"
proof -
  have "bin_ok m c (bl c)" "bin_ok m b (bl b)" using assms(1) by (simp_all add: links_def bins_ok_def)
  then show ?thesis using assms(2) by (auto simp: bin_ok_def)
qed

end
