(* ===== verification/Extent_Ops.thy ===== *)
theory Extent_Ops
  imports Extent_Rep
begin

text \<open>
  The operations of the extent map keep the representation of \<open>Extent_Rep\<close>: what split, merge,
  carve and free do to the tiling of the region, and what follows for their callers.
\<close>

section \<open>Consequences of the representation\<close>

lemma em_repD:
  assumes "em_rep m al fl bl"
  shows "cap m \<le> NIL" "set al \<inter> set fl = {}" "set al \<union> set fl = {..<cap m}"
    "addr_ok m al" "pool_ok m fl" "bins_ok m bl" "binned m al bl" "geo_ok m al" "links m al fl bl"
  using assms by (simp_all add: em_rep_def links_def)

lemma geo_okD:
  assumes "geo_ok m al"
  shows "tiles (slots m) (region_base m) al (region_base m + region_len m)"
    and "is_usize (region_base m + region_len m)"
    and "free_bytes m = (\<Sum>i\<leftarrow>al. free_len (slots m i))"
    and "committed_bytes m = (\<Sum>i\<leftarrow>al. s_committed_len (slots m i))"
    and "PAGE_SIZE dvd region_base m"
    and "i \<in> set al \<Longrightarrow> slot_ok (slots m i)"
  using assms by (simp_all add: geo_ok_def)

lemma em_rep_index:
  assumes "em_rep m al fl bl" and "i \<in> set al"
  shows "i < cap m" and "i \<noteq> NIL" and "i \<notin> set fl"
proof -
  show "i < cap m" using em_repD(3) [OF assms(1)] assms(2) by blast
  then show "i \<noteq> NIL" using em_repD(1) [OF assms(1)] by simp
  show "i \<notin> set fl" using em_repD(2) [OF assms(1)] assms(2) by blast
qed

lemma em_rep_view:
  assumes "em_rep m al fl bl"
  shows "view m i = (if i \<in> set al then Some (snapshot i (slots m i)) else None)"
proof (cases "i \<in> set al")
  case True
  then have "s_occupied (slots m i)" using geo_okD(6) [OF em_repD(8) [OF assms]] by (simp add: slot_ok_def)
  then show ?thesis using True em_rep_index [OF assms True] by (simp add: view_def Let_def)
next
  case False
  then have "cap m \<le> i \<or> i \<in> set fl" using em_repD(3) [OF assms] by (metis UnE lessThan_iff not_less)
  moreover have "\<not> s_occupied (slots m i)" if "i \<in> set fl"
    using em_repD(5) [OF assms] that by (simp add: pool_ok_def)
  ultimately show ?thesis using False by (auto simp: view_def Let_def)
qed

lemma snapshot_sel [simp]:
  "ex_id (snapshot i s) = i" "ex_arena (snapshot i s) = s_arena s" "ex_base (snapshot i s) = s_base s"
  "ex_len (snapshot i s) = s_len s" "ex_committed_len (snapshot i s) = s_committed_len s"
  "ex_state (snapshot i s) = s_state s"
  "ex_huge (snapshot i s) = \<lparr>hr_base = s_huge_base s, hr_len = s_huge_len s\<rparr>"
  "ex_split_generation (snapshot i s) = s_split_gen s" "ex_generation (snapshot i s) = s_generation s"
  "ex_flags (snapshot i s) = s_flags s"
  by (simp_all add: snapshot_def)

lemma em_rep_geo:
  assumes "em_rep m al fl bl" and "i \<in> set al"
  shows "region_base m \<le> s_base (slots m i)"
    and "s_base (slots m i) + s_len (slots m i) \<le> region_base m + region_len m"
    and "is_usize (s_base (slots m i) + s_len (slots m i))"
    and "0 < s_len (slots m i)" and "PAGE_SIZE dvd s_len (slots m i)"
    and "PAGE_SIZE dvd s_base (slots m i)" and "slot_ok (slots m i)"
proof -
  note G = geo_okD [OF em_repD(8) [OF assms(1)]]
  note T = tiles_mem [OF G(1) assms(2)]
  show "region_base m \<le> s_base (slots m i)"
    and b: "s_base (slots m i) + s_len (slots m i) \<le> region_base m + region_len m"
    and "0 < s_len (slots m i)" and "PAGE_SIZE dvd s_len (slots m i)"
    and "PAGE_SIZE dvd s_base (slots m i)" and "slot_ok (slots m i)"
    using T G(5,6) assms(2) by auto
  show "is_usize (s_base (slots m i) + s_len (slots m i))"
    using b G(2) by (rule le_less_trans)
qed

lemma em_rep_bin:
  assumes "em_rep m al fl bl"
  shows "i \<in> set (bl b) \<longleftrightarrow> i \<in> set al \<and> is_free (s_state (slots m i)) \<and> bin_of (slots m i) = b"
  using em_repD(7) [OF assms] by (simp add: binned_def)

section \<open>Split\<close>

definition left_half :: "Slot \<Rightarrow> usize \<Rightarrow> Slot" where
  "left_half s p = s\<lparr>s_len := p, s_committed_len := (if s_committed_len s = s_len s then p else 0),
     s_split_gen := wrapping_add 32 (s_split_gen s) 1\<rparr>"

definition right_half :: "Slot \<Rightarrow> usize \<Rightarrow> Slot \<Rightarrow> Slot" where
  "right_half s p t = t\<lparr>s_base := s_base s + p, s_len := s_len s - p,
     s_committed_len := (if s_committed_len s = s_len s then s_len s - p else 0),
     s_huge_base := 0, s_huge_len := 0, s_arena := s_arena s,
     s_split_gen := wrapping_add 32 (s_split_gen s) 1, s_flags := s_flags s,
     s_state := s_state s, s_occupied := True, s_canary := s_canary s,
     s_generation := wrapping_add 32 (s_generation t) 1\<rparr>"

lemma split_halves_ok:
  assumes "slot_ok s" and "0 < p" and "p < s_len s"
  shows "slot_ok (left_half s p)" and "slot_ok (right_half s p t)"
    and "free_len (left_half s p) + free_len (right_half s p t) = free_len s"
    and "s_committed_len (left_half s p) + s_committed_len (right_half s p t) = s_committed_len s"
  using assms by (auto simp: slot_ok_def left_half_def right_half_def free_len_def)

lemma slot_data_cong:
  assumes "slot_data s = slot_data t"
  shows "slot_ok s = slot_ok t" and "free_len s = free_len t" and "bin_of s = bin_of t"
  using slot_data_fields [OF assms] by (simp_all add: slot_ok_def free_len_def bin_of_def)

lemma slot_data_no_bin: "no_bin s = no_bin t \<Longrightarrow> slot_data s = slot_data t"
  by (rule slot_data_eqI; erule no_bin_fields)

lemma slot_data_no_addr: "no_addr s = no_addr t \<Longrightarrow> slot_data s = slot_data t"
  by (rule slot_data_eqI; erule no_addr_fields)

lemmas slot_data_prims [simp] =
  slot_data_no_bin [OF bin_insert_no_bin] slot_data_no_bin [OF bin_remove_no_bin]
  slot_data_no_addr [OF addr_insert_after_no_addr] slot_data_no_addr [OF addr_remove_no_addr]

lemma geo_ok_cong:
  assumes "\<And>i. i \<in> set al \<Longrightarrow> slot_data (slots m' i) = slot_data (slots m i)"
    and "region_base m' = region_base m" "region_len m' = region_len m"
    and "free_bytes m' = free_bytes m" "committed_bytes m' = committed_bytes m"
  shows "geo_ok m' al \<longleftrightarrow> geo_ok m al"
proof -
  have "tiles (slots m') c al e \<longleftrightarrow> tiles (slots m) c al e" for c e
    using slot_data_fields(1,2) [OF assms(1)] by (rule tiles_cong)
  moreover have "(\<Sum>i\<leftarrow>al. free_len (slots m' i)) = (\<Sum>i\<leftarrow>al. free_len (slots m i))"
    "(\<Sum>i\<leftarrow>al. s_committed_len (slots m' i)) = (\<Sum>i\<leftarrow>al. s_committed_len (slots m i))"
    using assms(1) by (auto intro!: arg_cong [of _ _ sum_list] slot_data_cong(2) slot_data_fields(3))
  moreover have "(\<forall>i\<in>set al. slot_ok (slots m' i)) \<longleftrightarrow> (\<forall>i\<in>set al. slot_ok (slots m i))"
    using assms(1) slot_data_cong(1) by blast
  ultimately show ?thesis by (simp add: geo_ok_def assms(2-5))
qed

text \<open>The tiling with one extent replaced by a list of extents that covers the same bytes.\<close>

lemma geo_ok_replace:
  assumes g: "geo_ok m (xs @ us @ ys)"
    and same: "\<And>j. j \<in> set xs \<union> set ys \<Longrightarrow> slot_data (slots m' j) = slot_data (slots m j)"
    and reg: "region_base m' = region_base m" "region_len m' = region_len m"
    and t: "\<And>c e. tiles (slots m) c us e \<Longrightarrow> tiles (slots m') c vs e"
    and ok: "\<And>j. j \<in> set vs \<Longrightarrow> slot_ok (slots m' j)"
    and f: "free_bytes m' + (\<Sum>i\<leftarrow>us. free_len (slots m i)) = free_bytes m + (\<Sum>i\<leftarrow>vs. free_len (slots m' i))"
    and c: "committed_bytes m' + (\<Sum>i\<leftarrow>us. s_committed_len (slots m i))
      = committed_bytes m + (\<Sum>i\<leftarrow>vs. s_committed_len (slots m' i))"
  shows "geo_ok m' (xs @ vs @ ys)"
proof -
  note G = geo_okD [OF g]
  have tc: "tiles (slots m') c zs e = tiles (slots m) c zs e" if "set zs \<subseteq> set xs \<union> set ys" for c zs e
    using that slot_data_fields(1,2) [OF same] by (intro tiles_cong) blast+
  have fs: "(\<Sum>i\<leftarrow>zs. free_len (slots m' i)) = (\<Sum>i\<leftarrow>zs. free_len (slots m i))"
    "(\<Sum>i\<leftarrow>zs. s_committed_len (slots m' i)) = (\<Sum>i\<leftarrow>zs. s_committed_len (slots m i))"
    if "set zs \<subseteq> set xs \<union> set ys" for zs
    using that same
    by (auto intro!: arg_cong [of _ _ sum_list] slot_data_cong(2) slot_data_fields(3) simp: subset_iff)
  have "tiles (slots m') (region_base m) (xs @ vs @ ys) (region_base m + region_len m)"
    using G(1) t by (auto simp: tiles_append tc)
  moreover have "slot_ok (slots m' j)" if "j \<in> set (xs @ vs @ ys)" for j
    using that ok G(6) same slot_data_cong(1) by (metis Un_iff set_append)
  ultimately show ?thesis
    using G(2-5) f c reg by (simp add: geo_ok_def fs)
qed

lemma geo_split:
  assumes g: "geo_ok m (xs @ i # ys)" and d: "distinct (xs @ i # ys)" "r \<notin> set (xs @ i # ys)"
    and p: "0 < p" "p < s_len (slots m i)" "PAGE_SIZE dvd p"
    and di: "slot_data (slots m' i) = slot_data (left_half (slots m i) p)"
    and dr: "slot_data (slots m' r) = slot_data (right_half (slots m i) p (slots m r))"
    and dj: "\<And>j. j \<noteq> i \<Longrightarrow> j \<noteq> r \<Longrightarrow> slot_data (slots m' j) = slot_data (slots m j)"
    and reg: "region_base m' = region_base m" "region_len m' = region_len m"
      "free_bytes m' = free_bytes m" "committed_bytes m' = committed_bytes m"
  shows "geo_ok m' (xs @ i # r # ys)"
proof -
  have ok: "slot_ok (slots m i)" using geo_okD(6) [OF g] by simp
  note H = split_halves_ok [OF ok p(1,2)]
  note F = slot_data_fields [OF di] slot_data_fields [OF dr] slot_data_cong [OF di] slot_data_cong [OF dr]
  have "geo_ok m' (xs @ [i, r] @ ys)"
  proof (rule geo_ok_replace [OF _ _ reg(1,2)])
    show "geo_ok m (xs @ [i] @ ys)" using g by simp
    show "slot_data (slots m' j) = slot_data (slots m j)" if "j \<in> set xs \<union> set ys" for j
      using that d by (intro dj) auto
    show "slot_ok (slots m' j)" if "j \<in> set [i, r]" for j
      using that H(1,2) F by auto
    show "tiles (slots m') c [i, r] e" if "tiles (slots m) c [i] e" for c e
      using that p F by (auto simp: left_half_def right_half_def dvd_diff_nat)
    show "free_bytes m' + (\<Sum>i\<leftarrow>[i]. free_len (slots m i)) = free_bytes m + (\<Sum>i\<leftarrow>[i, r]. free_len (slots m' i))"
      using H(3) [of "slots m r"] F reg by simp
    show "committed_bytes m' + (\<Sum>i\<leftarrow>[i]. s_committed_len (slots m i))
        = committed_bytes m + (\<Sum>i\<leftarrow>[i, r]. s_committed_len (slots m' i))"
      using H(4) [of "slots m r"] F reg by simp
  qed
  then show ?thesis by simp
qed

lemma em_repI:
  assumes "em_rep m al fl bl" and "cap m' = cap m" and "set al' \<inter> set fl' = {}"
    and "set al' \<union> set fl' = set al \<union> set fl"
    and "links m' al' fl' bl'" and "binned m' al' bl'" and "geo_ok m' al'"
  shows "em_rep m' al' fl' bl'"
  using assms by (simp add: em_rep_def)

text \<open>The body of a split after its checks, step by step.\<close>

definition split_alloc :: "nat \<Rightarrow> usize \<Rightarrow> nat \<Rightarrow> ExtentMap \<Rightarrow> ExtentMap" where
  "split_alloc i p r m =
     (let s = slots m i in
      put r ((slots (popped r m) r)\<lparr>s_base := wrapping_add 64 (s_base s) p,
        s_len := s_len s - p, s_committed_len := (if s_committed_len s = s_len s then s_len s - p else 0),
        s_huge_base := 0, s_huge_len := 0, s_arena := s_arena s,
        s_split_gen := wrapping_add 32 (s_split_gen s) 1, s_flags := s_flags s,
        s_state := s_state s, s_occupied := True, s_canary := s_canary (slots (popped r m) i)\<rparr>)
        (popped r m))"

definition split_link :: "nat \<Rightarrow> usize \<Rightarrow> nat \<Rightarrow> bool \<Rightarrow> bool \<Rightarrow> ExtentMap \<Rightarrow> ExtentMap" where
  "split_link i p r fr bk m =
     (let m = (if fr then bin_remove i m else m);
          m = put i ((slots m i)\<lparr>s_len := p, s_committed_len := (if bk then p else 0),
                s_split_gen := wrapping_add 32 (s_split_gen (slots m i)) 1\<rparr>) m;
          m = addr_insert_after r i m
      in if fr then bin_insert r (bin_insert i m) else m)"

lemma split_link_data:
  assumes "i \<noteq> r"
  shows "slot_data (slots (split_link i p r fr bk m) i) =
      slot_data ((slots m i)\<lparr>s_len := p, s_committed_len := (if bk then p else 0),
        s_split_gen := wrapping_add 32 (s_split_gen (slots m i)) 1\<rparr>)"
    and "j \<noteq> i \<Longrightarrow> slot_data (slots (split_link i p r fr bk m) j) = slot_data (slots m j)"
proof -
  let ?m = "if fr then bin_remove i m else m"
  have "slot_data (slots ?m j) = slot_data (slots m j)" for j by simp
  note F = slot_data_fields [OF this [of i]] and this = this
  show "slot_data (slots (split_link i p r fr bk m) i) =
      slot_data ((slots m i)\<lparr>s_len := p, s_committed_len := (if bk then p else 0),
        s_split_gen := wrapping_add 32 (s_split_gen (slots m i)) 1\<rparr>)"
    by (rule slot_data_eqI) (simp_all add: split_link_def Let_def)
  show "j \<noteq> i \<Longrightarrow> slot_data (slots (split_link i p r fr bk m) j) = slot_data (slots m j)"
    by (simp add: split_link_def Let_def)
qed

lemma split_link_fields [simp]:
  "cap (split_link i p r fr bk m) = cap m" "region_base (split_link i p r fr bk m) = region_base m"
  "region_len (split_link i p r fr bk m) = region_len m" "em_notes (split_link i p r fr bk m) = em_notes m"
  "free_bytes (split_link i p r fr bk m) = free_bytes m"
  "committed_bytes (split_link i p r fr bk m) = committed_bytes m"
  by (simp_all add: split_link_def Let_def)

lemma split_link_links:
  assumes L: "links m (xs @ i # ys) fl bl" and r: "r \<notin> set (xs @ i # ys)" "r \<noteq> NIL" "r \<notin> set fl" "\<And>b. r \<notin> set (bl b)"
    and i: "i \<noteq> NIL" "i \<notin> set fl" "\<And>b. i \<in> set (bl b) \<longleftrightarrow> fr \<and> b = bn"
  obtains bl' where "links (split_link i p r fr bk m) (xs @ i # r # ys) fl bl'"
    and "\<And>j b. j \<in> set (bl' b) \<longleftrightarrow> j \<in> set (bl b) \<and> j \<noteq> i \<or>
        fr \<and> (j = i \<or> j = r) \<and> b = bin_of (slots (split_link i p r fr bk m) j)"
proof (cases fr)
  case False
  then have ni: "i \<notin> set (bl b)" for b using i(3) by simp
  have "links (split_link i p r fr bk m) (xs @ i # r # ys) fl bl"
    using False r i(2) ni by (auto simp: split_link_def Let_def intro!: links_addr_insert_after links_put L)
  then show ?thesis by (rule that) (use False ni in auto)
next
  case True
  let ?m = "bin_remove i m"
  have ib: "i \<in> set (bl bn)" using True i(3) by simp
  define bl1 where "bl1 = bl(bn := remove1 i (bl bn))"
  have mem: "j \<in> set (bl1 b) \<longleftrightarrow> j \<in> set (bl b) \<and> j \<noteq> i" for j b
    unfolding bl1_def by (rule links_bins_remove_mem [where bl = bl, OF L ib])
  define n where "n = addr_insert_after r i (put i ((slots ?m i)\<lparr>s_len := p,
      s_committed_len := (if bk then p else 0),
      s_split_gen := wrapping_add 32 (s_split_gen (slots ?m i)) 1\<rparr>) ?m)"
  have eq: "split_link i p r fr bk m = bin_insert r (bin_insert i n)"
    using True by (simp add: split_link_def n_def Let_def)
  have n: "links n (xs @ i # r # ys) fl bl1"
    unfolding n_def bl1_def [symmetric]
    using links_bin_remove [where bl = bl, OF L ib, folded bl1_def] r(1,2) i(2)
    by (intro links_addr_insert_after links_put) (auto simp: mem)
  have "links (bin_insert i n) (xs @ i # r # ys) fl (bl1(bin_of (slots n i) := i # bl1 (bin_of (slots n i))))"
    (is "links _ _ _ ?bl2") by (rule links_bin_insert [OF n i(1)]) (simp_all add: mem)
  then have "links (split_link i p r fr bk m) (xs @ i # r # ys) fl
      (?bl2(bin_of (slots (bin_insert i n) r) := r # ?bl2 (bin_of (slots (bin_insert i n) r))))"
    unfolding eq by (rule links_bin_insert) (use r in \<open>auto simp: mem simp del: fun_upd_apply\<close>)
  then show ?thesis
  proof (rule that)
    fix j b
    have "bin_of (slots (split_link i p r fr bk m) j) = bin_of (slots n j)"
      "bin_of (slots (bin_insert i n) r) = bin_of (slots n r)"
      unfolding eq by (rule bin_of_len, simp)+
    then show "j \<in> set ((?bl2(bin_of (slots (bin_insert i n) r) := r # ?bl2 (bin_of (slots (bin_insert i n) r)))) b)
      \<longleftrightarrow> j \<in> set (bl b) \<and> j \<noteq> i \<or> fr \<and> (j = i \<or> j = r) \<and> b = bin_of (slots (split_link i p r fr bk m) j)"
      using True r(4) [of b] by (auto simp: mem simp del: fun_upd_apply)
  qed
qed

lemma split_in_eq:
  assumes R: "em_rep m (xs @ i # ys) (r # fl) bl" and ir: "i \<noteq> r"
    and p: "0 < p" "p < s_len (slots m i)" "PAGE_SIZE dvd p"
  defines "bk \<equiv> s_committed_len (slots m i) = s_len (slots m i)"
  defines "m6 \<equiv> split_link i p r (is_free (s_state (slots m i))) bk (split_alloc i p r m)"
  shows "split_in i p m = Some (r, m6\<lparr>em_notes := em_notes m6 @
           [OnSplit (s_base (slots m i)) (s_len (slots m i)) p bk]\<rparr>)"
proof -
  have np: "(p = 0 \<or> s_len (slots m i) \<le> p \<or> \<not> PAGE_SIZE dvd p) = False" and ia: "i \<in> set (xs @ i # ys)"
    using p by simp_all
  have st: "s_state (slots m i) = s_state (slots (split_alloc i p r m) i)"
    using ir by (simp add: split_alloc_def popped_slots Let_def)
  show ?thesis
    unfolding split_in_def em_rep_view [OF R] pop_slot_Cons(1) [OF em_repD(5) [OF R]] Let_def
      m6_def bk_def split_link_def st
    by (simp only: snapshot_sel ia if_True if_False option.case prod.case np split_alloc_def Let_def)
qed

lemma split_in_rep:
  assumes R: "em_rep m (xs @ i # ys) (r # fl) bl"
    and p: "0 < p" "p < s_len (slots m i)" "PAGE_SIZE dvd p"
  obtains m' bl' where "split_in i p m = Some (r, m')" and "em_rep m' (xs @ i # r # ys) fl bl'"
    and "slot_data (slots m' i) = slot_data (left_half (slots m i) p)"
    and "slot_data (slots m' r) = slot_data (right_half (slots m i) p (slots m r))"
    and "\<And>j. j \<noteq> i \<Longrightarrow> j \<noteq> r \<Longrightarrow> slot_data (slots m' j) = slot_data (slots m j)"
    and "cap m' = cap m" "region_base m' = region_base m" "region_len m' = region_len m"
    and "free_bytes m' = free_bytes m" "committed_bytes m' = committed_bytes m"
    and "em_notes m' = em_notes m @ [OnSplit (s_base (slots m i)) (s_len (slots m i)) p
           (s_committed_len (slots m i) = s_len (slots m i))]"
proof -
  let ?s = "slots m i" and ?al = "xs @ i # ys"
  let ?bk = "s_committed_len ?s = s_len ?s" and ?fr = "is_free (s_state ?s)"
  note D = em_repD [OF R]
  have ia: "i \<in> set ?al" by simp
  note I = em_rep_index [OF R ia] and G = em_rep_geo [OF R ia]
  have r: "r \<notin> set ?al" "r \<noteq> NIL" "r \<notin> set fl" using D(2,5) by (auto simp: pool_ok_def)
  then have ir: "i \<noteq> r" by auto
  have rb: "r \<notin> set (bl b)" for b using r(1) em_rep_bin [OF R, of r b] by simp
  define m2 where "m2 = split_alloc i p r m"
  define m6 where "m6 = split_link i p r ?fr ?bk m2"
  define m' where "m' = m6\<lparr>em_notes := em_notes m6 @ [OnSplit (s_base ?s) (s_len ?s) p ?bk]\<rparr>"
  have o2: "slots m2 j = slots m j" if "j \<noteq> r" for j
    using that by (simp add: m2_def split_alloc_def Let_def popped_slots)
  have flds: "cap m' = cap m" "region_base m' = region_base m" "region_len m' = region_len m"
    "free_bytes m' = free_bytes m" "committed_bytes m' = committed_bytes m"
    "em_notes m' = em_notes m @ [OnSplit (s_base ?s) (s_len ?s) p ?bk]"
    by (simp_all add: m'_def m6_def m2_def split_alloc_def Let_def)
  have di: "slot_data (slots m' i) = slot_data (left_half ?s p)"
    by (simp add: m'_def m6_def split_link_data [OF ir] o2 [OF ir] left_half_def)
  have "wrapping_add 64 (s_base ?s) p = s_base ?s + p"
    using G(3) p(2) by (intro wrapping_add_exact) linarith
  then have dr: "slot_data (slots m' r) = slot_data (right_half ?s p (slots m r))"
    using ir by (simp add: m'_def m6_def split_link_data [OF ir])
      (rule slot_data_eqI, simp_all add: m2_def split_alloc_def Let_def popped_slots right_half_def)
  have dj: "slot_data (slots m' j) = slot_data (slots m j)" if "j \<noteq> i" "j \<noteq> r" for j
    using that by (simp add: m'_def m6_def split_link_data [OF ir] o2)
  have "links (popped r m) ?al fl bl" by (rule links_popped [OF D(9) r(1) rb])
  then have l2: "links m2 ?al fl bl"
    unfolding m2_def split_alloc_def Let_def using r rb by (intro links_put) auto
  have ib: "i \<notin> set fl" "\<And>b. i \<in> set (bl b) \<longleftrightarrow> ?fr \<and> b = bin_of ?s"
    using I(3) em_rep_bin [OF R, of i] by auto
  obtain bl' where bl': "links m6 (xs @ i # r # ys) fl bl'"
    and mem: "\<And>j b. j \<in> set (bl' b) \<longleftrightarrow> j \<in> set (bl b) \<and> j \<noteq> i \<or>
        ?fr \<and> (j = i \<or> j = r) \<and> b = bin_of (slots m6 j)"
    unfolding m6_def
    using split_link_links [OF l2 r rb I(2) ib, of p ?bk] by blast
  have "binned m' (xs @ i # r # ys) bl'"
    unfolding binned_def
  proof (intro allI)
    fix b j
    have st: "s_state (slots m' i) = s_state ?s" "s_state (slots m' r) = s_state ?s"
      using slot_data_fields(10) [OF di] slot_data_fields(10) [OF dr] by (simp_all add: left_half_def right_half_def)
    have "j \<in> set (bl b) \<longleftrightarrow> j \<in> set ?al \<and> is_free (s_state (slots m' j)) \<and> bin_of (slots m' j) = b"
      if "j \<noteq> i" "j \<noteq> r"
      using em_rep_bin [OF R, of j b] slot_data_cong(3) [OF dj [OF that]] slot_data_fields(10) [OF dj [OF that]]
      by simp
    then show "j \<in> set (bl' b) \<longleftrightarrow> j \<in> set (xs @ i # r # ys) \<and> is_free (s_state (slots m' j)) \<and> bin_of (slots m' j) = b"
      using st rb by (cases "j = i"; cases "j = r") (auto simp: mem m'_def)
  qed
  moreover have "geo_ok m' (xs @ i # r # ys)"
    by (rule geo_split [OF D(8) _ r(1) p di dr dj flds(2-5)]) (use D(4) in \<open>simp_all add: addr_ok_def\<close>)
  ultimately have "em_rep m' (xs @ i # r # ys) fl bl'"
    using bl' D(2) r(3) by (intro em_repI [OF R flds(1)]) (auto simp: m'_def)
  from that [OF _ this di dr dj flds] split_in_eq [OF R ir p] show ?thesis
    by (simp add: m'_def m6_def m2_def)
qed

section \<open>Merge and absorb\<close>

text \<open>
  Both join an extent with its successor: the successor leaves its bin, the address list and the
  pool, the extent is rewritten by \<open>f\<close>, and leaves and re-enters its bin when it is free.
\<close>

definition join_link :: "nat \<Rightarrow> nat \<Rightarrow> bool \<Rightarrow> (Slot \<Rightarrow> Slot) \<Rightarrow> ExtentMap \<Rightarrow> ExtentMap" where
  "join_link l r fr f m =
     (let m = (if fr then bin_remove l m else m);
          m = bin_remove r m;
          m = addr_remove r m;
          m = put l (f (slots m l)) m;
          m = (if fr then bin_insert l m else m)
      in push_slot r m)"

definition keeps_links :: "(Slot \<Rightarrow> Slot) \<Rightarrow> bool" where
  "keeps_links f \<longleftrightarrow> (\<forall>s. addr_next (f s) = addr_next s \<and> addr_prev (f s) = addr_prev s
     \<and> bin_next (f s) = bin_next s \<and> bin_prev (f s) = bin_prev s \<and> free_next (f s) = free_next s)
     \<and> (\<forall>s t. slot_data s = slot_data t \<longrightarrow> slot_data (f s) = slot_data (f t))"

lemma join_link_fields [simp]:
  "cap (join_link l r fr f m) = cap m" "region_base (join_link l r fr f m) = region_base m"
  "region_len (join_link l r fr f m) = region_len m" "em_notes (join_link l r fr f m) = em_notes m"
  "free_bytes (join_link l r fr f m) = free_bytes m"
  "committed_bytes (join_link l r fr f m) = committed_bytes m"
  by (simp_all add: join_link_def Let_def)

lemma join_link_data:
  assumes f: "keeps_links f" and lr: "l \<noteq> r"
  shows "slot_data (slots (join_link l r fr f m) l) = slot_data (f (slots m l))"
    and "j \<noteq> l \<Longrightarrow> j \<noteq> r \<Longrightarrow> slot_data (slots (join_link l r fr f m) j) = slot_data (slots m j)"
    and "s_generation (slots (join_link l r fr f m) r) = wrapping_add 32 (s_generation (slots m r)) 1"
proof -
  define n where "n = addr_remove r (bin_remove r (if fr then bin_remove l m else m))"
  have n: "slot_data (slots n j) = slot_data (slots m j)" for j by (simp add: n_def)
  define k where "k = (if fr then bin_insert l (put l (f (slots n l)) n) else put l (f (slots n l)) n)"
  have k: "slot_data (slots k j) = slot_data (((slots n)(l := f (slots n l))) j)" for j
    by (simp add: k_def)
  have eq: "join_link l r fr f m = push_slot r k" unfolding join_link_def k_def n_def Let_def ..
  show "slot_data (slots (join_link l r fr f m) l) = slot_data (f (slots m l))"
  proof -
    have "slot_data (f (slots n l)) = slot_data (f (slots m l))"
      using f n [of l] unfolding keeps_links_def by blast
    then show ?thesis using lr k [of l] unfolding eq push_slot_slots by simp
  qed
  show "slot_data (slots (join_link l r fr f m) j) = slot_data (slots m j)" if "j \<noteq> l" "j \<noteq> r"
    using that n [of j] k [of j] unfolding eq push_slot_slots by simp
  show "s_generation (slots (join_link l r fr f m) r) = wrapping_add 32 (s_generation (slots m r)) 1"
    using slot_data_fields(8) [OF k, of r] slot_data_fields(8) [OF n, of r] lr
    by (simp add: eq push_slot_slots)
qed

lemma join_link_links:
  assumes L: "links m (xs @ l # r # ys) fl bl" and f: "keeps_links f"
    and r: "r \<noteq> NIL" "r \<notin> set fl" "r \<noteq> l" "\<And>b. r \<in> set (bl b) \<longleftrightarrow> b = br"
    and l: "l \<noteq> NIL" "l \<notin> set fl" "\<And>b. l \<in> set (bl b) \<longleftrightarrow> fr \<and> b = bn"
    and len: "Suc (length fl) < 2 ^ 32"
  shows "\<exists>bl'. links (join_link l r fr f m) (xs @ l # ys) (r # fl) bl'
    \<and> (\<forall>j b. j \<in> set (bl' b) \<longleftrightarrow> j \<in> set (bl b) \<and> j \<noteq> l \<and> j \<noteq> r \<or>
        fr \<and> j = l \<and> b = bin_of (slots (join_link l r fr f m) l))"
proof -
  define m1 where "m1 = (if fr then bin_remove l m else m)"
  define bl1 where "bl1 = (if fr then bl(bn := remove1 l (bl bn)) else bl)"
  have "l \<in> set (bl bn)" if fr using that l(3) by simp
  then have L1: "links m1 (xs @ l # r # ys) fl bl1" and
    mem1: "\<And>j b. j \<in> set (bl1 b) \<longleftrightarrow> j \<in> set (bl b) \<and> j \<noteq> l"
    using links_bin_remove [OF L, of l bn] links_bins_remove_mem [OF L, of l bn] L l(3)
    by (auto simp: m1_def bl1_def simp del: fun_upd_apply)
  have rb: "r \<in> set (bl1 br)" using r(3,4) mem1 by simp
  define bl2 where "bl2 = bl1(br := remove1 r (bl1 br))"
  have mem2: "j \<in> set (bl2 b) \<longleftrightarrow> j \<in> set (bl b) \<and> j \<noteq> l \<and> j \<noteq> r" for j b
    unfolding bl2_def using links_bins_remove_mem [where bl = bl1, OF L1 rb] mem1 by auto
  define m2 where "m2 = addr_remove r (bin_remove r m1)"
  have "links m2 ((xs @ [l]) @ ys) fl bl2"
    unfolding m2_def bl2_def using links_bin_remove [where bl = bl1, OF L1 rb]
    by (intro links_addr_remove) simp
  then have L3: "links (put l (f (slots m2 l)) m2) (xs @ l # ys) fl bl2" (is "links ?m3 _ _ _")
    using l(2) f by (intro links_put) (simp_all add: mem2 keeps_links_def)
  define m4 where "m4 = (if fr then bin_insert l ?m3 else ?m3)"
  define b4 where "b4 = bin_of (slots ?m3 l)"
  define bl4 where "bl4 = (if fr then bl2(b4 := l # bl2 b4) else bl2)"
  have "links m4 (xs @ l # ys) fl bl4"
    using links_bin_insert [OF L3 l(1)] L3 by (simp add: m4_def bl4_def b4_def mem2)
  then have "links (push_slot r m4) (xs @ l # ys) (r # fl) bl4"
    by (rule links_push_slot) (rule r(1,2) len)+
  moreover have eq: "join_link l r fr f m = push_slot r m4"
    unfolding join_link_def m4_def m2_def m1_def Let_def ..
  moreover have "bin_of (slots (push_slot r m4) l) = b4"
    unfolding b4_def using r(3) by (intro bin_of_len) (simp add: push_slot_slots m4_def)
  ultimately show ?thesis
    by (intro exI [of _ bl4]) (auto simp: bl4_def mem2 simp del: fun_upd_apply)
qed

lemma em_rep_pool_bound:
  assumes "em_rep m al fl bl"
  shows "length al + length fl = cap m" and "length fl + length al < 2 ^ 32"
proof -
  have "distinct al" "distinct fl" using em_repD(4,5) [OF assms] by (simp_all add: addr_ok_def pool_ok_def)
  then have "length al + length fl = card (set al \<union> set fl)"
    using em_repD(2) [OF assms] by (simp add: card_Un_disjoint distinct_card)
  then show 1: "length al + length fl = cap m" using em_repD(3) [OF assms] by simp
  then show "length fl + length al < 2 ^ 32" using em_repD(1) [OF assms] by (simp add: NIL_def U32_MAX_def)
qed

lemma join_link_rep:
  assumes R: "em_rep m (xs @ l # r # ys) fl bl" and f: "keeps_links f"
    and st: "is_free (s_state (slots m r))" "is_free (s_state (f (slots m l))) = is_free (s_state (slots m l))"
    and ok: "slot_ok (f (slots m l))" "s_base (f (slots m l)) = s_base (slots m l)"
      "s_len (f (slots m l)) = s_len (slots m l) + s_len (slots m r)"
      "s_committed_len (f (slots m l)) = s_committed_len (slots m l) + s_committed_len (slots m r)"
    and m': "\<And>i. slots m' i = slots (join_link l r (is_free (s_state (slots m l))) f m) i"
      "links m' = links (join_link l r (is_free (s_state (slots m l))) f m)"
      "cap m' = cap m" "region_base m' = region_base m" "region_len m' = region_len m"
      "committed_bytes m' = committed_bytes m"
      "free_bytes m' + free_len (slots m l) + free_len (slots m r) = free_bytes m + free_len (f (slots m l))"
  obtains bl' where "em_rep m' (xs @ l # ys) (r # fl) bl'"
proof -
  let ?al = "xs @ l # r # ys" and ?fr = "is_free (s_state (slots m l))"
  note D = em_repD [OF R]
  have d: "distinct ?al" using D(4) by (simp add: addr_ok_def)
  have la: "l \<in> set ?al" "r \<in> set ?al" by simp_all
  note Il = em_rep_index [OF R la(1)] and Ir = em_rep_index [OF R la(2)]
  have rl: "r \<noteq> l" "l \<noteq> r" using d by auto
  note J = join_link_data [OF f rl(2), where fr = ?fr and m = m, folded m'(1)]
  have rb: "r \<in> set (bl b) \<longleftrightarrow> b = bin_of (slots m r)" and lb: "l \<in> set (bl b) \<longleftrightarrow> ?fr \<and> b = bin_of (slots m l)" for b
    using em_rep_bin [OF R] st(1) la by auto
  have len: "Suc (length fl) < 2 ^ 32" using em_rep_pool_bound [OF R] by simp
  obtain bl' where bl': "links m' (xs @ l # ys) (r # fl) bl'"
    and mem: "\<And>j b. j \<in> set (bl' b) \<longleftrightarrow> j \<in> set (bl b) \<and> j \<noteq> l \<and> j \<noteq> r \<or> ?fr \<and> j = l \<and> b = bin_of (slots m' l)"
    using join_link_links [OF D(9) f Ir(2,3) rl(1) rb Il(2,3) lb len, folded m'(1,2)] by auto
  have "binned m' (xs @ l # ys) bl'"
    unfolding binned_def
  proof (intro allI)
    fix b j
    have "s_state (slots m' l) = s_state (f (slots m l))" using slot_data_fields(10) [OF J(1)] .
    moreover have "j \<in> set (bl b) \<longleftrightarrow> j \<in> set ?al \<and> is_free (s_state (slots m' j)) \<and> bin_of (slots m' j) = b"
      if "j \<noteq> l" "j \<noteq> r"
      using em_rep_bin [OF R, of j b] slot_data_cong(3) [OF J(2) [OF that]] slot_data_fields(10) [OF J(2) [OF that]]
      by simp
    ultimately show "j \<in> set (bl' b) \<longleftrightarrow> j \<in> set (xs @ l # ys) \<and> is_free (s_state (slots m' j)) \<and> bin_of (slots m' j) = b"
      using st(2) d by (cases "j = l"; cases "j = r") (auto simp: mem)
  qed
  moreover have "geo_ok m' (xs @ [l] @ ys)"
  proof (rule geo_ok_replace [where us = "[l, r]" and m = m])
    show "slot_data (slots m' j) = slot_data (slots m j)" if "j \<in> set xs \<union> set ys" for j
      using that d by (intro J(2)) auto
    show "tiles (slots m') c [l] e" if "tiles (slots m) c [l, r] e" for c e
      using that ok slot_data_fields(1,2) [OF J(1)] by (simp add: add.assoc)
    show "slot_ok (slots m' j)" if "j \<in> set [l]" for j
      using that ok(1) slot_data_cong(1) [OF J(1)] by simp
    show "free_bytes m' + (\<Sum>i\<leftarrow>[l, r]. free_len (slots m i)) = free_bytes m + (\<Sum>i\<leftarrow>[l]. free_len (slots m' i))"
      using m'(7) slot_data_cong(2) [OF J(1)] by simp
    show "committed_bytes m' + (\<Sum>i\<leftarrow>[l, r]. s_committed_len (slots m i))
        = committed_bytes m + (\<Sum>i\<leftarrow>[l]. s_committed_len (slots m' i))"
      using m'(6) ok(4) slot_data_fields(3) [OF J(1)] by simp
  qed (use D(8) m'(4,5) in simp_all)
  ultimately show ?thesis
    using bl' d D(2) m'(3) by (intro that [of bl'] em_repI [OF R]) auto
qed

lemma tiles_start_inj:
  assumes "tiles sl c xs e" and "i \<in> set xs" and "s_base (sl i) = c"
  shows "hd xs = i"
proof (cases xs)
  case (Cons x ys)
  show ?thesis
  proof (rule ccontr)
    assume "hd xs \<noteq> i"
    then have "i \<in> set ys" using assms(2) Cons by auto
    then have "c + s_len (sl x) \<le> s_base (sl i)" and "0 < s_len (sl x)"
      using assms(1) Cons tiles_mem(1) by auto
    then show False using assms(3) by simp
  qed
qed (use assms(2) in simp)

lemma em_rep_adjacent:
  assumes R: "em_rep m al fl bl" and lr: "l \<in> set al" "r \<in> set al"
    and adj: "s_base (slots m l) + s_len (slots m l) = s_base (slots m r)"
  obtains xs ys where "al = xs @ l # r # ys"
proof -
  obtain xs zs where al: "al = xs @ l # zs" using lr(1) by (meson split_list)
  have t: "tiles (slots m) (region_base m) (xs @ l # zs) (region_base m + region_len m)"
    using geo_okD(1) [OF em_repD(8) [OF R]] by (simp add: al)
  then obtain d where d: "tiles (slots m) (region_base m) xs d" "s_base (slots m l) = d"
    "tiles (slots m) (s_base (slots m r)) zs (region_base m + region_len m)"
    using adj by (auto simp: tiles_append)
  have "r \<noteq> l" using adj em_rep_geo(4) [OF R lr(1)] by auto
  moreover have "r \<notin> set xs"
  proof
    assume "r \<in> set xs"
    then have "s_base (slots m r) < d" using tiles_mem(2,3) [OF d(1)] by fastforce
    then show False using adj d(2) by simp
  qed
  ultimately have "r \<in> set zs" using lr(2) al by auto
  moreover from this have "hd zs = r" by (rule tiles_start_inj [OF d(3)]) simp
  ultimately have "zs = r # tl zs" by (cases zs) auto
  then show ?thesis using al that by metis
qed

lemma em_rep_successor:
  assumes R: "em_rep m (xs @ l # r # ys) fl bl"
  shows "s_base (slots m r) = s_base (slots m l) + s_len (slots m l)"
  using geo_okD(1) [OF em_repD(8) [OF R]] by (auto simp: tiles_append)

definition merged :: "Slot \<Rightarrow> Slot \<Rightarrow> Slot \<Rightarrow> Slot" where
  "merged l r s =
     (let len = wrapping_add 64 (s_len l) (s_len r);
          committed_len = wrapping_add 64 (s_committed_len l) (s_committed_len r)
      in s\<lparr>s_len := len, s_committed_len := committed_len,
           s_split_gen := wrapping_add 32 (s_split_gen s) 1,
           s_canary := (s_canary s \<and> s_canary r),
           s_state := (if committed_len = len then EDirty else EReleased)\<rparr>)"

lemma merged_keeps_links: "keeps_links (merged l r)"
  unfolding keeps_links_def
proof (intro conjI allI impI)
  fix s t :: Slot assume "slot_data s = slot_data t"
  from slot_data_fields [OF this] show "slot_data (merged l r s) = slot_data (merged l r t)"
    by (intro slot_data_eqI) (simp_all add: merged_def Let_def)
qed (simp_all add: merged_def Let_def)

lemma mergeable_iff:
  assumes R: "em_rep m al fl bl" and l: "l \<in> set al" "r \<in> set al"
  shows "mergeable (snapshot l (slots m l)) (snapshot r (slots m r)) \<longleftrightarrow>
    s_base (slots m l) + s_len (slots m l) = s_base (slots m r) \<and> s_arena (slots m l) = s_arena (slots m r)
    \<and> is_free (s_state (slots m l)) \<and> is_free (s_state (slots m r))
    \<and> is_backed (s_state (slots m l)) = is_backed (s_state (slots m r))
    \<and> s_huge_len (slots m l) = 0 \<and> s_huge_len (slots m r) = 0"
proof -
  have "Extent_end (snapshot l (slots m l)) = s_base (slots m l) + s_len (slots m l)"
    using em_rep_geo(3) [OF R l(1)] by (simp add: Extent_end_def saturating_add_def)
  then show ?thesis
    using em_rep_geo(7) [OF R l(1)] em_rep_geo(7) [OF R l(2)]
    by (auto simp: mergeable_def HugeRange_is_some_def slot_ok_def)
qed

lemma merged_ok:
  assumes "slot_ok l" "slot_ok r" and "is_usize (s_len l + s_len r)" and "0 < s_len l" "0 < s_len r"
    and "is_free (s_state l)" "is_free (s_state r)" and "is_backed (s_state l) = is_backed (s_state r)"
  shows "s_len (merged l r l) = s_len l + s_len r"
    and "s_committed_len (merged l r l) = s_committed_len l + s_committed_len r"
    and "s_base (merged l r l) = s_base l" and "slot_ok (merged l r l)"
    and "is_free (s_state (merged l r l))" and "free_len (merged l r l) = free_len l + free_len r"
    and "is_backed (s_state (merged l r l)) = is_backed (s_state l)"
proof -
  have c: "s_committed_len l = (if is_backed (s_state l) then s_len l else 0)"
    "s_committed_len r = (if is_backed (s_state l) then s_len r else 0)"
    using assms by (auto simp: slot_ok_def)
  then have w: "wrapping_add 64 (s_len l) (s_len r) = s_len l + s_len r"
    "wrapping_add 64 (s_committed_len l) (s_committed_len r) = s_committed_len l + s_committed_len r"
    using assms(3) by (auto intro!: wrapping_add_exact)
  show "s_len (merged l r l) = s_len l + s_len r" "s_base (merged l r l) = s_base l"
    "s_committed_len (merged l r l) = s_committed_len l + s_committed_len r"
    by (simp_all add: merged_def w Let_def)
  show "slot_ok (merged l r l)" "is_free (s_state (merged l r l))"
    "free_len (merged l r l) = free_len l + free_len r"
    "is_backed (s_state (merged l r l)) = is_backed (s_state l)"
    using c assms(1,4-8)
    by (auto simp: merged_def w Let_def slot_ok_def is_free_def is_backed_def free_len_def)
qed

lemma merge_in_rep:
  assumes R: "em_rep m (xs @ l # r # ys) fl bl"
    and mg: "mergeable (snapshot l (slots m l)) (snapshot r (slots m r))"
  obtains m' bl' where "merge_in l r m = (True, m')" and "em_rep m' (xs @ l # ys) (r # fl) bl'"
    and "slot_data (slots m' l) = slot_data (merged (slots m l) (slots m r) (slots m l))"
    and "\<And>j. j \<noteq> l \<Longrightarrow> j \<noteq> r \<Longrightarrow> slot_data (slots m' j) = slot_data (slots m j)"
    and "s_generation (slots m' r) = wrapping_add 32 (s_generation (slots m r)) 1"
    and "cap m' = cap m" "region_base m' = region_base m" "region_len m' = region_len m"
    and "free_bytes m' = free_bytes m" "committed_bytes m' = committed_bytes m"
proof -
  let ?l = "slots m l" and ?r = "slots m r" and ?al = "xs @ l # r # ys"
  have la: "l \<in> set ?al" "r \<in> set ?al" by simp_all
  have lr: "l \<noteq> r" using em_repD(4) [OF R] by (auto simp: addr_ok_def)
  note Gl = em_rep_geo [OF R la(1)] and Gr = em_rep_geo [OF R la(2)]
  have mg': "is_free (s_state ?l)" "is_free (s_state ?r)" "is_backed (s_state ?l) = is_backed (s_state ?r)"
    using mg mergeable_iff [OF R la] by blast+
  have "is_usize (s_len ?l + s_len ?r)" using Gr(3) em_rep_successor [OF R] by linarith
  note M = merged_ok [OF Gl(7) Gr(7) this Gl(4) Gr(4) mg']
  define n where "n = join_link l r (is_free (s_state ?l)) (merged ?l ?r) m"
  define m' where "m' = n\<lparr>em_notes := em_notes n
    @ [OnMerge (s_base ?l) (s_len ?l) (s_base ?r) (s_len ?r) (s_committed_len ?l = s_len ?l)]\<rparr>"
  have eq: "merge_in l r m = (True, m')"
    unfolding merge_in_def em_rep_view [OF R] m'_def n_def join_link_def merged_def Let_def
    by (simp only: la lr mg mg'(1) if_True if_False option.case prod.case simp_thms snapshot_sel)
  note J = join_link_data [OF merged_keeps_links lr, where fr = "is_free (s_state ?l)" and m = m]
  obtain bl' where "em_rep m' (xs @ l # ys) (r # fl) bl'"
  proof (rule join_link_rep [OF R merged_keeps_links mg'(2) _ M(4,3,1,2)])
    show "links m' = links (join_link l r (is_free (s_state ?l)) (merged ?l ?r) m)"
      by (simp add: fun_eq_iff m'_def n_def)
  qed (use M(5,6) mg'(1) in \<open>simp_all add: m'_def n_def\<close>)
  from that [OF eq this] J show ?thesis by (simp add: m'_def n_def)
qed

section \<open>The live extents\<close>

text \<open>
  What a client of the map holds is the set of its active extents. Splitting and merging free
  extents does not change it.
\<close>

definition live :: "ExtentMap \<Rightarrow> Extent set" where
  "live m = {e. view m (ex_id e) = Some e \<and> ex_state e = EActive}"

lemma live_eq:
  assumes "em_rep m al fl bl"
  shows "live m = (\<lambda>j. snapshot j (slots m j)) ` {j \<in> set al. s_state (slots m j) = EActive}"
proof (intro set_eqI iffI)
  fix e assume "e \<in> live m"
  then have "ex_id e \<in> set al" and e: "snapshot (ex_id e) (slots m (ex_id e)) = e" and "ex_state e = EActive"
    by (auto simp: live_def em_rep_view [OF assms] split: if_splits)
  moreover have "s_state (slots m (ex_id e)) = ex_state e" using arg_cong [OF e, of ex_state] by simp
  ultimately show "e \<in> (\<lambda>j. snapshot j (slots m j)) ` {j \<in> set al. s_state (slots m j) = EActive}"
    by (intro image_eqI [of _ _ "ex_id e"]) simp_all
qed (auto simp: live_def em_rep_view [OF assms])

lemma snapshot_data:
  assumes "slot_data s = slot_data t"
  shows "snapshot i s = snapshot i t"
  using slot_data_fields [OF assms] by (simp add: snapshot_def)

lemma live_cong:
  assumes "em_rep m al fl bl" and "em_rep m' al' fl' bl'"
    and "\<And>j. j \<in> set al \<and> s_state (slots m j) = EActive \<longleftrightarrow> j \<in> set al' \<and> s_state (slots m' j) = EActive"
    and "\<And>j. j \<in> set al \<Longrightarrow> s_state (slots m j) = EActive \<Longrightarrow> slot_data (slots m' j) = slot_data (slots m j)"
  shows "live m' = live m"
  unfolding live_eq [OF assms(1)] live_eq [OF assms(2)]
proof (rule image_cong)
  show "{j \<in> set al'. s_state (slots m' j) = EActive} = {j \<in> set al. s_state (slots m j) = EActive}"
    using assms(3) by blast
  fix j assume "j \<in> {j \<in> set al. s_state (slots m j) = EActive}"
  then show "snapshot j (slots m' j) = snapshot j (slots m j)"
    using assms(4) by (intro snapshot_data) blast
qed

lemma live_disjoint:
  assumes R: "em_rep m al fl bl" and e: "e \<in> live m" "f \<in> live m" "e \<noteq> f"
  shows "ex_base e + ex_len e \<le> ex_base f \<or> ex_base f + ex_len f \<le> ex_base e"
proof -
  obtain i j where ij: "i \<in> set al" "e = snapshot i (slots m i)" "j \<in> set al" "f = snapshot j (slots m j)"
    using e(1,2) by (auto simp: live_eq [OF R])
  have t: "tiles (slots m) (region_base m) al (region_base m + region_len m)"
    by (rule geo_okD(1) [OF em_repD(8) [OF R]])
  have "s_base (slots m i) + s_len (slots m i) \<le> s_base (slots m j)
      \<or> s_base (slots m j) + s_len (slots m j) \<le> s_base (slots m i)"
    if "tiles (slots m) c xs d" "i \<in> set xs" "j \<in> set xs" "i \<noteq> j" for c d xs
    using that
  proof (induction xs arbitrary: c)
    case (Cons x xs)
    then show ?case using tiles_mem(1) [of "slots m" "c + s_len (slots m x)" xs d] by fastforce
  qed simp
  from this [OF t ij(1,3)] show ?thesis using ij e(3) by auto
qed

lemma live_bounds:
  assumes R: "em_rep m al fl bl" and e: "e \<in> live m"
  shows "region_base m \<le> ex_base e" and "ex_base e + ex_len e \<le> region_base m + region_len m"
    and "0 < ex_len e" and "PAGE_SIZE dvd ex_base e" and "PAGE_SIZE dvd ex_len e"
  using e em_rep_geo [OF R] by (auto simp: live_eq [OF R])

lemma is_free_not_active [simp]: "is_free st \<Longrightarrow> st \<noteq> EActive" "\<not> is_free EActive"
  by (simp_all add: is_free_def)

section \<open>Coalescing and freeing\<close>

lemma merge_in_cases:
  assumes R: "em_rep m al fl bl"
  obtains "merge_in l r m = (False, m)"
  | xs ys m' bl' where "al = xs @ l # r # ys" and "merge_in l r m = (True, m')"
    and "em_rep m' (xs @ l # ys) (r # fl) bl'"
    and "s_base (slots m' l) = s_base (slots m l)" and "s_len (slots m' l) = s_len (slots m l) + s_len (slots m r)"
    and "s_base (slots m r) = s_base (slots m l) + s_len (slots m l)"
    and "is_free (s_state (slots m' l))" and "is_free (s_state (slots m l))" and "is_free (s_state (slots m r))"
    and "\<And>j. j \<noteq> l \<Longrightarrow> j \<noteq> r \<Longrightarrow> slot_data (slots m' j) = slot_data (slots m j)"
    and "cap m' = cap m" "region_base m' = region_base m" "region_len m' = region_len m"
    and "free_bytes m' = free_bytes m" "committed_bytes m' = committed_bytes m"
    and "live m' = live m" 
proof (cases "l \<in> set al \<and> r \<in> set al \<and> l \<noteq> r \<and> mergeable (snapshot l (slots m l)) (snapshot r (slots m r))")
  case False
  then have "merge_in l r m = (False, m)"
    unfolding merge_in_def em_rep_view [OF R] by auto
  then show ?thesis by (rule that(1))
next
  case True
  then have la: "l \<in> set al" "r \<in> set al" "l \<noteq> r" and mg: "mergeable (snapshot l (slots m l)) (snapshot r (slots m r))"
    by blast+
  note M = mg [unfolded mergeable_iff [OF R la(1,2)]]
  obtain xs ys where al: "al = xs @ l # r # ys" using em_rep_adjacent [OF R la(1,2)] M by blast
  obtain m' bl' where m': "merge_in l r m = (True, m')" "em_rep m' (xs @ l # ys) (r # fl) bl'"
    "slot_data (slots m' l) = slot_data (merged (slots m l) (slots m r) (slots m l))"
    "\<And>j. j \<noteq> l \<Longrightarrow> j \<noteq> r \<Longrightarrow> slot_data (slots m' j) = slot_data (slots m j)"
    "cap m' = cap m" "region_base m' = region_base m" "region_len m' = region_len m"
    "free_bytes m' = free_bytes m" "committed_bytes m' = committed_bytes m"
    using merge_in_rep [OF R [unfolded al] mg] by blast
  note Gl = em_rep_geo [OF R la(1)] and Gr = em_rep_geo [OF R la(2)]
  have "is_usize (s_len (slots m l) + s_len (slots m r))" using Gr(3) M by linarith
  with M have O: "s_len (slots m' l) = s_len (slots m l) + s_len (slots m r)"
    "s_base (slots m' l) = s_base (slots m l)" "is_free (s_state (slots m' l))"
    using merged_ok [OF Gl(7) Gr(7) _ Gl(4) Gr(4)] slot_data_fields [OF m'(3)] by auto
  have "live m' = live m"
  proof (rule live_cong [OF R m'(2)])
    show "j \<in> set al \<and> s_state (slots m j) = EActive \<longleftrightarrow>
      j \<in> set (xs @ l # ys) \<and> s_state (slots m' j) = EActive" for j
      using M O(3) slot_data_fields(10) [OF m'(4), of j] em_repD(4) [OF R]
      by (cases "j = l"; cases "j = r") (auto simp: al addr_ok_def)
    show "slot_data (slots m' j) = slot_data (slots m j)" if "s_state (slots m j) = EActive" for j
      using that M by (intro m'(4)) auto
  qed
  then show ?thesis using that(2) [OF al m'(1,2) O(2,1) _ O(3) _ _ m'(4-9)] M by simp
qed

text \<open>A step that keeps the live extents, the counters and the bytes of one free extent.\<close>

definition outgrows :: "ExtentMap \<Rightarrow> nat \<Rightarrow> ExtentMap \<Rightarrow> nat \<Rightarrow> bool" where
  "outgrows m i m' j \<longleftrightarrow> live m' = live m \<and> cap m' = cap m \<and> region_base m' = region_base m
     \<and> region_len m' = region_len m \<and> free_bytes m' = free_bytes m \<and> committed_bytes m' = committed_bytes m
     \<and> is_free (s_state (slots m' j)) \<and> s_base (slots m' j) \<le> s_base (slots m i)
     \<and> s_base (slots m i) + s_len (slots m i) \<le> s_base (slots m' j) + s_len (slots m' j)"

lemma outgrows_refl: "is_free (s_state (slots m i)) \<Longrightarrow> outgrows m i m i"
  by (simp add: outgrows_def)

lemma outgrows_trans: "outgrows m i m' j \<Longrightarrow> outgrows m' j m'' k \<Longrightarrow> outgrows m i m'' k"
  by (auto simp: outgrows_def)

lemma merge_in_grows:
  assumes R: "em_rep m al fl bl" and i: "i \<in> set al" "is_free (s_state (slots m i))" and lr: "i = l \<or> i = r"
  shows "\<exists>b m' al' fl' bl'. merge_in l r m = (b, m') \<and> em_rep m' al' fl' bl'
    \<and> (if b then l else i) \<in> set al' \<and> outgrows m i m' (if b then l else i)"
  using R
proof (cases rule: merge_in_cases [where l = l and r = r])
  case 1
  then show ?thesis using R i outgrows_refl by auto
next
  case (2 xs ys m' bl')
  have "outgrows m i m' l" using 2(4-) lr by (auto simp: outgrows_def)
  then show ?thesis using 2(2,3)
    by (intro exI [of _ True] exI [of _ m'] exI [of _ "xs @ l # ys"] exI [of _ "r # fl"] exI [of _ bl']) simp
qed

lemma coalesce_in_rep:
  assumes R: "em_rep m al fl bl" and i: "i \<in> set al" "is_free (s_state (slots m i))"
  obtains sv m' al' fl' bl' where "coalesce_in i m = (sv, m')" and "em_rep m' al' fl' bl'"
    and "sv \<in> set al'" and "outgrows m i m' sv"
proof -
  let ?nx = "addr_next (slots m i)"
  define m1 where "m1 = (if ?nx \<noteq> NIL then snd (merge_in i ?nx m) else m)"
  obtain al1 fl1 bl1 where R1: "em_rep m1 al1 fl1 bl1" "i \<in> set al1" and g1: "outgrows m i m1 i"
  proof (cases "?nx = NIL")
    case True
    then show ?thesis using that R i outgrows_refl by (simp add: m1_def)
  next
    case False
    obtain b n al' fl' bl' where "merge_in i ?nx m = (b, n)" "em_rep n al' fl' bl'" "i \<in> set al'" "outgrows m i n i"
      using merge_in_grows [OF R i, of i ?nx] by auto
    then show ?thesis using that False by (simp add: m1_def)
  qed
  have f1: "is_free (s_state (slots m1 i))" using g1 by (simp add: outgrows_def)
  let ?pv = "addr_prev (slots m1 i)"
  have eq: "coalesce_in i m = (if ?pv \<noteq> NIL then (case merge_in ?pv i m1 of (ok, n) \<Rightarrow> (if ok then ?pv else i, n))
      else (i, m1))"
    unfolding coalesce_in_def m1_def Let_def ..
  show ?thesis
  proof (cases "?pv = NIL")
    case True
    then show ?thesis using that [OF _ R1 g1] eq by simp
  next
    case False
    obtain b n al' fl' bl' where "merge_in ?pv i m1 = (b, n)" "em_rep n al' fl' bl'"
      "(if b then ?pv else i) \<in> set al'" "outgrows m1 i n (if b then ?pv else i)"
      using merge_in_grows [OF R1 f1, of ?pv i] by auto
    then show ?thesis using that [of "if b then ?pv else i" n al' fl' bl'] eq False outgrows_trans [OF g1] by simp
  qed
qed

text \<open>A single extent changes its state; its bytes stay where they are.\<close>

lemma em_rep_restate:
  assumes R: "em_rep m (xs @ i # ys) fl bl"
    and s: "addr_next s = addr_next (slots m i)" "addr_prev s = addr_prev (slots m i)"
      "bin_next s = bin_next (slots m i)" "bin_prev s = bin_prev (slots m i)"
      "s_base s = s_base (slots m i)" "s_len s = s_len (slots m i)"
    and ok: "slot_ok s"
    and m': "m' = (if is_free (s_state s) = is_free (s_state (slots m i)) then put i s m
        else if is_free (s_state s) then bin_insert i (put i s m) else bin_remove i (put i s m))
        \<lparr>free_bytes := f, committed_bytes := c\<rparr>"
    and f: "f + free_len (slots m i) = free_bytes m + free_len s"
    and c: "c + s_committed_len (slots m i) = committed_bytes m + s_committed_len s"
  obtains bl' where "em_rep m' (xs @ i # ys) fl bl'"
proof -
  let ?al = "xs @ i # ys"
  note D = em_repD [OF R]
  have ia: "i \<in> set ?al" by simp
  note I = em_rep_index [OF R ia]
  have bi: "i \<in> set (bl b) \<longleftrightarrow> is_free (s_state (slots m i)) \<and> b = bin_of (slots m i)" for b
    using em_rep_bin [OF R, of i b] by auto
  have len: "bin_of s = bin_of (slots m i)" by (rule bin_of_len) (rule s(6))
  have L: "links (put i s m) ?al fl bl" using I(3) s by (intro links_put D(9)) auto
  obtain bl' where bl': "links m' ?al fl bl'"
    and mem: "\<And>j b. j \<in> set (bl' b) \<longleftrightarrow> (if j = i then is_free (s_state s) \<and> b = bin_of s else j \<in> set (bl b))"
  proof (cases "is_free (s_state s) = is_free (s_state (slots m i))")
    case True
    then show ?thesis using that [of bl] L m' bi len by auto
  next
    case False
    show ?thesis
    proof (cases "is_free (s_state s)")
      case True
      then have "links (bin_insert i (put i s m)) ?al fl (bl(bin_of s := i # bl (bin_of s)))"
        using False bi by (intro links_bin_insert [OF L I(2)]) auto
      then show ?thesis using that False True m' bi by (auto simp del: fun_upd_apply)
    next
      case nf: False
      then have ib: "i \<in> set (bl (bin_of s))" using False bi len by auto
      have "links m' ?al fl (bl(bin_of s := remove1 i (bl (bin_of s))))"
        using links_bin_remove [where bl = bl, OF L ib] False nf by (simp add: m')
      then show ?thesis
        by (rule that) (use nf in \<open>simp add: links_bins_remove_mem [where bl = bl, OF L ib] del: fun_upd_apply\<close>)
    qed
  qed
  have d: "slot_data (slots m' j) = slot_data (if j = i then s else slots m j)" for j
    by (simp add: m')
  have "binned m' ?al bl'"
    unfolding binned_def
  proof (intro allI)
    fix b j
    show "j \<in> set (bl' b) \<longleftrightarrow> j \<in> set ?al \<and> is_free (s_state (slots m' j)) \<and> bin_of (slots m' j) = b"
      using em_rep_bin [OF R, of j b] slot_data_cong(3) [OF d, of j] slot_data_fields(10) [OF d, of j]
      by (auto simp: mem)
  qed
  moreover have "geo_ok m' (xs @ [i] @ ys)"
  proof (rule geo_ok_replace [where us = "[i]" and m = m])
    show "slot_data (slots m' j) = slot_data (slots m j)" if "j \<in> set xs \<union> set ys" for j
      using that d D(4) by (auto simp: addr_ok_def)
    show "tiles (slots m') c [i] e" if "tiles (slots m) c [i] e" for c e
      using that slot_data_fields(1,2) [OF d, of i] s(5,6) by simp
    show "slot_ok (slots m' j)" if "j \<in> set [i]" for j
      using that ok slot_data_cong(1) [OF d, of i] by simp
    show "free_bytes m' + (\<Sum>j\<leftarrow>[i]. free_len (slots m j)) = free_bytes m + (\<Sum>j\<leftarrow>[i]. free_len (slots m' j))"
      using f slot_data_cong(2) [OF d, of i] by (simp add: m')
    show "committed_bytes m' + (\<Sum>j\<leftarrow>[i]. s_committed_len (slots m j))
        = committed_bytes m + (\<Sum>j\<leftarrow>[i]. s_committed_len (slots m' j))"
      using c slot_data_fields(3) [OF d, of i] by (simp add: m')
  qed (use D(8) in \<open>simp_all add: m'\<close>)
  ultimately show ?thesis
    using bl' D(2) by (intro that [of bl'] em_repI [OF R]) (simp_all add: m')
qed

lemma live_replace:
  assumes R: "em_rep m al fl bl" and R': "em_rep m' al' fl' bl'" and i: "i \<in> set al'"
    and act: "\<And>k. k \<noteq> i \<Longrightarrow> k \<in> set al' \<and> s_state (slots m' k) = EActive \<longleftrightarrow>
        k \<in> set al \<and> s_state (slots m k) = EActive"
    and same: "\<And>k. k \<noteq> i \<Longrightarrow> k \<in> set al' \<Longrightarrow> slot_data (slots m' k) = slot_data (slots m k)"
    and d: "slot_data (slots m' i) = slot_data s"
  shows "live m' = live m - {snapshot i (slots m i)} \<union> (if s_state s = EActive then {snapshot i s} else {})"
proof -
  let ?A = "{k \<in> set al. k \<noteq> i \<and> s_state (slots m k) = EActive}"
  have si: "s_state (slots m' i) = s_state s" "snapshot i (slots m' i) = snapshot i s"
    using slot_data_fields(10) [OF d] snapshot_data [OF d] by simp_all
  have "{k \<in> set al'. s_state (slots m' k) = EActive} = ?A \<union> (if s_state s = EActive then {i} else {})"
  proof (rule set_eqI)
    show "k \<in> {k \<in> set al'. s_state (slots m' k) = EActive} \<longleftrightarrow> k \<in> ?A \<union> (if s_state s = EActive then {i} else {})" for k
      using act [of k] i si(1) by (cases "k = i") auto
  qed
  moreover have "snapshot k (slots m' k) = snapshot k (slots m k)" if "k \<in> ?A" for k
    using that act by (intro snapshot_data same) auto
  ultimately have A: "live m' = (\<lambda>k. snapshot k (slots m k)) ` ?A
      \<union> (if s_state s = EActive then {snapshot i s} else {})"
    unfolding live_eq [OF R'] by (auto simp: image_Un si(2))
  have "(\<lambda>k. snapshot k (slots m k)) ` ?A = live m - {snapshot i (slots m i)}"
    unfolding live_eq [OF R] by (auto dest: arg_cong [of _ _ ex_id])
  then show ?thesis by (simp add: A)
qed

lemma live_update:
  assumes R: "em_rep m al fl bl" and R': "em_rep m' al fl' bl'" and i: "i \<in> set al"
    and d: "\<And>j. slot_data (slots m' j) = slot_data (if j = i then s else slots m j)"
  shows "live m' = live m - {snapshot i (slots m i)} \<union> (if s_state s = EActive then {snapshot i s} else {})"
proof (rule live_replace [OF R R' i])
  show "k \<in> set al \<and> s_state (slots m' k) = EActive \<longleftrightarrow> k \<in> set al \<and> s_state (slots m k) = EActive"
    if "k \<noteq> i" for k
    using that slot_data_fields(10) [OF d, of k] by simp
qed (use d in simp_all)

definition free_target_ok :: "Slot \<Rightarrow> ExtentState \<Rightarrow> bool" where
  "free_target_ok s st \<longleftrightarrow>
     st = EDirty \<and> s_committed_len s = s_len s \<or> st = EReleased \<and> s_committed_len s = 0"

lemma free_in_canary_rep:
  assumes R: "em_rep m al fl bl" and e: "view m i = Some e" "ex_state e = EActive"
    and st: "free_target_ok (slots m i) st"
  obtains sv m' al' fl' bl' where "free_in_canary i st cy m = (Some sv, m')" and "em_rep m' al' fl' bl'"
    and "sv \<in> set al'" and "is_free (s_state (slots m' sv))"
    and "s_base (slots m' sv) \<le> ex_base e" and "ex_base e + ex_len e \<le> s_base (slots m' sv) + s_len (slots m' sv)"
    and "live m' = live m - {e}" and "free_bytes m' = free_bytes m + ex_len e"
    and "committed_bytes m' = committed_bytes m" and "cap m' = cap m"
    and "region_base m' = region_base m" and "region_len m' = region_len m"
proof -
  have i: "i \<in> set al" "e = snapshot i (slots m i)" using e(1) by (auto simp: em_rep_view [OF R] split: if_splits)
  note G = em_rep_geo [OF R i(1)]
  define s where "s = (slots m i)\<lparr>s_state := st, s_canary := (cy \<and> st = EDirty)\<rparr>"
  define m1 where "m1 = bin_insert i (put i s m)\<lparr>free_bytes := free_bytes m + s_len (slots m i), committed_bytes := committed_bytes m\<rparr>"
  have act: "s_state (slots m i) = EActive" using e(2) i(2) by simp
  have fr: "is_free st" "ExtentState_can_transition EActive st" "slot_ok s"
    using st G(4,7) by (auto simp: free_target_ok_def is_free_def slot_ok_def s_def is_backed_def)
  have nf: "\<not> is_free EActive" by (simp add: is_free_def)
  have fl: "free_len (slots m i) = 0" "free_len s = s_len (slots m i)"
    using act fr(1) nf by (simp_all add: free_len_def s_def)
  obtain xs ys where al: "al = xs @ i # ys" using i(1) by (meson split_list)
  obtain bl1 where R1: "em_rep m1 al fl bl1"
    unfolding al
  proof (rule em_rep_restate [OF R [unfolded al], where s = s])
    show "m1 = (if is_free (s_state s) = is_free (s_state (slots m i)) then put i s m
        else if is_free (s_state s) then bin_insert i (put i s m) else bin_remove i (put i s m))
        \<lparr>free_bytes := free_bytes m + s_len (slots m i), committed_bytes := committed_bytes m\<rparr>"
      using act fr nf by (simp add: m1_def s_def)
  qed (use fr(3) fl in \<open>simp_all add: s_def\<close>)
  have d: "slot_data (slots m1 j) = slot_data (if j = i then s else slots m j)" for j by (simp add: m1_def)
  have lv: "live m1 = live m - {e}"
    using live_update [OF R R1 i(1) d] fr(1) i(2) by (simp add: s_def)
  have f1: "is_free (s_state (slots m1 i))" using slot_data_fields(10) [OF d, of i] fr(1) by (simp add: s_def)
  obtain sv m' al' fl' bl' where C: "coalesce_in i m1 = (sv, m')" "em_rep m' al' fl' bl'" "sv \<in> set al'" "outgrows m1 i m' sv"
    using coalesce_in_rep [OF R1 i(1) f1] by blast
  have fb: "wrapping_add 64 (free_bytes m) (s_len (slots m i)) = free_bytes m + s_len (slots m i)"
  proof (rule wrapping_add_exact)
    note G1 = geo_okD [OF em_repD(8) [OF R1]]
    have "(\<Sum>j\<leftarrow>al. free_len (slots m1 j)) \<le> (\<Sum>j\<leftarrow>al. s_len (slots m1 j))"
      by (intro sum_list_mono) (simp add: free_len_def)
    then show "is_usize (free_bytes m + s_len (slots m i))"
      using G1(1-3) tiles_end [OF G1(1)] by (simp add: m1_def)
  qed
  have m1': "bin_insert i (put i s m\<lparr>free_bytes := free_bytes m + s_len (slots m i)\<rparr>) = m1"
    by (simp add: m1_def bin_insert_def put_def Let_def)
  have "free_in_canary i st cy m = (Some sv, m')"
    using C(1) fr(2) e act i
    by (simp add: free_in_canary_def fb m1' s_def [symmetric])
  then show ?thesis
    using that [OF _ C(2,3)] C(4) slot_data_fields(1,2) [OF d, of i] lv i(2)
    by (simp add: outgrows_def m1_def s_def)
qed

end
