(* ===== verification/Extent_Carve.thy ===== *)
theory Extent_Carve
  imports Extent_Ops
begin

text \<open>
  Allocation from the extent map: the search of the bins finds a fit whenever one exists, the
  best one under \<open>Fit::Best\<close>, and carving turns it into an active extent of the requested size
  and alignment.
\<close>

section \<open>The bins by size\<close>

lemma bit_length_mono: "m \<le> n \<Longrightarrow> bit_length m \<le> bit_length n"
proof (induction m arbitrary: n rule: bit_length.induct)
  case (1 m)
  show ?case
  proof (cases "m = 0")
    case False
    then have "m div 2 \<le> n div 2" and "n \<noteq> 0" using 1(2) by auto
    then show ?thesis using 1(1) [OF False, of "n div 2"] False
      by (simp add: bit_length.simps [of m] bit_length.simps [of n])
  qed (simp add: bit_length.simps [of 0])
qed

lemma bit_length_bound: "n < 2 ^ k \<Longrightarrow> bit_length n \<le> k"
proof (induction k arbitrary: n)
  case 0
  then show ?case by (simp add: bit_length.simps [of 0])
next
  case (Suc k)
  then have "n div 2 < 2 ^ k" by auto
  then show ?case using Suc.IH [of "n div 2"] by (simp add: bit_length.simps [of n])
qed

lemma bin_of_bound: "is_usize (s_len s) \<Longrightarrow> bin_of s < NBINS"
  using bit_length_bound [of "s_len s div PAGE_SIZE" 64] div_le_dividend [of "s_len s" PAGE_SIZE]
  by (simp add: bin_of_def bin_index_def NBINS_def)

lemma bin_of_less:
  assumes "bin_of s < bin_of t"
  shows "s_len s < s_len t"
proof (rule ccontr)
  assume "\<not> ?thesis"
  then have "s_len t div PAGE_SIZE \<le> s_len s div PAGE_SIZE" by (intro div_le_mono) simp
  then have "bin_of t \<le> bin_of s" unfolding bin_of_def bin_index_def by (rule bit_length_mono)
  then show False using assms by simp
qed

section \<open>The search\<close>

text \<open>The best hit among a set of extents.\<close>

definition best_of :: "ExtentMap \<Rightarrow> usize \<Rightarrow> usize \<Rightarrow> fit_result \<Rightarrow> nat set \<Rightarrow> bool" where
  "best_of m n a best A \<longleftrightarrow>
     (case best of
        None \<Rightarrow> \<forall>y\<in>A. fit_hit m n a y = None
      | Some h \<Rightarrow> fst h \<in> A \<and> fit_hit m n a (fst h) = Some h
          \<and> (\<forall>y\<in>A. fit_hit m n a y \<noteq> None \<longrightarrow> s_len (slots m (fst h)) \<le> s_len (slots m y)))"

lemma fit_hit_fst: "fit_hit m n a i = Some h \<Longrightarrow> fst h = i"
  by (auto simp: fit_hit_def Let_def split: option.splits if_splits)

lemma best_of_step:
  assumes "best_of m n a best A"
  shows "best_of m n a (case fit_hit m n a x of None \<Rightarrow> best
     | Some h \<Rightarrow> if fit_better m x best then Some h else best) (insert x A)"
  using assms
  by (cases "fit_hit m n a x"; cases best)
    (auto simp: best_of_def fit_better_def fit_hit_fst dest: fit_hit_fst intro: order_trans less_imp_le)

lemma fit_bin_Best:
  assumes "chain (bnx m) pv p zs NIL" and "NIL \<notin> set zs" and "steps + length zs \<le> cap m"
    and "best_of m n a best A"
  shows "\<exists>best'. fit_bin m n a Best (hd_or zs NIL) steps best = Inr (steps + length zs, best')
    \<and> best_of m n a best' (A \<union> set zs)"
  using assms
proof (induction zs arbitrary: p steps best A)
  case Nil
  then show ?case by (simp add: fit_bin.simps)
next
  case (Cons z zs)
  let ?b = "case fit_hit m n a z of None \<Rightarrow> best | Some h \<Rightarrow> if fit_better m z best then Some h else best"
  have "fit_bin m n a Best z steps best = fit_bin m n a Best (hd_or zs NIL) (steps + 1) ?b"
    using Cons.prems by (subst fit_bin.simps) (auto split: option.splits)
  then show ?case
    using Cons.IH [of z "steps + 1" ?b "insert z A"] Cons.prems best_of_step [OF Cons.prems(4), of z] by simp
qed

lemma fit_bin_First:
  assumes "chain (bnx m) pv p zs NIL" and "NIL \<notin> set zs" and "steps + length zs \<le> cap m"
  shows "(\<exists>z\<in>set zs. \<exists>h. fit_bin m n a First (hd_or zs NIL) steps best = Inl (Some h) \<and> fit_hit m n a z = Some h)
    \<or> fit_bin m n a First (hd_or zs NIL) steps best = Inr (steps + length zs, best)
      \<and> (\<forall>z\<in>set zs. fit_hit m n a z = None)"
  using assms
proof (induction zs arbitrary: p steps)
  case Nil
  then show ?case by (simp add: fit_bin.simps)
next
  case (Cons z zs)
  show ?case
  proof (cases "fit_hit m n a z")
    case None
    have "fit_bin m n a First z steps best = fit_bin m n a First (hd_or zs NIL) (steps + 1) best"
      using Cons.prems None by (subst fit_bin.simps) auto
    then show ?thesis using Cons.IH [of z "steps + 1"] Cons.prems None by simp
  next
    case (Some h)
    have "fit_bin m n a First z steps best = Inl (Some h)"
      using Cons.prems Some by (subst fit_bin.simps) auto
    then show ?thesis using Some by simp
  qed
qed

text \<open>
  The result of the search over a list of bins: with \<open>Best\<close> a hit of the first bin that has
  one, the smallest there.
\<close>

lemma fit_bins_spec:
  assumes ok: "bins_ok m bl" and len: "steps + (\<Sum>b\<leftarrow>bs. length (bl b)) \<le> cap m"
    and srt: "sorted bs"
  shows "case fit_bins m n a fit bs steps None of
      None \<Rightarrow> \<forall>b\<in>set bs. \<forall>y\<in>set (bl b). fit_hit m n a y = None
    | Some h \<Rightarrow> \<exists>b\<in>set bs. fst h \<in> set (bl b) \<and> fit_hit m n a (fst h) = Some h
        \<and> (fit = Best \<longrightarrow> (\<forall>c\<in>set bs. \<forall>y\<in>set (bl c). fit_hit m n a y \<noteq> None \<longrightarrow>
             s_len (slots m (fst h)) \<le> s_len (slots m y)))"
  using len srt
proof (induction bs arbitrary: steps)
  case Nil
  then show ?case by simp
next
  case (Cons b bs)
  have B: "chain (bnx m) (bpv m) NIL (bl b) NIL" "NIL \<notin> set (bl b)" "bins m b = hd_or (bl b) NIL"
    "\<And>c y. y \<in> set (bl c) \<Longrightarrow> bin_of (slots m y) = c"
    using ok by (auto simp: bins_ok_def bin_ok_def)
  have l: "steps + length (bl b) \<le> cap m" "(steps + length (bl b)) + (\<Sum>b\<leftarrow>bs. length (bl b)) \<le> cap m"
    and s: "sorted bs" "\<forall>c\<in>set bs. b \<le> c" using Cons.prems by auto
  note IH = Cons.IH [OF l(2) s(1)]
  show ?case
  proof (cases fit)
    case First
    from fit_bin_First [OF B(1,2) l(1), of n a None] show ?thesis
    proof
      assume "\<exists>z\<in>set (bl b). \<exists>h. fit_bin m n a First (hd_or (bl b) NIL) steps None = Inl (Some h) \<and> fit_hit m n a z = Some h"
      then obtain z h where "z \<in> set (bl b)" "fit_bin m n a First (bins m b) steps None = Inl (Some h)" "fit_hit m n a z = Some h"
        by (auto simp: B(3))
      then show ?thesis using fit_hit_fst [of m n a z h] by (simp add: First)
    next
      assume "fit_bin m n a First (hd_or (bl b) NIL) steps None = Inr (steps + length (bl b), None)
        \<and> (\<forall>z\<in>set (bl b). fit_hit m n a z = None)"
      then show ?thesis using IH by (auto simp: First B(3) split: option.splits)
    qed
  next
    case Best
    obtain best where F: "fit_bin m n a Best (bins m b) steps None = Inr (steps + length (bl b), best)"
      "best_of m n a best (set (bl b))"
      using fit_bin_Best [OF B(1,2) l(1), of n a None "{}"] by (auto simp: B(3) best_of_def)
    show ?thesis
    proof (cases best)
      case None
      then show ?thesis using F IH by (auto simp: Best best_of_def split: option.splits)
    next
      case (Some h)
      have "s_len (slots m (fst h)) \<le> s_len (slots m y)" if "c \<in> set bs" "y \<in> set (bl c)" "fit_hit m n a y \<noteq> None" for c y
      proof (cases "c = b")
        case True
        then show ?thesis using that F(2) Some by (simp add: best_of_def)
      next
        case False
        then have "bin_of (slots m (fst h)) < bin_of (slots m y)"
          using that s(2) B(4) F(2) Some by (auto simp: best_of_def le_neq_implies_less)
        then show ?thesis using bin_of_less less_imp_le by blast
      qed
      moreover have "fit_bins m n a fit (b # bs) steps None = Some h" using F(1) Some by (cases h) (simp add: Best)
      ultimately show ?thesis using F(2) Some by (auto simp: best_of_def simp del: fit_bins.simps)
    qed
  qed
qed

lemma em_rep_bins_length:
  assumes R: "em_rep m al fl bl" and "distinct bs"
  shows "(\<Sum>b\<leftarrow>bs. length (bl b)) \<le> length al"
proof -
  have "distinct (concat (map bl bs)) \<and> set (concat (map bl bs)) \<subseteq> set al"
    using assms(2)
  proof (induction bs)
    case (Cons b bs)
    have "distinct (bl b)" using em_repD(6) [OF R] by (simp add: bins_ok_def bin_ok_def)
    then show ?case using Cons em_rep_bin [OF R] by auto
  qed simp
  then have "length (concat (map bl bs)) \<le> length al"
    using em_repD(4) [OF R] unfolding addr_ok_def
    by (metis card_mono distinct_card finite_set)
  then show ?thesis by (simp add: length_concat comp_def)
qed

lemma fit_hit_iff:
  assumes "is_power_of_two a" "is_usize a" and "is_usize (s_base (slots m i) + s_len (slots m i))"
  shows "fit_hit m n a i = Some (j, al, p) \<longleftrightarrow>
    j = i \<and> align_up (s_base (slots m i)) a = Some al \<and> p = al - s_base (slots m i) \<and> p + n \<le> s_len (slots m i)"
proof (cases "align_up (s_base (slots m i)) a")
  case (Some x)
  note A = align_up_Some [OF assms(1,2) Some]
  have "wrapping_sub 64 x (s_base (slots m i)) = x - s_base (slots m i)"
    using A(1,4) by (rule wrapping_sub_exact)
  then show ?thesis using Some assms(3)
    by (auto simp: fit_hit_def Let_def checked_add_def USIZE_MAX_def)
qed (auto simp: fit_hit_def)

text \<open>
  An extent can hold an allocation exactly when it contains an aligned address with enough bytes
  behind it.
\<close>

lemma fit_hit_None_iff:
  assumes a: "is_power_of_two a" "is_usize a" and s: "is_usize (s_base (slots m i) + s_len (slots m i))"
    and n: "0 < n"
  shows "fit_hit m n a i = None \<longleftrightarrow>
    \<not> (\<exists>x. a dvd x \<and> s_base (slots m i) \<le> x \<and> x + n \<le> s_base (slots m i) + s_len (slots m i))"
    (is "_ \<longleftrightarrow> \<not> (\<exists>x. ?P x)")
proof
  assume none: "fit_hit m n a i = None"
  show "\<not> (\<exists>x. ?P x)"
  proof
    assume "\<exists>x. ?P x"
    then obtain x where x: "a dvd x" "s_base (slots m i) \<le> x" "x + n \<le> s_base (slots m i) + s_len (slots m i)" by blast
    have "is_usize x" using x(3) s n by linarith
    then obtain y where y: "align_up (s_base (slots m i)) a = Some y" using x align_up_None [OF a] by blast
    note A = align_up_Some [OF a y]
    have "y - s_base (slots m i) + n \<le> s_len (slots m i)" using A(1) A(5) [OF x(1,2)] x(3) by linarith
    then have "fit_hit m n a i = Some (i, y, y - s_base (slots m i))"
      using y by (simp add: fit_hit_iff [OF a s])
    then show False using none by simp
  qed
next
  assume none: "\<not> (\<exists>x. ?P x)"
  show "fit_hit m n a i = None"
  proof (rule ccontr)
    assume "fit_hit m n a i \<noteq> None"
    then obtain j x p where "fit_hit m n a i = Some (j, x, p)" by auto
    then have x: "align_up (s_base (slots m i)) a = Some x" "x - s_base (slots m i) + n \<le> s_len (slots m i)"
      by (auto simp: fit_hit_iff [OF a s])
    note A = align_up_Some [OF a x(1)]
    then have "?P x" using x(2) by auto
    then show False using none by blast
  qed
qed

lemma find_fit_spec:
  assumes R: "em_rep m al fl bl" and a: "is_power_of_two a" "is_usize a" and n: "0 < n"
  shows "find_fit m n a fit = None \<Longrightarrow> i \<in> set al \<Longrightarrow> is_free (s_state (slots m i)) \<Longrightarrow> fit_hit m n a i = None"
    and "find_fit m n a fit = Some (i, x, p) \<Longrightarrow> i \<in> set al \<and> is_free (s_state (slots m i))
      \<and> align_up (s_base (slots m i)) a = Some x \<and> p = x - s_base (slots m i) \<and> p + n \<le> s_len (slots m i)"
    and "find_fit m n a Best = Some (i, x, p) \<Longrightarrow> j \<in> set al \<Longrightarrow> is_free (s_state (slots m j)) \<Longrightarrow>
      fit_hit m n a j \<noteq> None \<Longrightarrow> s_len (slots m i) \<le> s_len (slots m j)"
proof -
  let ?bs = "[bin_index (n div PAGE_SIZE)..<NBINS]"
  have "0 + (\<Sum>b\<leftarrow>?bs. length (bl b)) \<le> cap m"
    using em_rep_bins_length [OF R, of ?bs] em_rep_pool_bound(1) [OF R] by simp
  note S = fit_bins_spec [OF em_repD(6) [OF R] this, of n a, folded find_fit_def]
  have mem: "bin_of (slots m j) \<in> set ?bs \<and> j \<in> set (bl (bin_of (slots m j)))"
    if j: "j \<in> set al" "is_free (s_state (slots m j))" "fit_hit m n a j \<noteq> None" for j
  proof -
    note G = em_rep_geo(3) [OF R j(1)]
    have "n \<le> s_len (slots m j)" using j(3) fit_hit_iff [OF a G] by auto
    then have "bin_index (n div PAGE_SIZE) \<le> bin_of (slots m j)"
      unfolding bin_of_def bin_index_def by (intro bit_length_mono div_le_mono)
    moreover have "is_usize (s_len (slots m j))" using G by linarith
    ultimately show ?thesis using bin_of_bound j em_rep_bin [OF R] by auto
  qed
  show "fit_hit m n a i = None" if "find_fit m n a fit = None" "i \<in> set al" "is_free (s_state (slots m i))"
  proof (rule ccontr)
    assume "fit_hit m n a i \<noteq> None"
    then show False using S [of fit] mem [OF that(2,3)] that(1) by auto
  qed
  show "i \<in> set al \<and> is_free (s_state (slots m i)) \<and> align_up (s_base (slots m i)) a = Some x
      \<and> p = x - s_base (slots m i) \<and> p + n \<le> s_len (slots m i)" if "find_fit m n a fit = Some (i, x, p)"
  proof -
    have i: "i \<in> set al" "is_free (s_state (slots m i))" "fit_hit m n a i = Some (i, x, p)"
      using S [of fit] that em_rep_bin [OF R] by auto
    then show ?thesis using fit_hit_iff [OF a em_rep_geo(3) [OF R i(1)]] by simp
  qed
  show "s_len (slots m i) \<le> s_len (slots m j)" if "find_fit m n a Best = Some (i, x, p)"
    "j \<in> set al" "is_free (s_state (slots m j))" "fit_hit m n a j \<noteq> None"
    using S [of Best] mem [OF that(2-4)] that by auto
qed

section \<open>Carving\<close>

lemma page_dvd_prefix:
  assumes a: "is_power_of_two a" "is_usize a" and b: "PAGE_SIZE dvd b" and x: "align_up b a = Some x"
  shows "PAGE_SIZE dvd x - b"
proof -
  note A = align_up_Some [OF a x]
  obtain k where k: "a = 2 ^ k" using a(1) by (auto simp: is_power_of_two_iff)
  have P: "PAGE_SIZE = 2 ^ 14" by (simp add: PAGE_SIZE_def)
  show ?thesis
  proof (cases "k \<le> 14")
    case True
    then have "a dvd PAGE_SIZE" unfolding k P by (rule le_imp_power_dvd)
    then have "x \<le> b" using A(5) [of b] b dvd_trans by blast
    then show ?thesis by simp
  next
    case False
    then have "PAGE_SIZE dvd a" unfolding k P by (intro le_imp_power_dvd) simp
    then have "PAGE_SIZE dvd x" using A(2) dvd_trans by blast
    then show ?thesis using b by (rule dvd_diff_nat)
  qed
qed

lemma split_in_live:
  assumes R: "em_rep m (xs @ i # ys) (r # fl) bl" and f: "is_free (s_state (slots m i))"
    and p: "0 < p" "p < s_len (slots m i)" "PAGE_SIZE dvd p"
  obtains m' bl' where "split_in i p m = Some (r, m')" and "em_rep m' (xs @ i # r # ys) fl bl'"
    and "live m' = live m"
    and "s_base (slots m' i) = s_base (slots m i)" and "s_len (slots m' i) = p" and "is_free (s_state (slots m' i))"
    and "s_base (slots m' r) = s_base (slots m i) + p" and "s_len (slots m' r) = s_len (slots m i) - p"
    and "is_free (s_state (slots m' r))"
    and "cap m' = cap m" "region_base m' = region_base m" "region_len m' = region_len m"
    and "free_bytes m' = free_bytes m" "committed_bytes m' = committed_bytes m"
proof -
  obtain m' bl' where m': "split_in i p m = Some (r, m')" "em_rep m' (xs @ i # r # ys) fl bl'"
    "slot_data (slots m' i) = slot_data (left_half (slots m i) p)"
    "slot_data (slots m' r) = slot_data (right_half (slots m i) p (slots m r))"
    "\<And>j. j \<noteq> i \<Longrightarrow> j \<noteq> r \<Longrightarrow> slot_data (slots m' j) = slot_data (slots m j)"
    "cap m' = cap m" "region_base m' = region_base m" "region_len m' = region_len m"
    "free_bytes m' = free_bytes m" "committed_bytes m' = committed_bytes m"
    using split_in_rep [OF R p] by blast
  note Fi = slot_data_fields [OF m'(3)] and Fr = slot_data_fields [OF m'(4)]
  have o: "s_base (slots m' i) = s_base (slots m i)" "s_len (slots m' i) = p" "is_free (s_state (slots m' i))"
    "s_base (slots m' r) = s_base (slots m i) + p" "s_len (slots m' r) = s_len (slots m i) - p"
    "is_free (s_state (slots m' r))"
    using f by (simp_all add: Fi Fr left_half_def right_half_def)
  have r: "r \<notin> set (xs @ i # ys)" using em_repD(2) [OF R] by auto
  have "live m' = live m"
  proof (rule live_cong [OF R m'(2)])
    show "j \<in> set (xs @ i # ys) \<and> s_state (slots m j) = EActive \<longleftrightarrow>
      j \<in> set (xs @ i # r # ys) \<and> s_state (slots m' j) = EActive" for j
      using o(3,6) f r slot_data_fields(10) [OF m'(5), of j] by (cases "j = i"; cases "j = r") auto
    show "slot_data (slots m' j) = slot_data (slots m j)"
      if "j \<in> set (xs @ i # ys)" "s_state (slots m j) = EActive" for j
      using that f r by (intro m'(5)) auto
  qed
  from that [OF m'(1,2) this o m'(6-)] show ?thesis .
qed

lemma bin_remove_put_state:
  assumes "bin_prev (slots m i) \<noteq> i" and "bin_next (slots m i) \<noteq> i"
  shows "put i ((slots (bin_remove i m) i)\<lparr>s_state := st\<rparr>) (bin_remove i m)
    = bin_remove i (put i ((slots m i)\<lparr>s_state := st\<rparr>) m)"
proof -
  have b: "bin_of ((slots m i)\<lparr>s_state := st\<rparr>) = bin_of (slots m i)" by (rule bin_of_len) simp
  have c: "s\<lparr>bin_prev := x, bin_next := y, s_state := st\<rparr> = s\<lparr>s_state := st, bin_prev := x, bin_next := y\<rparr>"
    for s :: Slot and x y by (cases s) simp
  show ?thesis
    using assms
    by (cases "bin_prev (slots m i) = NIL"; cases "bin_next (slots m i) = NIL")
      (simp_all add: bin_remove_def put_def Let_def b c fun_upd_twist)
qed

text \<open>Handing out a free extent whole.\<close>

lemma activate_rep:
  assumes R: "em_rep m al fl bl" and i: "i \<in> set al" "is_free (s_state (slots m i))"
  defines "n \<equiv> bin_remove i m"
  defines "m' \<equiv> (put i ((slots n i)\<lparr>s_state := EActive\<rparr>) n)
      \<lparr>free_bytes := wrapping_sub 64 (free_bytes n) (s_len (slots n i))\<rparr>"
  obtains bl' where "em_rep m' al fl bl'"
    and "live m' = insert (snapshot i ((slots m i)\<lparr>s_state := EActive\<rparr>)) (live m)"
    and "snapshot i ((slots m i)\<lparr>s_state := EActive\<rparr>) \<notin> live m"
    and "view m' i = Some (snapshot i ((slots m i)\<lparr>s_state := EActive\<rparr>))"
    and "free_bytes m' + s_len (slots m i) = free_bytes m"
    and "committed_bytes m' = committed_bytes m" "cap m' = cap m"
    and "region_base m' = region_base m" "region_len m' = region_len m"
proof -
  let ?s = "(slots m i)\<lparr>s_state := EActive\<rparr>"
  obtain xs ys where al: "al = xs @ i # ys" using i(1) by (meson split_list)
  note G = em_rep_geo [OF R i(1)] and D = em_repD [OF R]
  have ib: "i \<in> set (bl (bin_of (slots m i)))" using em_rep_bin [OF R] i by blast
  have ne: "bin_prev (slots m i) \<noteq> i" "bin_next (slots m i) \<noteq> i"
  proof -
    let ?b = "bl (bin_of (slots m i))"
    obtain us vs where uv: "?b = us @ i # vs" using ib by (meson split_list)
    have "chain (bnx m) (bpv m) NIL ?b NIL" "distinct ?b" "NIL \<notin> set ?b"
      using D(6) by (simp_all add: bins_ok_def bin_ok_def)
    then show "bin_prev (slots m i) \<noteq> i" "bin_next (slots m i) \<noteq> i"
      using chain_links neighbours_distinct unfolding uv by metis+
  qed
  have fl: "free_len (slots m i) = s_len (slots m i)" using i(2) by (simp add: free_len_def)
  have fb: "s_len (slots m i) \<le> free_bytes m" "is_usize (free_bytes m)"
  proof -
    show "s_len (slots m i) \<le> free_bytes m"
      using geo_okD(3) [OF D(8)] fl by (simp add: al)
    have "free_bytes m \<le> (\<Sum>j\<leftarrow>al. s_len (slots m j))"
      unfolding geo_okD(3) [OF D(8)] by (intro sum_list_mono) (simp add: free_len_def)
    then show "is_usize (free_bytes m)" using tiles_end [OF geo_okD(1) [OF D(8)]] geo_okD(2) [OF D(8)] by linarith
  qed
  have m': "m' = (bin_remove i (put i ?s m))\<lparr>free_bytes := free_bytes m - s_len (slots m i),
      committed_bytes := committed_bytes m\<rparr>"
  proof -
    have "wrapping_sub 64 (free_bytes m) (s_len (slots m i)) = free_bytes m - s_len (slots m i)"
      using fb by (intro wrapping_sub_exact)
    moreover have "committed_bytes (bin_remove i (put i ?s m)) = committed_bytes m" by simp
    ultimately show ?thesis
      unfolding m'_def n_def bin_remove_put_state [OF ne] by simp
  qed
  have ok: "slot_ok ?s" "\<not> is_free (s_state ?s)" using G(7) by (simp_all add: slot_ok_def is_free_def)
  obtain bl' where R': "em_rep m' al fl bl'"
    unfolding al
  proof (rule em_rep_restate [OF R [unfolded al], where s = ?s])
    show "m' = (if is_free (s_state ?s) = is_free (s_state (slots m i)) then put i ?s m
        else if is_free (s_state ?s) then bin_insert i (put i ?s m) else bin_remove i (put i ?s m))
        \<lparr>free_bytes := free_bytes m - s_len (slots m i), committed_bytes := committed_bytes m\<rparr>"
      using i(2) ok(2) by (simp add: m')
  qed (use ok fl fb(1) in \<open>simp_all add: free_len_def\<close>)
  have d: "slot_data (slots m' j) = slot_data (if j = i then ?s else slots m j)" for j by (simp add: m')
  have nl: "snapshot i t \<notin> live m" for t
  proof
    assume "snapshot i t \<in> live m"
    then obtain j where j: "snapshot i t = snapshot j (slots m j)" "s_state (slots m j) = EActive"
      by (auto simp: live_eq [OF R])
    have "i = j" using arg_cong [OF j(1), of ex_id] by simp
    then show False using j(2) i(2) by (simp add: is_free_def)
  qed
  have "live m' = insert (snapshot i ?s) (live m)"
    using live_update [OF R R' i(1) d] nl by simp
  moreover have "view m' i = Some (snapshot i ?s)"
    using i(1) snapshot_data [OF d, of i i] by (simp add: em_rep_view [OF R'])
  ultimately show ?thesis using that [OF R'] nl fb(1) by (simp add: m')
qed

text \<open>The allocation a successful carve has made.\<close>

definition carved :: "ExtentMap \<Rightarrow> usize \<Rightarrow> usize \<Rightarrow> nat \<Rightarrow> ExtentMap \<Rightarrow> Extent \<Rightarrow> bool" where
  "carved m n a i m' e \<longleftrightarrow> view m' i = Some e \<and> ex_state e = EActive \<and> ex_len e = n \<and> a dvd ex_base e
     \<and> live m' = insert e (live m) \<and> e \<notin> live m \<and> free_bytes m' + n = free_bytes m
     \<and> committed_bytes m' = committed_bytes m \<and> cap m' = cap m
     \<and> region_base m' = region_base m \<and> region_len m' = region_len m"

definition carve_splits :: "ExtentMap \<Rightarrow> usize \<Rightarrow> nat \<Rightarrow> usize \<Rightarrow> nat" where
  "carve_splits m n i p = (if p > 0 then 1 else 0) + (if s_len (slots m i) - p > n then 1 else 0)"

lemma carve_in_None:
  assumes R: "em_rep m al fl bl" and a: "is_power_of_two a" "is_usize a" and n: "0 < n" "PAGE_SIZE dvd n"
    and none: "find_fit m n a fit = None
      \<or> (\<exists>i x p. find_fit m n a fit = Some (i, x, p) \<and> unused_slots m < carve_splits m n i p)"
  shows "carve_in n a fit m = (None, m)"
proof -
  have "wrapping_sub 64 (s_len (slots m i)) p = s_len (slots m i) - p" if "find_fit m n a fit = Some (i, x, p)" for i x p
  proof -
    note F = find_fit_spec(2) [OF R a n(1) that]
    have "p \<le> s_len (slots m i)" "is_usize (s_len (slots m i))" using F em_rep_geo(3) [OF R, of i] by auto
    then show ?thesis by (rule wrapping_sub_exact)
  qed
  then show ?thesis using none a n by (auto simp: carve_in_def carve_splits_def Let_def)
qed

lemma em_rep_split: "em_rep m al fl bl \<Longrightarrow> i \<in> set al \<Longrightarrow> \<exists>xs ys. em_rep m (xs @ i # ys) fl bl"
  by (metis split_list)

text \<open>The two splits: a free extent of exactly the requested bytes is cut out.\<close>

lemma carve_cut_front:
  assumes R: "em_rep m al fl bl" and i: "i \<in> set al" "is_free (s_state (slots m i))"
    and p: "p < s_len (slots m i)" "PAGE_SIZE dvd p" and u: "0 < p \<Longrightarrow> fl \<noteq> []"
  obtains k m' al' bl' where "(if p > 0 then split_in i p m else Some (i, m)) = Some (k, m')"
    and "em_rep m' al' (if p > 0 then tl fl else fl) bl'" and "k \<in> set al'" and "is_free (s_state (slots m' k))"
    and "s_base (slots m' k) = s_base (slots m i) + p" and "s_len (slots m' k) = s_len (slots m i) - p"
    and "live m' = live m" "cap m' = cap m" "region_base m' = region_base m" "region_len m' = region_len m"
    and "free_bytes m' = free_bytes m" "committed_bytes m' = committed_bytes m"
proof (cases "p > 0")
  case False
  then show ?thesis using that [of i m al bl] R i by simp
next
  case True
  obtain xs ys where R2: "em_rep m (xs @ i # ys) fl bl" using em_rep_split [OF R i(1)] by blast
  obtain r fl' where fl: "fl = r # fl'" using u [OF True] by (cases fl) auto
  show ?thesis
    by (rule split_in_live [OF R2 [unfolded fl] i(2) True p]) (use that True in \<open>simp add: fl\<close>)
qed

lemma carve_cut_back:
  assumes R: "em_rep m al fl bl" and i: "i \<in> set al" "is_free (s_state (slots m i))"
    and n: "0 < n" "n \<le> s_len (slots m i)" "PAGE_SIZE dvd n" and u: "n < s_len (slots m i) \<Longrightarrow> fl \<noteq> []"
  obtains m' al' fl' bl' where "(if s_len (slots m i) > n then map_option snd (split_in i n m) else Some m) = Some m'"
    and "em_rep m' al' fl' bl'" and "i \<in> set al'" and "is_free (s_state (slots m' i))"
    and "s_base (slots m' i) = s_base (slots m i)" and "s_len (slots m' i) = n"
    and "live m' = live m" "cap m' = cap m" "region_base m' = region_base m" "region_len m' = region_len m"
    and "free_bytes m' = free_bytes m" "committed_bytes m' = committed_bytes m"
proof (cases "n < s_len (slots m i)")
  case False
  then have "s_len (slots m i) = n" "(if s_len (slots m i) > n then map_option snd (split_in i n m) else Some m) = Some m"
    using n(2) by simp_all
  from that [OF this(2) R i _ this(1)] show ?thesis by simp
next
  case True
  obtain xs ys where R2: "em_rep m (xs @ i # ys) fl bl" using em_rep_split [OF R i(1)] by blast
  obtain r fl' where fl: "fl = r # fl'" using u [OF True] by (cases fl) auto
  show ?thesis
  proof (rule split_in_live [OF R2 [unfolded fl] i(2) n(1) True n(3)])
    fix m' bl'
    assume S: "split_in i n m = Some (r, m')" "em_rep m' (xs @ i # r # ys) fl' bl'" "live m' = live m"
      "s_base (slots m' i) = s_base (slots m i)" "s_len (slots m' i) = n" "is_free (s_state (slots m' i))"
      "cap m' = cap m" "region_base m' = region_base m" "region_len m' = region_len m"
      "free_bytes m' = free_bytes m" "committed_bytes m' = committed_bytes m"
    have "(if n < s_len (slots m i) then map_option snd (split_in i n m) else Some m) = Some m'"
      using True S(1) by simp
    from that [OF this S(2) _ S(6,4,5,3,7-)] show ?thesis by simp
  qed
qed

lemma carve_in_Some:
  assumes R: "em_rep m al fl bl" and a: "is_power_of_two a" "is_usize a" and n: "0 < n" "PAGE_SIZE dvd n"
    and f: "find_fit m n a fit = Some (i, x, p)" and u: "carve_splits m n i p \<le> unused_slots m"
  obtains k m' al' fl' bl' e where "carve_in n a fit m = (Some k, m')" and "em_rep m' al' fl' bl'"
    and "carved m n a k m' e" and "ex_base e = x"
proof -
  note F = find_fit_spec(2) [OF R a n(1) f]
  have i: "i \<in> set al" "is_free (s_state (slots m i))" using F by blast+
  note G = em_rep_geo [OF R i(1)]
  note A = align_up_Some [OF a F [THEN conjunct2, THEN conjunct2, THEN conjunct1]]
  have p: "p = x - s_base (slots m i)" "p + n \<le> s_len (slots m i)" "PAGE_SIZE dvd p"
    using F page_dvd_prefix [OF a G(6)] by auto
  have w: "wrapping_sub 64 (s_len (slots m i)) p = s_len (slots m i) - p"
    using p(2) G(3) by (intro wrapping_sub_exact) auto
  have un: "unused_slots m = length fl" using em_repD(5) [OF R] by (simp add: pool_ok_def)
  obtain k m1 al1 bl1 where m1: "(if p > 0 then split_in i p m else Some (i, m)) = Some (k, m1)"
    "em_rep m1 al1 (if p > 0 then tl fl else fl) bl1" "k \<in> set al1" "is_free (s_state (slots m1 k))"
    "s_base (slots m1 k) = x" "s_len (slots m1 k) = s_len (slots m i) - p"
    "live m1 = live m" "cap m1 = cap m" "region_base m1 = region_base m" "region_len m1 = region_len m"
    "free_bytes m1 = free_bytes m" "committed_bytes m1 = committed_bytes m"
  proof (rule carve_cut_front [OF R i, of p])
    show "p < s_len (slots m i)" using p(2) n(1) by linarith
    show "fl \<noteq> []" if "0 < p" using that u un by (auto simp: carve_splits_def)
  qed (use p(1,3) A(1) that in auto)
  obtain m2 al2 fl2 bl2 where m2:
    "(if s_len (slots m1 k) > n then map_option snd (split_in k n m1) else Some m1) = Some m2"
    "em_rep m2 al2 fl2 bl2" "k \<in> set al2" "is_free (s_state (slots m2 k))"
    "s_base (slots m2 k) = x" "s_len (slots m2 k) = n"
    "live m2 = live m" "cap m2 = cap m" "region_base m2 = region_base m" "region_len m2 = region_len m"
    "free_bytes m2 = free_bytes m" "committed_bytes m2 = committed_bytes m"
  proof (rule carve_cut_back [OF m1(2,3,4) n(1) _ n(2)])
    show "n \<le> s_len (slots m1 k)" using p(2) m1(6) by linarith
    show "(if 0 < p then tl fl else fl) \<noteq> []" if "n < s_len (slots m1 k)"
      using that u un m1(6) by (auto simp: carve_splits_def tl_Nil split: if_splits)
  qed (use m1 that in auto)
  let ?e = "snapshot k ((slots m2 k)\<lparr>s_state := EActive\<rparr>)" and ?n = "bin_remove k m2"
  let ?m' = "(put k ((slots ?n k)\<lparr>s_state := EActive\<rparr>) ?n)
      \<lparr>free_bytes := wrapping_sub 64 (free_bytes ?n) (s_len (slots ?n k))\<rparr>"
  have c: "(n = 0 \<or> \<not> PAGE_SIZE dvd n \<or> \<not> is_power_of_two a) = False"
    "(unused_slots m < (if p > 0 then 1 else 0) + (if s_len (slots m i) - p > n then 1 else 0)) = False"
    using a n u by (simp_all add: carve_splits_def)
  have eq: "carve_in n a fit m = (Some k, ?m')"
    unfolding carve_in_def f option.case prod.case Let_def w m1(1) m2(1) c
    by (simp only: if_False if_True simp_thms put_fields)
  obtain bl' where R': "em_rep ?m' al2 fl2 bl'" and "live ?m' = insert ?e (live m2)" "?e \<notin> live m2"
    "view ?m' k = Some ?e" "free_bytes ?m' + s_len (slots m2 k) = free_bytes m2"
    "committed_bytes ?m' = committed_bytes m2" "cap ?m' = cap m2"
    "region_base ?m' = region_base m2" "region_len ?m' = region_len m2"
    by (rule activate_rep [OF m2(2,3,4)])
  then have "carved m n a k ?m' ?e" using m2(5-) A(2) by (simp add: carved_def)
  moreover have "ex_base ?e = x" using m2(5) by simp
  ultimately show ?thesis by (rule that [OF eq R'])
qed

end
