(* ===== verification/Extent_Inv.thy ===== *)
theory Extent_Inv
  imports Extent_Carve
begin

text \<open>
  The remaining operations of the extent map, its construction, and what the representation gives
  for every reachable map: the code's own invariant walk succeeds, the byte accounting terminates
  and adds up, and live extents never overlap.
\<close>

definition em_wf :: "ExtentMap \<Rightarrow> bool" where
  "em_wf m \<longleftrightarrow> (\<exists>al fl bl. em_rep m al fl bl)"

lemma em_wfI: "em_rep m al fl bl \<Longrightarrow> em_wf m"
  by (auto simp: em_wf_def)

section \<open>Construction\<close>

lemma link_free_slots_fields [simp]:
  "cap (link_free_slots is m) = cap m" "region_base (link_free_slots is m) = region_base m"
  "region_len (link_free_slots is m) = region_len m" "addr_head (link_free_slots is m) = addr_head m"
  "addr_tail (link_free_slots is m) = addr_tail m" "bins (link_free_slots is m) = bins m"
  "free_bytes (link_free_slots is m) = free_bytes m" "committed_bytes (link_free_slots is m) = committed_bytes m"
  by (induction "is" m rule: link_free_slots.induct) (simp_all add: Let_def)

lemma link_free_slots_pool:
  assumes "pool_ok m fl" and "distinct is" and "set is \<inter> set fl = {}" and "NIL \<notin> set is"
    and "length is + length fl < 2 ^ 32" and "\<And>i. i \<in> set is \<Longrightarrow> \<not> s_occupied (slots m i)"
  shows "pool_ok (link_free_slots is m) (rev is @ fl)"
  using assms
proof (induction "is" arbitrary: m fl)
  case (Cons i "is")
  let ?m = "put i ((slots m i)\<lparr>free_next := free_slot_head m\<rparr>) m"
  define n where "n = ?m\<lparr>free_slot_head := i, unused_slots := wrapping_add 32 (unused_slots ?m) 1\<rparr>"
  have "slist (\<lambda>j. free_next (slots n j)) fl NIL \<longleftrightarrow> slist (\<lambda>j. free_next (slots m j)) fl NIL"
    using Cons.prems by (intro slist_cong) (auto simp: n_def)
  moreover have "free_next (slots n i) = hd_or fl NIL" "unused_slots n = Suc (length fl)" "free_slot_head n = i"
    using Cons.prems by (simp_all add: pool_ok_def n_def)
  moreover have o: "s_occupied (slots n j) = s_occupied (slots m j)" for j by (simp add: n_def)
  ultimately have "pool_ok n (i # fl)" using Cons.prems by (auto simp: pool_ok_def)
  then have "pool_ok (link_free_slots is n) (rev is @ i # fl)"
    using Cons.prems o by (intro Cons.IH) auto
  then show ?case by (simp add: Let_def n_def)
qed simp

definition empty_map :: "addr \<Rightarrow> usize \<Rightarrow> nat \<Rightarrow> ExtentMap" where
  "empty_map rbase rlen slot_cap =
     \<lparr>slots = (\<lambda>_. zero_slot), cap = slot_cap, region_base = rbase, region_len = rlen,
      em_arena = ArenaId_DEFAULT, free_slot_head = NIL, unused_slots = 0, addr_head = NIL,
      addr_tail = NIL, bins = (\<lambda>_. NIL), free_bytes = 0, committed_bytes = 0, em_notes = []\<rparr>"

definition first_slot :: "addr \<Rightarrow> usize \<Rightarrow> Slot \<Rightarrow> Slot" where
  "first_slot rbase rlen s = s\<lparr>s_base := rbase, s_len := rlen, s_committed_len := 0, s_huge_base := 0,
     s_huge_len := 0, s_arena := ArenaId_DEFAULT, s_split_gen := 0, s_flags := 0, s_state := EReserved,
     s_occupied := True, s_canary := False, addr_prev := NIL, addr_next := NIL\<rparr>"

lemma first_extent_rep:
  assumes p: "pool_ok m (i # fl)" and set: "set (i # fl) = {..<cap m}" "cap m \<le> NIL"
    and m: "addr_head m = NIL" "addr_tail m = NIL" "bins m = (\<lambda>_. NIL)" "committed_bytes m = 0"
    and r: "0 < region_len m" "PAGE_SIZE dvd region_base m" "PAGE_SIZE dvd region_len m"
      "is_usize (region_base m + region_len m)"
  defines "s \<equiv> first_slot (region_base m) (region_len m) (slots (popped i m) i)"
  defines "m' \<equiv> (bin_insert i ((put i s (popped i m))\<lparr>addr_head := i, addr_tail := i\<rparr>))\<lparr>free_bytes := region_len m\<rparr>"
  shows "em_rep m' [i] fl ((\<lambda>_. [])(bin_of s := [i]))"
proof -
  let ?n = "(put i s (popped i m))\<lparr>addr_head := i, addr_tail := i\<rparr>"
  have i: "i \<noteq> NIL" "i \<notin> set fl" using p by (auto simp: pool_ok_def)
  have "pool_ok ?n fl \<longleftrightarrow> pool_ok (popped i m) fl" using i by (intro pool_ok_cong) auto
  moreover have "addr_ok ?n [i]" using i by (simp add: addr_ok_def s_def first_slot_def)
  moreover have "bins_ok ?n (\<lambda>_. [])" using m by (simp add: bins_ok_def bin_ok_def)
  ultimately have L: "links ?n [i] fl (\<lambda>_. [])" using pop_slot_Cons(2) [OF p] by (simp add: links_def)
  have "links (bin_insert i ?n) [i] fl ((\<lambda>_. [])(bin_of s := i # (\<lambda>_. []) (bin_of s)))"
    by (rule links_bin_insert [OF L i(1)]) simp_all
  then have "links m' [i] fl ((\<lambda>_. [])(bin_of s := [i]))" by (simp add: m'_def)
  moreover have d: "slot_data (slots m' i) = slot_data s" by (simp add: m'_def)
  moreover have "binned m' [i] ((\<lambda>_. [])(bin_of s := [i]))"
    using slot_data_cong(3) [OF d] slot_data_fields(10) [OF d]
    by (auto simp: binned_def s_def first_slot_def is_free_def)
  moreover have "geo_ok m' [i]"
  proof -
    have "slot_ok s" "free_len s = region_len m" "s_committed_len s = 0" "s_base s = region_base m" "s_len s = region_len m"
      using r(1) by (simp_all add: s_def first_slot_def slot_ok_def free_len_def is_free_def is_backed_def)
    then show ?thesis using r m(4) slot_data_fields [OF d] slot_data_cong [OF d]
      by (simp add: geo_ok_def) (simp add: m'_def)
  qed
  moreover have "cap m' = cap m" by (simp add: m'_def)
  ultimately show ?thesis using set i by (simp add: em_rep_def)
qed

text \<open>The construction succeeds for a page-aligned region as soon as the pool can be allocated.\<close>

lemma ExtentMap_new_ok:
  assumes "ExtentMap_new alloc mt rb rl sc = (Some m, mt')"
  shows "em_wf m" and "live m = {}" and "region_base m = rb" and "region_len m = rl"
    and "cap m = sc" and "free_bytes m = rl" and "committed_bytes m = 0"
proof -
  have g: "rl \<noteq> 0" "sc \<noteq> 0" "PAGE_SIZE dvd rb" "PAGE_SIZE dvd rl" "sc \<le> NIL" "is_usize (rb + rl)"
    using assms by (auto simp: ExtentMap_new_def checked_add_def USIZE_MAX_def split: if_splits)
  let ?e = "empty_map rb rl sc"
  define m1 where "m1 = link_free_slots (rev [0..<sc]) ?e"
  have "sc < 2 ^ 32" using g(5) by (simp add: NIL_def U32_MAX_def)
  moreover have "NIL \<notin> set (rev [0..<sc])" using g(5) by simp
  ultimately have "pool_ok m1 (rev (rev [0..<sc]) @ [])"
    unfolding m1_def by (intro link_free_slots_pool) (auto simp: pool_ok_def empty_map_def zero_slot_def)
  then have p: "pool_ok m1 (0 # [1..<sc])" using g(2) by (simp add: upt_conv_Cons)
  define s where "s = first_slot rb rl (slots (popped 0 m1) 0)"
  have m: "m = (bin_insert 0 ((put 0 s (popped 0 m1))\<lparr>addr_head := 0, addr_tail := 0\<rparr>))\<lparr>free_bytes := rl\<rparr>"
    using assms
    unfolding ExtentMap_new_def Let_def empty_map_def [of rb rl sc, symmetric] m1_def [symmetric]
      pop_slot_Cons(1) [OF p] option.case prod.case first_slot_def [symmetric] s_def [symmetric]
    by (simp split: if_splits option.splits prod.splits)
  have f: "cap m1 = sc" "region_base m1 = rb" "region_len m1 = rl" "addr_head m1 = NIL" "addr_tail m1 = NIL"
    "bins m1 = (\<lambda>_. NIL)" "committed_bytes m1 = 0"
    by (simp_all add: m1_def empty_map_def)
  have R: "em_rep m [0] [1..<sc] ((\<lambda>_. [])(bin_of s := [0]))"
    using first_extent_rep [OF p] g f unfolding m s_def by (simp add: f) (metis atLeast0LessThan atLeastLessThan_upt neq0_conv set_simps(2) upt_conv_Cons)
  show "em_wf m" by (rule em_wfI [OF R])
  have "s_state (slots m 0) = EReserved" by (simp add: m s_def first_slot_def)
  then show "live m = {}" by (auto simp: live_eq [OF R])
  show "region_base m = rb" "region_len m = rl" "cap m = sc" "free_bytes m = rl" "committed_bytes m = 0"
    by (simp_all add: m f)
qed

section \<open>The walks of the code\<close>

lemma is_in_bin_loop_chain:
  assumes "chain (bnx m) pv p zs NIL" and "NIL \<notin> set zs" and "steps + length zs \<le> cap m"
  shows "is_in_bin_loop m i (hd_or zs NIL) steps \<longleftrightarrow> i \<in> set zs"
  using assms
proof (induction zs arbitrary: p steps)
  case Nil
  then show ?case by (simp add: is_in_bin_loop.simps)
next
  case (Cons z zs)
  then show ?case using Cons.IH [of z "steps + 1"] by (subst is_in_bin_loop.simps) (auto simp: Let_def)
qed

lemma em_rep_bin_le_cap:
  assumes "em_rep m al fl bl"
  shows "length (bl b) \<le> cap m"
  using em_rep_bins_length [OF assms, of "[b]"] em_rep_pool_bound(1) [OF assms] by simp

lemma is_in_bin_iff:
  assumes R: "em_rep m al fl bl" and i: "i \<in> set al"
  shows "is_in_bin m i \<longleftrightarrow> is_free (s_state (slots m i))"
proof -
  let ?b = "bin_of (slots m i)"
  have "chain (bnx m) (bpv m) NIL (bl ?b) NIL" "NIL \<notin> set (bl ?b)" "bins m ?b = hd_or (bl ?b) NIL"
    using em_repD(6) [OF R] by (simp_all add: bins_ok_def bin_ok_def)
  then have "is_in_bin m i \<longleftrightarrow> i \<in> set (bl ?b)"
    using is_in_bin_loop_chain [of m "bpv m" NIL "bl ?b" 0 i] em_rep_bin_le_cap [OF R] by (simp add: is_in_bin_def)
  then show ?thesis using em_rep_bin [OF R, of i ?b] i by simp
qed

lemma addr_walk_chain:
  assumes "chain (anx m) (apv m) (w_prev w) zs NIL" and "NIL \<notin> set zs" and "w_listed w + length zs \<le> cap m"
    and "tiles (slots m) (w_cursor w) zs e" and "is_usize e"
    and "\<And>i. i \<in> set zs \<Longrightarrow> slot_ok (slots m i) \<and> is_in_bin m i = is_free (s_state (slots m i))"
    and "is_usize (w_free w + (\<Sum>i\<leftarrow>zs. free_len (slots m i)))"
    and "is_usize (w_committed w + (\<Sum>i\<leftarrow>zs. s_committed_len (slots m i)))"
  shows "addr_walk m (hd_or zs NIL) w = Some \<lparr>w_cursor = e, w_prev = last_or (w_prev w) zs,
    w_listed = w_listed w + length zs, w_free = w_free w + (\<Sum>i\<leftarrow>zs. free_len (slots m i)),
    w_committed = w_committed w + (\<Sum>i\<leftarrow>zs. s_committed_len (slots m i))\<rparr>"
  using assms
proof (induction zs arbitrary: w)
  case Nil
  then show ?case by (simp add: addr_walk.simps)
next
  case (Cons z zs)
  let ?s = "slots m z"
  let ?w = "\<lparr>w_cursor = w_cursor w + s_len ?s, w_prev = z, w_listed = w_listed w + 1,
      w_free = w_free w + free_len ?s, w_committed = w_committed w + s_committed_len ?s\<rparr>"
  have ok: "walk_slot_ok m z w"
    using Cons.prems(1,4) Cons.prems(6) [of z] by (auto simp: walk_slot_ok_def Let_def slot_ok_def)
  have "w_cursor w + s_len ?s \<le> e" using Cons.prems(4) tiles_end [of "slots m" "w_cursor w + s_len ?s" zs e] by simp
  then have c: "checked_add (w_cursor w) (s_len ?s) = Some (w_cursor w + s_len ?s)"
    using Cons.prems(5) by (simp add: checked_add_def USIZE_MAX_def)
  have wf: "(if is_free (s_state ?s) then wrapping_add 64 (w_free w) (s_len ?s) else w_free w) = w_free w + free_len ?s"
    "wrapping_add 64 (w_committed w) (s_committed_len ?s) = w_committed w + s_committed_len ?s"
    using Cons.prems(7,8) by (auto simp: free_len_def)
  have "addr_walk m z w = addr_walk m (hd_or zs NIL) ?w"
    using Cons.prems(1,2,3) ok c by (subst addr_walk.simps) (simp add: Let_def wf)
  also have "\<dots> = Some \<lparr>w_cursor = e, w_prev = last_or (w_prev ?w) zs,
    w_listed = w_listed ?w + length zs, w_free = w_free ?w + (\<Sum>i\<leftarrow>zs. free_len (slots m i)),
    w_committed = w_committed ?w + (\<Sum>i\<leftarrow>zs. s_committed_len (slots m i))\<rparr>"
    using Cons.prems by (intro Cons.IH) (auto simp: add.assoc)
  finally show ?case by (simp add: add.assoc)
qed

lemma bin_walk_chain:
  assumes "chain (bnx m) pv p zs NIL" and "NIL \<notin> set zs" and "seen + length zs \<le> cap m"
    and "\<And>j. j \<in> set zs \<Longrightarrow> s_occupied (slots m j) \<and> is_free (s_state (slots m j)) \<and> bin_of (slots m j) = b"
  shows "bin_walk m b (hd_or zs NIL) seen"
  using assms
proof (induction zs arbitrary: p seen)
  case Nil
  then show ?case by (simp add: bin_walk.simps)
next
  case (Cons z zs)
  then show ?case using Cons.IH [of z "seen + 1"] by (subst bin_walk.simps) (auto simp: Let_def)
qed

lemma slot_ok_committed: "slot_ok s \<Longrightarrow> s_committed_len s \<le> s_len s"
  by (auto simp: slot_ok_def)

lemma em_rep_sums:
  assumes R: "em_rep m al fl bl"
  shows "(\<Sum>i\<leftarrow>al. s_len (slots m i)) = region_len m"
    and "is_usize (\<Sum>i\<leftarrow>al. free_len (slots m i))" and "is_usize (\<Sum>i\<leftarrow>al. s_committed_len (slots m i))"
proof -
  note G = geo_okD [OF em_repD(8) [OF R]]
  show len: "(\<Sum>i\<leftarrow>al. s_len (slots m i)) = region_len m" using tiles_end [OF G(1)] by simp
  have "(\<Sum>i\<leftarrow>al. free_len (slots m i)) \<le> region_len m" "(\<Sum>i\<leftarrow>al. s_committed_len (slots m i)) \<le> region_len m"
    unfolding len [symmetric] using G(6) by (auto intro!: sum_list_mono slot_ok_committed simp: free_len_def)
  then show "is_usize (\<Sum>i\<leftarrow>al. free_len (slots m i))" "is_usize (\<Sum>i\<leftarrow>al. s_committed_len (slots m i))"
    using G(2) by linarith+
qed

lemma em_rep_check:
  assumes R: "em_rep m al fl bl"
  shows "em_check_invariants m"
proof -
  note D = em_repD [OF R] and G = geo_okD [OF em_repD(8) [OF R]]
  let ?w = "\<lparr>w_cursor = region_base m, w_prev = NIL, w_listed = 0, w_free = 0, w_committed = 0\<rparr>"
  have a: "chain (anx m) (apv m) NIL al NIL" "NIL \<notin> set al" "addr_head m = hd_or al NIL" "addr_tail m = last_or NIL al"
    using D(4) by (simp_all add: addr_ok_def)
  have "addr_walk m (addr_head m) ?w = Some \<lparr>w_cursor = region_base m + region_len m, w_prev = last_or NIL al,
      w_listed = length al, w_free = free_bytes m, w_committed = committed_bytes m\<rparr>"
  proof -
    have "addr_walk m (hd_or al NIL) ?w = Some \<lparr>w_cursor = region_base m + region_len m, w_prev = last_or (w_prev ?w) al,
        w_listed = w_listed ?w + length al, w_free = w_free ?w + (\<Sum>i\<leftarrow>al. free_len (slots m i)),
        w_committed = w_committed ?w + (\<Sum>i\<leftarrow>al. s_committed_len (slots m i))\<rparr>"
    proof (rule addr_walk_chain)
      show "slot_ok (slots m i) \<and> is_in_bin m i = is_free (s_state (slots m i))" if "i \<in> set al" for i
        using G(6) [OF that] is_in_bin_iff [OF R that] by simp
      show "w_listed ?w + length al \<le> cap m" using em_rep_pool_bound(1) [OF R] by simp
      show "is_usize (w_free ?w + (\<Sum>i\<leftarrow>al. free_len (slots m i)))"
        "is_usize (w_committed ?w + (\<Sum>i\<leftarrow>al. s_committed_len (slots m i)))"
        using em_rep_sums(2,3) [OF R] by simp_all
    qed (use a G(1,2) in simp_all)
    then show ?thesis by (simp add: a(3) G(3,4))
  qed
  moreover have "bin_walk m b (bins m b) 0" for b
  proof -
    have "chain (bnx m) (bpv m) NIL (bl b) NIL" "NIL \<notin> set (bl b)" "bins m b = hd_or (bl b) NIL"
      using D(6) by (simp_all add: bins_ok_def bin_ok_def)
    then show ?thesis
      using em_rep_bin_le_cap [OF R, of b] em_rep_bin [OF R, of _ b] G(6)
      by (auto intro!: bin_walk_chain [of m "bpv m" NIL] simp: slot_ok_def)
  qed
  moreover have "length al + unused_slots m = cap m" using em_rep_pool_bound(1) [OF R] D(5) by (simp add: pool_ok_def)
  ultimately show ?thesis using G(2) a(4) by (simp add: em_check_invariants_def list_all_iff)
qed

text \<open>The accounting loop ends and its five sums add up to the region.\<close>

definition state_len :: "ExtentState \<Rightarrow> Slot \<Rightarrow> nat" where
  "state_len st s = (if s_state s = st then s_len s else 0)"

lemma state_bytes_loop_chain:
  assumes "chain (anx m) pv p zs NIL" and "NIL \<notin> set zs"
    and "\<And>st. is_usize ((case st of EReserved \<Rightarrow> sb_reserved sb | EActive \<Rightarrow> sb_active sb | EDirty \<Rightarrow> sb_dirty sb
           | EMuzzy \<Rightarrow> sb_muzzy sb | EReleased \<Rightarrow> sb_released sb) + (\<Sum>i\<leftarrow>zs. state_len st (slots m i)))"
  shows "state_bytes_loop m (hd_or zs NIL) sb = Some
    \<lparr>sb_reserved = sb_reserved sb + (\<Sum>i\<leftarrow>zs. state_len EReserved (slots m i)),
     sb_active = sb_active sb + (\<Sum>i\<leftarrow>zs. state_len EActive (slots m i)),
     sb_dirty = sb_dirty sb + (\<Sum>i\<leftarrow>zs. state_len EDirty (slots m i)),
     sb_muzzy = sb_muzzy sb + (\<Sum>i\<leftarrow>zs. state_len EMuzzy (slots m i)),
     sb_released = sb_released sb + (\<Sum>i\<leftarrow>zs. state_len EReleased (slots m i))\<rparr>"
  using assms
proof (induction zs arbitrary: p sb)
  case Nil
  then show ?case by (simp add: state_bytes_loop.simps)
next
  case (Cons z zs)
  let ?s = "slots m z"
  have st: "state_bytes_step ?s sb =
      \<lparr>sb_reserved = sb_reserved sb + state_len EReserved ?s, sb_active = sb_active sb + state_len EActive ?s,
       sb_dirty = sb_dirty sb + state_len EDirty ?s, sb_muzzy = sb_muzzy sb + state_len EMuzzy ?s,
       sb_released = sb_released sb + state_len EReleased ?s\<rparr>"
    using Cons.prems(3) [of "s_state ?s"]
    by (cases "s_state ?s") (simp_all add: state_bytes_step_def state_len_def)
  have "state_bytes_loop m z sb = state_bytes_loop m (hd_or zs NIL) (state_bytes_step ?s sb)"
    using Cons.prems(1,2) by (subst state_bytes_loop.simps) (auto simp: Let_def)
  moreover have "is_usize ((case st of EReserved \<Rightarrow> sb_reserved (state_bytes_step ?s sb)
      | EActive \<Rightarrow> sb_active (state_bytes_step ?s sb) | EDirty \<Rightarrow> sb_dirty (state_bytes_step ?s sb)
      | EMuzzy \<Rightarrow> sb_muzzy (state_bytes_step ?s sb) | EReleased \<Rightarrow> sb_released (state_bytes_step ?s sb))
      + (\<Sum>i\<leftarrow>zs. state_len st (slots m i)))" for st'' and st
    using Cons.prems(3) [of st] by (cases st) (simp_all add: st add.assoc)
  ultimately show ?case
    using Cons.IH [of z "state_bytes_step ?s sb"] Cons.prems(1,2) by (simp add: st add.assoc)
qed

lemma em_rep_state_bytes:
  assumes R: "em_rep m al fl bl"
  obtains sb where "state_bytes m = Some sb" and "StateBytes_total sb = region_len m"
    and "StateBytes_free sb = free_bytes m"
    and "sb_active sb = region_len m - free_bytes m"
    and "(\<forall>e \<in> live m. ex_committed_len e = ex_len e) \<Longrightarrow> StateBytes_committed sb = committed_bytes m"
proof -
  note G = geo_okD [OF em_repD(8) [OF R]]
  let ?S = "\<lambda>st. \<Sum>i\<leftarrow>al. state_len st (slots m i)"
  let ?sb = "\<lparr>sb_reserved = ?S EReserved, sb_active = ?S EActive, sb_dirty = ?S EDirty, sb_muzzy = ?S EMuzzy,
     sb_released = ?S EReleased\<rparr>"
  have sum5: "(\<Sum>i\<leftarrow>xs. s_len (slots m i)) = (\<Sum>i\<leftarrow>xs. state_len EReserved (slots m i))
      + (\<Sum>i\<leftarrow>xs. state_len EActive (slots m i)) + (\<Sum>i\<leftarrow>xs. state_len EDirty (slots m i))
      + (\<Sum>i\<leftarrow>xs. state_len EMuzzy (slots m i)) + (\<Sum>i\<leftarrow>xs. state_len EReleased (slots m i))" for xs
  proof (induction xs)
    case (Cons x xs)
    then show ?case by (cases "s_state (slots m x)") (simp_all add: state_len_def)
  qed simp
  have sumf: "(\<Sum>i\<leftarrow>xs. s_len (slots m i)) = (\<Sum>i\<leftarrow>xs. free_len (slots m i)) + (\<Sum>i\<leftarrow>xs. state_len EActive (slots m i))" for xs
    by (induction xs) (auto simp: free_len_def state_len_def is_free_def)
  have tot: "?S EReserved + ?S EActive + ?S EDirty + ?S EMuzzy + ?S EReleased = region_len m"
    "free_bytes m + ?S EActive = region_len m"
    using sum5 [of al] sumf [of al] em_rep_sums(1) [OF R] G(3) by simp_all
  have u: "is_usize (region_len m)" using G(2) by linarith
  have le: "?S st \<le> region_len m" for st using tot(1) by (cases st) simp_all
  have ub: "is_usize ((case st of EReserved \<Rightarrow> sb_reserved StateBytes_zero | EActive \<Rightarrow> sb_active StateBytes_zero
      | EDirty \<Rightarrow> sb_dirty StateBytes_zero | EMuzzy \<Rightarrow> sb_muzzy StateBytes_zero
      | EReleased \<Rightarrow> sb_released StateBytes_zero) + ?S st)" for st
    using le [of st] u by (cases st) (simp_all add: StateBytes_zero_def)
  have a: "chain (anx m) (apv m) NIL al NIL" "NIL \<notin> set al" "addr_head m = hd_or al NIL"
    using em_repD(4) [OF R] by (simp_all add: addr_ok_def)
  have "state_bytes m = Some ?sb"
    using state_bytes_loop_chain [OF a(1,2) ub] by (simp add: state_bytes_def a(3) StateBytes_zero_def)
  moreover have "StateBytes_total ?sb = region_len m" "StateBytes_free ?sb = free_bytes m"
    using tot u by (simp_all add: StateBytes_total_def StateBytes_free_def)
  moreover have "StateBytes_committed ?sb = committed_bytes m" if l: "\<forall>e \<in> live m. ex_committed_len e = ex_len e"
  proof -
    have "s_committed_len (slots m i) = state_len EActive (slots m i) + state_len EDirty (slots m i) + state_len EMuzzy (slots m i)"
      if "i \<in> set al" for i
      using l that G(6) [OF that] by (cases "s_state (slots m i)")
        (auto simp: live_eq [OF R] state_len_def slot_ok_def is_free_def is_backed_def)
    then have "(\<Sum>i\<leftarrow>al. s_committed_len (slots m i)) = ?S EActive + ?S EDirty + ?S EMuzzy"
      by (simp add: sum_list_addf cong: map_cong)
    then show ?thesis using tot u G(4) by (simp add: StateBytes_committed_def)
  qed
  moreover have "sb_active ?sb = region_len m - free_bytes m" using tot by simp
  ultimately show ?thesis by (intro that [of ?sb])
qed

section \<open>Operations on one extent\<close>

lemma update_rep:
  assumes R: "em_rep m al fl bl" and i: "i \<in> set al"
    and s: "addr_next s = addr_next (slots m i)" "addr_prev s = addr_prev (slots m i)"
      "bin_next s = bin_next (slots m i)" "bin_prev s = bin_prev (slots m i)"
      "s_base s = s_base (slots m i)" "s_len s = s_len (slots m i)" "slot_ok s"
      "is_free (s_state s) = is_free (s_state (slots m i))"
    and c: "c + s_committed_len (slots m i) = committed_bytes m + s_committed_len s"
  shows "\<exists>bl'. em_rep ((put i s m)\<lparr>committed_bytes := c\<rparr>) al fl bl'"
    and "live ((put i s m)\<lparr>committed_bytes := c\<rparr>) =
      live m - {snapshot i (slots m i)} \<union> (if s_state s = EActive then {snapshot i s} else {})"
proof -
  obtain xs ys where al: "al = xs @ i # ys" using i by (meson split_list)
  have m': "(put i s m)\<lparr>committed_bytes := c\<rparr> = (if is_free (s_state s) = is_free (s_state (slots m i)) then put i s m
        else if is_free (s_state s) then bin_insert i (put i s m) else bin_remove i (put i s m))
        \<lparr>free_bytes := free_bytes m, committed_bytes := c\<rparr>"
    using s(8) by (simp add: put_def)
  have f: "free_bytes m + free_len (slots m i) = free_bytes m + free_len s"
    using s(6,8) by (simp add: free_len_def)
  obtain bl' where R': "em_rep ((put i s m)\<lparr>committed_bytes := c\<rparr>) al fl bl'"
    using em_rep_restate [OF R [unfolded al] s(1-7) m' f c] unfolding al by blast
  then show "\<exists>bl'. em_rep ((put i s m)\<lparr>committed_bytes := c\<rparr>) al fl bl'" by blast
  show "live ((put i s m)\<lparr>committed_bytes := c\<rparr>) =
      live m - {snapshot i (slots m i)} \<union> (if s_state s = EActive then {snapshot i s} else {})"
    by (rule live_update [OF R R' i]) simp
qed

lemma em_rep_committed_le:
  assumes R: "em_rep m al fl bl" and i: "i \<in> set al"
  shows "s_committed_len (slots m i) \<le> committed_bytes m" and "is_usize (committed_bytes m)"
    and "is_usize (committed_bytes m + (s_len (slots m i) - s_committed_len (slots m i)))"
proof -
  note G = geo_okD [OF em_repD(8) [OF R]]
  obtain xs ys where al: "al = xs @ i # ys" using i by (meson split_list)
  show "s_committed_len (slots m i) \<le> committed_bytes m" by (simp add: G(4) al)
  have le: "(\<Sum>j\<leftarrow>zs. s_committed_len (slots m j)) \<le> (\<Sum>j\<leftarrow>zs. s_len (slots m j))" if "set zs \<subseteq> set al" for zs
    using that G(6) slot_ok_committed by (intro sum_list_mono) blast
  have sub: "set xs \<subseteq> set al" "set ys \<subseteq> set al" by (auto simp: al)
  have "is_usize (region_len m)" using G(2) by linarith
  then show "is_usize (committed_bytes m)" using le [of al] em_rep_sums(1) [OF R] by (simp add: G(4))
  have "committed_bytes m + (s_len (slots m i) - s_committed_len (slots m i)) \<le> region_len m"
    using le [of xs, OF sub(1)] le [of ys, OF sub(2)] em_rep_sums(1) [OF R] slot_ok_committed [OF G(6) [OF i]] by (simp add: G(4) al)
  then show "is_usize (committed_bytes m + (s_len (slots m i) - s_committed_len (slots m i)))"
    using \<open>is_usize (region_len m)\<close> by linarith
qed

lemma mark_committed_rep:
  assumes R: "em_rep m al fl bl" and i: "i \<in> set al"
  obtains m' bl' s where "mark_committed i m = (s_len (slots m i) - s_committed_len (slots m i), m')"
    and "em_rep m' al fl bl'" and "slots m' = (slots m)(i := s)"
    and "s_committed_len s = s_len (slots m i)" and "s_len s = s_len (slots m i)" and "s_base s = s_base (slots m i)"
    and "s_generation s = s_generation (slots m i)" and "s_state (slots m i) = EActive \<Longrightarrow> s_state s = EActive"
    and "is_free (s_state s) = is_free (s_state (slots m i))"
    and "live m' = live m - {snapshot i (slots m i)} \<union> (if s_state s = EActive then {snapshot i s} else {})"
    and "free_bytes m' = free_bytes m" and "region_base m' = region_base m" and "region_len m' = region_len m"
    and "cap m' = cap m"
proof -
  note G = em_rep_geo [OF R i] and C = em_rep_committed_le [OF R i]
  have c: "s_committed_len (slots m i) \<le> s_len (slots m i)" by (rule slot_ok_committed [OF G(7)])
  define n where "n = s_len (slots m i) - s_committed_len (slots m i)"
  define s where "s = (let s = (slots m i)\<lparr>s_committed_len := s_len (slots m i)\<rparr>;
      s = (if n > 0 then s\<lparr>s_canary := False\<rparr> else s)
    in if is_free (s_state s) \<and> \<not> is_backed (s_state s) then s\<lparr>s_state := EDirty\<rparr> else s)"
  have w: "wrapping_sub 64 (s_len (slots m i)) (s_committed_len (slots m i)) = n"
    unfolding n_def using c G(3) by (intro wrapping_sub_exact) auto
  have w2: "wrapping_add 64 (committed_bytes m) n = committed_bytes m + n"
    unfolding n_def by (rule wrapping_add_exact [OF C(3)])
  have eq: "mark_committed i m = (n, (put i s m)\<lparr>committed_bytes := committed_bytes m + n\<rparr>)"
    unfolding mark_committed_def s_def Let_def w by (simp only: put_fields w2)
  have ss: "s_state s = (if is_free (s_state (slots m i)) \<and> \<not> is_backed (s_state (slots m i)) then EDirty
      else s_state (slots m i))"
    unfolding s_def Let_def by (cases "n > 0"; simp)
  have s0: "addr_next s = addr_next (slots m i)" "addr_prev s = addr_prev (slots m i)"
      "bin_next s = bin_next (slots m i)" "bin_prev s = bin_prev (slots m i)"
      "s_base s = s_base (slots m i)" "s_len s = s_len (slots m i)" "s_occupied s = s_occupied (slots m i)"
      "s_committed_len s = s_len (slots m i)" "s_generation s = s_generation (slots m i)"
    by (simp_all add: s_def Let_def)
  have st: "is_free (s_state s) = is_free (s_state (slots m i))" "is_free (s_state s) \<Longrightarrow> is_backed (s_state s)"
      "s_state (slots m i) = EActive \<Longrightarrow> s_state s = EActive"
    unfolding ss by (auto simp: is_free_def is_backed_def)
  have ok: "slot_ok s" using G(7) st(2) s0(6-8) by (simp add: slot_ok_def)
  note s = s0(1-6) ok st(1) s0(8,9) st(3)
  have cc: "committed_bytes m + n + s_committed_len (slots m i) = committed_bytes m + s_committed_len s"
    using c s(9) by (simp add: n_def)
  note U = update_rep [OF R i s(1-8) cc]
  from U(1) obtain bl' where "em_rep ((put i s m)\<lparr>committed_bytes := committed_bytes m + n\<rparr>) al fl bl'" by blast
  from that [OF eq [unfolded n_def] this [unfolded n_def] _ s(9,6,5,10,11,8) U(2) [unfolded n_def]]
  show ?thesis by simp
qed

lemma mark_decommitted_rep:
  assumes R: "em_rep m al fl bl" and i: "i \<in> set al"
    and st: "is_free st = is_free (s_state (slots m i))" "is_free st \<Longrightarrow> \<not> is_backed st"
  defines "s \<equiv> (slots m i)\<lparr>s_committed_len := 0, s_canary := False, s_state := st\<rparr>"
  obtains m' bl' where "mark_decommitted i st m = (s_committed_len (slots m i), m')" and "em_rep m' al fl bl'"
    and "slots m' = (slots m)(i := s)"
    and "live m' = live m - {snapshot i (slots m i)} \<union> (if st = EActive then {snapshot i s} else {})"
    and "free_bytes m' = free_bytes m" and "region_base m' = region_base m" and "region_len m' = region_len m"
    and "cap m' = cap m"
proof -
  note G = em_rep_geo [OF R i] and C = em_rep_committed_le [OF R i]
  have eq: "mark_decommitted i st m = (s_committed_len (slots m i),
      (put i s m)\<lparr>committed_bytes := committed_bytes m - s_committed_len (slots m i)\<rparr>)"
    unfolding mark_decommitted_def Let_def s_def using C(1,2) by simp
  have s: "addr_next s = addr_next (slots m i)" "addr_prev s = addr_prev (slots m i)"
      "bin_next s = bin_next (slots m i)" "bin_prev s = bin_prev (slots m i)"
      "s_base s = s_base (slots m i)" "s_len s = s_len (slots m i)" "slot_ok s"
      "is_free (s_state s) = is_free (s_state (slots m i))"
    using G(4,7) st by (auto simp: s_def slot_ok_def)
  have cc: "committed_bytes m - s_committed_len (slots m i) + s_committed_len (slots m i)
      = committed_bytes m + s_committed_len s"
    using C(1) by (simp add: s_def)
  note U = update_rep [OF R i s cc]
  from U(1) obtain bl' where "em_rep ((put i s m)\<lparr>committed_bytes := committed_bytes m - s_committed_len (slots m i)\<rparr>) al fl bl'"
    by blast
  moreover have "s_state s = st" by (simp add: s_def)
  ultimately show ?thesis using that [OF eq] U(2) by simp
qed

lemma em_set_state_rep:
  assumes R: "em_rep m al fl bl" and i: "i \<in> set al"
    and st: "is_free st" "is_free (s_state (slots m i))"
      "is_backed st = (s_committed_len (slots m i) = s_len (slots m i))"
  obtains m' bl' where "em_set_state i st m = (True, m')" and "em_rep m' al fl bl'" and "live m' = live m"
    and "free_bytes m' = free_bytes m" and "region_base m' = region_base m" and "region_len m' = region_len m"
    and "cap m' = cap m" and "committed_bytes m' = committed_bytes m"
proof -
  note G = em_rep_geo [OF R i]
  define s where "s = (if st \<noteq> EDirty then (slots m i)\<lparr>s_canary := False\<rparr> else slots m i)\<lparr>s_state := st\<rparr>"
  have eq: "em_set_state i st m = (True, (put i s m)\<lparr>committed_bytes := committed_bytes m\<rparr>)"
    using i by (simp add: em_set_state_def em_rep_view [OF R] Let_def s_def put_def)
  have s: "addr_next s = addr_next (slots m i)" "addr_prev s = addr_prev (slots m i)"
      "bin_next s = bin_next (slots m i)" "bin_prev s = bin_prev (slots m i)"
      "s_base s = s_base (slots m i)" "s_len s = s_len (slots m i)" "slot_ok s"
      "is_free (s_state s) = is_free (s_state (slots m i))"
    using G(7) st by (auto simp: s_def slot_ok_def)
  have cc: "committed_bytes m + s_committed_len (slots m i) = committed_bytes m + s_committed_len s"
    by (simp add: s_def)
  note U = update_rep [OF R i s cc]
  have "snapshot i (slots m i) \<notin> live m" using st(2) by (auto simp: live_def)
  then have "live ((put i s m)\<lparr>committed_bytes := committed_bytes m\<rparr>) = live m" using U(2) st(1) by (simp add: s_def)
  with U(1) that [OF eq] show ?thesis by auto
qed

lemma set_flags_rep:
  fixes v :: nat
  assumes R: "em_rep m al fl bl" and i: "i \<in> set al"
  defines "s \<equiv> (slots m i)\<lparr>s_flags := v\<rparr>"
  shows "\<exists>bl'. em_rep (set_flags i v m) al fl bl'"
    and "live (set_flags i v m) =
      live m - {snapshot i (slots m i)} \<union> (if s_state (slots m i) = EActive then {snapshot i s} else {})"
proof -
  have eq: "set_flags i v m = (put i s m)\<lparr>committed_bytes := committed_bytes m\<rparr>"
    by (simp add: set_flags_def s_def put_def)
  have s: "addr_next s = addr_next (slots m i)" "addr_prev s = addr_prev (slots m i)"
      "bin_next s = bin_next (slots m i)" "bin_prev s = bin_prev (slots m i)"
      "s_base s = s_base (slots m i)" "s_len s = s_len (slots m i)" "slot_ok s"
      "is_free (s_state s) = is_free (s_state (slots m i))"
      "committed_bytes m + s_committed_len (slots m i) = committed_bytes m + s_committed_len s"
      "s_state s = s_state (slots m i)"
    using em_rep_geo(7) [OF R i] by (simp_all add: s_def slot_ok_def)
  note U = update_rep [OF R i s(1-9), folded eq]
  show "\<exists>bl'. em_rep (set_flags i v m) al fl bl'" by (rule U(1))
  show "live (set_flags i v m) =
      live m - {snapshot i (slots m i)} \<union> (if s_state (slots m i) = EActive then {snapshot i s} else {})"
    using U(2) unfolding s(10) .
qed

definition absorbed :: "Slot \<Rightarrow> Slot \<Rightarrow> Slot" where
  "absorbed r s = s\<lparr>s_len := wrapping_add 64 (s_len s) (s_len r),
     s_committed_len := wrapping_add 64 (s_committed_len s) (s_committed_len r),
     s_split_gen := wrapping_add 32 (s_split_gen s) 1, s_canary := False\<rparr>"

lemma absorbed_keeps_links: "keeps_links (absorbed r)"
  unfolding keeps_links_def
proof (intro conjI allI impI)
  fix s t :: Slot assume "slot_data s = slot_data t"
  from slot_data_fields [OF this] show "slot_data (absorbed r s) = slot_data (absorbed r t)"
    by (intro slot_data_eqI) (simp_all add: absorbed_def)
qed (simp_all add: absorbed_def)

lemma absorb_next_in_rep:
  assumes R: "em_rep m (xs @ i # r # ys) fl bl"
    and st: "s_state (slots m i) = EActive" "is_free (s_state (slots m r))"
    and c: "s_committed_len (slots m i) = s_len (slots m i)" "s_committed_len (slots m r) = s_len (slots m r)"
  obtains bl' s where "em_rep (absorb_next_in i r m) (xs @ i # ys) (r # fl) bl'"
    and "live (absorb_next_in i r m) = live m - {snapshot i (slots m i)} \<union> {snapshot i s}"
    and "s_base s = s_base (slots m i)" and "s_len s = s_len (slots m i) + s_len (slots m r)"
    and "s_committed_len s = s_len s" and "s_state s = EActive" and "s_generation s = s_generation (slots m i)"
    and "free_bytes (absorb_next_in i r m) + s_len (slots m r) = free_bytes m"
    and "cap (absorb_next_in i r m) = cap m" and "region_base (absorb_next_in i r m) = region_base m"
    and "region_len (absorb_next_in i r m) = region_len m"
proof -
  let ?al = "xs @ i # r # ys" and ?f = "absorbed (slots m r)" and ?m' = "absorb_next_in i r m"
  have la: "i \<in> set ?al" "r \<in> set ?al" by simp_all
  have ir: "i \<noteq> r" using em_repD(4) [OF R] by (auto simp: addr_ok_def)
  note G = geo_okD [OF em_repD(8) [OF R]]
  have w: "is_usize (s_len (slots m i) + s_len (slots m r))"
    using em_rep_geo(3) [OF R la(2)] em_rep_successor [OF R] by linarith
  define s where "s = ?f (slots m i)"
  have s: "s_base s = s_base (slots m i)" "s_len s = s_len (slots m i) + s_len (slots m r)"
    "s_committed_len s = s_len s" "s_state s = EActive" "s_generation s = s_generation (slots m i)"
    "s_committed_len s = s_committed_len (slots m i) + s_committed_len (slots m r)" "slot_ok s" "free_len s = 0"
    using w c st em_rep_geo(7) [OF R la(1)]
    by (simp_all add: s_def absorbed_def slot_ok_def free_len_def)
  have f0: "free_len (slots m i) = 0" "free_len (slots m r) = s_len (slots m r)"
    using st by (simp_all add: free_len_def)
  have fb: "s_len (slots m r) \<le> free_bytes m" "is_usize (free_bytes m)"
    using G(3) em_rep_sums(2) [OF R] f0(2) by simp_all
  define j where "j = join_link i r False ?f m"
  have eq: "?m' = j\<lparr>free_bytes := free_bytes m - s_len (slots m r),
      em_notes := em_notes m @ [OnMerge (s_base (slots m i)) (s_len (slots m i)) (s_base (slots m r)) (s_len (slots m r)) True]\<rparr>"
    unfolding absorb_next_in_def j_def join_link_def Let_def absorbed_def push_slot_def put_def
    using fb by simp
  note J = join_link_data [OF absorbed_keeps_links ir, where fr = False and m = m]
  obtain bl' where R': "em_rep ?m' (xs @ i # ys) (r # fl) bl'"
  proof (rule join_link_rep [OF R absorbed_keeps_links [of "slots m r"] st(2)])
    show "links ?m' = links (join_link i r (is_free (s_state (slots m i))) ?f m)"
      using st(1) by (simp add: fun_eq_iff eq j_def)
  qed (use s f0 fb(1) st(1) in \<open>simp_all add: s_def eq j_def\<close>)
  have d: "slot_data (slots ?m' k) = slot_data (if k = i then s else slots m k)" if "k \<noteq> r" for k
    using that J(1,2) by (simp add: eq j_def s_def)
  have "live ?m' = live m - {snapshot i (slots m i)} \<union> {snapshot i s}"
  proof -
    have dd: "r \<notin> set (xs @ i # ys)" using em_repD(4) [OF R] by (auto simp: addr_ok_def)
    have "live ?m' = live m - {snapshot i (slots m i)} \<union> (if s_state s = EActive then {snapshot i s} else {})"
    proof (rule live_replace [OF R R'])
      show "k \<in> set (xs @ i # ys) \<and> s_state (slots ?m' k) = EActive \<longleftrightarrow> k \<in> set ?al \<and> s_state (slots m k) = EActive"
        if "k \<noteq> i" for k
        using that dd st(2) slot_data_fields(10) [OF d, of k] by (cases "k = r") auto
      show "slot_data (slots ?m' k) = slot_data (slots m k)" if "k \<noteq> i" "k \<in> set (xs @ i # ys)" for k
        using that dd d [of k] by auto
    qed (use ir d in simp_all)
    then show ?thesis using s(4) by simp
  qed
  from that [OF R' this s(1-5)] fb(1) show ?thesis by (simp add: eq j_def)
qed

end
