(* ===== verification/Backend.thy ===== *)
theory Backend
  imports Overflow Ids
begin

text \<open>
  \<open>crates/topo-core/src/backend.rs\<close> and \<open>error.rs\<close>: the interface of the backing providers
  and the provider state machine. A provider is a record of the trait's methods over a state
  \<open>'p\<close> of its own; its methods answer with an error (\<open>Inl\<close>) or a result (\<open>Inr\<close>), and nothing
  is assumed about what they answer.
\<close>

datatype BackendError = BeOutOfMemory | BeInvalidRequest | BeUnsupported

definition BackendError_message :: "BackendError \<Rightarrow> string" where
  "BackendError_message e =
     (case e of
        BeOutOfMemory \<Rightarrow> ''backend out of memory''
      | BeInvalidRequest \<Rightarrow> ''invalid backing request''
      | BeUnsupported \<Rightarrow> ''operation unsupported by backend'')"

type_synonym Rights = "8 word"

definition Rights_READ :: Rights where "Rights_READ = 1"
definition Rights_WRITE :: Rights where "Rights_WRITE = 2"
definition Rights_READ_WRITE :: Rights where "Rights_READ_WRITE = 3"

definition Rights_contains :: "Rights \<Rightarrow> Rights \<Rightarrow> bool" where
  "Rights_contains r other \<longleftrightarrow> and r other = other"

datatype CachePolicy = Cached | Uncached | WriteCombining

record Region =
  rg_base :: addr
  rg_len :: usize

definition addr_range :: "Region \<Rightarrow> addr \<times> addr" where
  "addr_range r = (rg_base r, wrapping_add 64 (rg_base r) (rg_len r))"

record VWindow =
  vw_region :: Region
  vw_rights :: Rights
  vw_cache :: CachePolicy

record FrameCap =
  fc_size :: usize
  fc_label :: Label

record MappedRange =
  mr_region :: Region
  mr_rights :: Rights

section \<open>The provider states\<close>

datatype ProviderState =
  AuthorizedUntyped | ReservedUntyped | FrameCapMinted | MappedToServer | MappedToClient
| AllocatorCommitted | AllocatorDirty | AllocatorMuzzyOrScrubbed | Unmapped | Revoked
| RecyclableUntyped

fun ProviderState_next :: "ProviderState \<Rightarrow> ProviderState option" where
  "ProviderState_next AuthorizedUntyped = Some ReservedUntyped"
| "ProviderState_next ReservedUntyped = Some FrameCapMinted"
| "ProviderState_next FrameCapMinted = Some MappedToServer"
| "ProviderState_next MappedToServer = Some MappedToClient"
| "ProviderState_next MappedToClient = Some AllocatorCommitted"
| "ProviderState_next AllocatorCommitted = Some AllocatorDirty"
| "ProviderState_next AllocatorDirty = Some AllocatorMuzzyOrScrubbed"
| "ProviderState_next AllocatorMuzzyOrScrubbed = Some Unmapped"
| "ProviderState_next Unmapped = Some Revoked"
| "ProviderState_next Revoked = Some RecyclableUntyped"
| "ProviderState_next RecyclableUntyped = None"

definition ProviderState_can_transition :: "ProviderState \<Rightarrow> ProviderState \<Rightarrow> bool" where
  "ProviderState_can_transition s to =
     (case ProviderState_next s of Some n \<Rightarrow> n = to | None \<Rightarrow> False)"

record ProviderStateMachine =
  psm_state :: ProviderState

definition ProviderStateMachine_new :: ProviderStateMachine where
  "ProviderStateMachine_new = \<lparr>psm_state = AuthorizedUntyped\<rparr>"

definition ProviderStateMachine_starting_at :: "ProviderState \<Rightarrow> ProviderStateMachine" where
  "ProviderStateMachine_starting_at s = \<lparr>psm_state = s\<rparr>"

definition advance :: "ProviderState \<Rightarrow> ProviderStateMachine \<Rightarrow>
    (BackendError + unit) \<times> ProviderStateMachine" where
  "advance to m =
     (if \<not> ProviderState_can_transition (psm_state m) to then (Inl BeInvalidRequest, m)
      else (Inr (), m\<lparr>psm_state := to\<rparr>))"

text \<open>
  A frame becomes recyclable only by being unmapped and then revoked: the states before
  \<^const>\<open>RecyclableUntyped\<close> on any successful run are forced.
\<close>

fun advances :: "ProviderState list \<Rightarrow> ProviderStateMachine \<Rightarrow>
    (BackendError + unit) \<times> ProviderStateMachine" where
  "advances [] m = (Inr (), m)"
| "advances (s # ss) m = (case advance s m of (Inr _, m) \<Rightarrow> advances ss m | r \<Rightarrow> r)"

lemma advance_ok: "advance to m = (Inr (), m') \<longleftrightarrow>
    ProviderState_next (psm_state m) = Some to \<and> m' = m\<lparr>psm_state := to\<rparr>"
  by (auto simp: advance_def ProviderState_can_transition_def split: option.splits)

lemma next_Some_inv:
  "ProviderState_next s = Some RecyclableUntyped \<Longrightarrow> s = Revoked"
  "ProviderState_next s = Some Revoked \<Longrightarrow> s = Unmapped"
  by (cases s; simp)+

lemma advances_append:
  "advances (xs @ ys) m = (case advances xs m of (Inr _, m) \<Rightarrow> advances ys m | r \<Rightarrow> r)"
  by (induction xs arbitrary: m) (auto split: prod.splits sum.splits)

lemma advances_last:
  "advances (xs @ [s]) m = (Inr (), m') \<Longrightarrow>
     \<exists>m''. advances xs m = (Inr (), m'') \<and> advance s m'' = (Inr (), m')"
  by (auto simp: advances_append split: prod.splits sum.splits)

lemma advances_state:
  "advances xs m = (Inr (), m') \<Longrightarrow> xs \<noteq> [] \<Longrightarrow> psm_state m' = last xs"
proof (induction xs arbitrary: m' rule: rev_induct)
  case (snoc x xs)
  then obtain m'' where "advance x m'' = (Inr (), m')" using advances_last by blast
  then show ?case by (simp add: advance_ok)
qed simp

section \<open>The provider interface\<close>

type_synonym 'p answer = "(BackendError + unit) \<times> 'p"

record 'p TopoBackingProvider =
  bp_reserve :: "'p \<Rightarrow> ArenaId \<Rightarrow> usize \<Rightarrow> usize \<Rightarrow> (BackendError + Region) \<times> 'p"
  bp_commit :: "'p \<Rightarrow> Region \<Rightarrow> usize \<Rightarrow> usize \<Rightarrow> 'p answer"
  bp_decommit :: "'p \<Rightarrow> Region \<Rightarrow> usize \<Rightarrow> usize \<Rightarrow> 'p answer"
  bp_purge_lazy :: "'p \<Rightarrow> Region \<Rightarrow> usize \<Rightarrow> usize \<Rightarrow> 'p answer"
  bp_purge_forced :: "'p \<Rightarrow> Region \<Rightarrow> usize \<Rightarrow> usize \<Rightarrow> 'p answer"
  bp_protect :: "'p \<Rightarrow> Region \<Rightarrow> usize \<Rightarrow> usize \<Rightarrow> bool \<Rightarrow> 'p answer"
  bp_release :: "'p \<Rightarrow> ArenaId \<Rightarrow> Region \<Rightarrow> 'p answer"
  bp_revoke_descendants :: "'p \<Rightarrow> ArenaId \<Rightarrow> Region \<Rightarrow> 'p answer"
  bp_bind_node :: "'p \<Rightarrow> Region \<Rightarrow> nat \<Rightarrow> 'p answer"
  bp_committed_memory_is_zeroed :: "'p \<Rightarrow> bool"
  bp_split :: "'p \<Rightarrow> ArenaId \<Rightarrow> Region \<Rightarrow> usize \<Rightarrow> usize \<Rightarrow> bool \<Rightarrow> 'p answer"
  bp_merge :: "'p \<Rightarrow> ArenaId \<Rightarrow> Region \<Rightarrow> Region \<Rightarrow> bool \<Rightarrow> 'p answer"

text \<open>A provider that implements the three required methods and keeps the defaults.\<close>

definition provider_defaults ::
  "('p \<Rightarrow> ArenaId \<Rightarrow> usize \<Rightarrow> usize \<Rightarrow> (BackendError + Region) \<times> 'p) \<Rightarrow>
   ('p \<Rightarrow> Region \<Rightarrow> usize \<Rightarrow> usize \<Rightarrow> 'p answer) \<Rightarrow>
   ('p \<Rightarrow> ArenaId \<Rightarrow> Region \<Rightarrow> 'p answer) \<Rightarrow> 'p TopoBackingProvider" where
  "provider_defaults reserve commit release =
     \<lparr>bp_reserve = reserve, bp_commit = commit,
      bp_decommit = (\<lambda>p region offset len. (Inr (), p)),
      bp_purge_lazy = (\<lambda>p region offset len. (Inr (), p)),
      bp_purge_forced = (\<lambda>p region offset len. (Inr (), p)),
      bp_protect = (\<lambda>p region offset len accessible. (Inr (), p)),
      bp_release = release,
      bp_revoke_descendants = (\<lambda>p arena region. (Inr (), p)),
      bp_bind_node = (\<lambda>p region os_node. (Inr (), p)),
      bp_committed_memory_is_zeroed = (\<lambda>p. False),
      bp_split = (\<lambda>p arena region size_a size_b committed. (Inr (), p)),
      bp_merge = (\<lambda>p arena left right committed. (Inr (), p))\<rparr>"

definition reserve_window ::
  "'p TopoBackingProvider \<Rightarrow> 'p \<Rightarrow> ArenaId \<Rightarrow> usize \<Rightarrow> usize \<Rightarrow> Rights \<Rightarrow> (BackendError + VWindow) \<times> 'p" where
  "reserve_window P p arena sz align rights =
     (case bp_reserve P p arena sz align of
        (Inl e, p) \<Rightarrow> (Inl e, p)
      | (Inr region, p) \<Rightarrow>
          (Inr \<lparr>vw_region = region, vw_rights = rights, vw_cache = Cached\<rparr>, p))"

definition create_frame :: "ArenaId \<Rightarrow> nat \<Rightarrow> Label \<Rightarrow> BackendError + FrameCap" where
  "create_frame arena size_bits label =
     Inr \<lparr>fc_size = 2 ^ min size_bits 63, fc_label = label\<rparr>"

definition map_frame ::
  "'p TopoBackingProvider \<Rightarrow> 'p \<Rightarrow> ArenaId \<Rightarrow> FrameCap \<Rightarrow> VWindow \<Rightarrow> Rights \<Rightarrow> CachePolicy \<Rightarrow>
     (BackendError + MappedRange) \<times> 'p" where
  "map_frame P p arena frame window rights cache =
     (if fc_size frame \<noteq> rg_len (vw_region window) then (Inl BeInvalidRequest, p)
      else let region = vw_region window in
           case bp_commit P p region 0 (rg_len region) of
             (Inl e, p) \<Rightarrow> (Inl e, p)
           | (Inr _, p) \<Rightarrow> (Inr \<lparr>mr_region = region, mr_rights = rights\<rparr>, p))"

definition unmap_frame ::
  "'p TopoBackingProvider \<Rightarrow> 'p \<Rightarrow> ArenaId \<Rightarrow> MappedRange \<Rightarrow> (BackendError + FrameCap) \<times> 'p" where
  "unmap_frame P p arena mapped =
     (case bp_decommit P p (mr_region mapped) 0 (rg_len (mr_region mapped)) of
        (Inl e, p) \<Rightarrow> (Inl e, p)
      | (Inr _, p) \<Rightarrow> (Inr \<lparr>fc_size = rg_len (mr_region mapped), fc_label = Label_PUBLIC\<rparr>, p))"

definition bp_recycle :: "'p TopoBackingProvider \<Rightarrow> 'p \<Rightarrow> ArenaId \<Rightarrow> MappedRange \<Rightarrow> 'p answer" where
  "bp_recycle P p arena mapped = bp_release P p arena (mr_region mapped)"

text \<open>
  Mapping a minted frame into a window of its size and unmapping it gives the frame back, and the
  sizes agree.
\<close>

lemma map_unmap_frame:
  assumes "map_frame P p arena frame window rights cache = (Inr mapped, p')"
    and "unmap_frame P p' arena mapped = (Inr frame', p'')"
  shows "mr_region mapped = vw_region window" and "fc_size frame' = fc_size frame"
  using assms by (auto simp: map_frame_def unmap_frame_def Let_def split: if_splits prod.splits sum.splits)

end
