(* ===== verification/ExtentMgr.thy ===== *)
theory ExtentMgr
  imports Extent_Inv Backend Flags
begin

text \<open>
  \<open>crates/topo-core/src/extent.rs\<close>, the extent manager: the extent map of one reserved region
  behind the back-end lock, together with the provider that backs it. Every public operation
  runs under the lock, so it is one function on the manager; the provider is a parameter whose
  answers are arbitrary. \<open>expect\<close> is a \<^const>\<open>Panic\<close>.
\<close>

section \<open>The manager\<close>

datatype ExtentError =
  ExExhausted | ExOverflow | ExInvalidRequest | ExNotFree | ExStale | ExBackend BackendError

datatype RetainPolicy = Retain | Unmap

record RegionProvenance =
  rp_zeroed :: bool
  rp_canary :: bool

record 'p ExtentManager =
  mg_provider :: 'p
  mg_region :: Region
  mg_arena :: ArenaId
  mg_retain :: RetainPolicy
  mg_map :: ExtentMap
  mg_released :: bool

type_synonym ('p, 'a) mg_result = "(ExtentError + 'a) \<times> 'p ExtentManager"

text \<open>The cargo features that choose the retention policy, and the pointer width.\<close>

definition RetainPolicy_from_profile :: "bool \<Rightarrow> bool \<Rightarrow> bool \<Rightarrow> RetainPolicy" where
  "RetainPolicy_from_profile debug low_rss ptr32 = (if (debug \<or> low_rss) \<or> ptr32 then Unmap else Retain)"

definition subregion :: "Region \<Rightarrow> addr \<Rightarrow> usize \<Rightarrow> Region" where
  "subregion region base len =
     \<lparr>rg_base = wrapping_add 64 (rg_base region) (wrapping_sub 64 base (rg_base region)), rg_len = len\<rparr>"

definition provider_note :: "'p TopoBackingProvider \<Rightarrow> Region \<Rightarrow> ArenaId \<Rightarrow> ExtentNote \<Rightarrow> 'p \<Rightarrow> 'p" where
  "provider_note P region arena note p =
     (case note of
        OnSplit base total_len prefix_len backed \<Rightarrow>
          snd (bp_split P p arena (subregion region base total_len) prefix_len
                 (wrapping_sub 64 total_len prefix_len) backed)
      | OnMerge lb ll rb rl backed \<Rightarrow>
          snd (bp_merge P p arena (subregion region lb ll) (subregion region rb rl) backed))"

text \<open>
  The split and merge notifications of a map operation reach the provider in order; their results
  are dropped. A map operation makes no other provider call, so they can be delivered after it.
\<close>

definition set_map :: "'p TopoBackingProvider \<Rightarrow> ExtentMap \<Rightarrow> 'p ExtentManager \<Rightarrow> 'p ExtentManager" where
  "set_map P m mg =
     mg\<lparr>mg_map := m\<lparr>em_notes := []\<rparr>,
        mg_provider := fold (provider_note P (mg_region mg) (mg_arena mg)) (em_notes m) (mg_provider mg)\<rparr>"

definition set_provider :: "'p \<Rightarrow> 'p ExtentManager \<Rightarrow> 'p ExtentManager" where
  "set_provider p mg = mg\<lparr>mg_provider := p\<rparr>"

definition ExtentManager_new ::
  "'p TopoBackingProvider \<Rightarrow> ('m \<Rightarrow> usize \<Rightarrow> usize \<Rightarrow> addr option \<times> 'm) \<Rightarrow> RetainPolicy \<Rightarrow>
   'p \<Rightarrow> 'm \<Rightarrow> ArenaId \<Rightarrow> usize \<Rightarrow> usize \<Rightarrow> usize \<Rightarrow> (ExtentError + 'p ExtentManager) \<times> 'p \<times> 'm" where
  "ExtentManager_new P alloc policy p mt arena sz align slot_cap =
     (case pages_for sz PAGE_SIZE of
        None \<Rightarrow> (Inl ExOverflow, p, mt)
      | Some pages \<Rightarrow>
          (case checked_mul pages PAGE_SIZE of
            None \<Rightarrow> (Inl ExOverflow, p, mt)
          | Some rlen \<Rightarrow>
              if rlen = 0 \<or> \<not> is_power_of_two align then (Inl ExInvalidRequest, p, mt)
              else (case bp_reserve P p arena rlen (max align PAGE_SIZE) of
                      (Inl e, p) \<Rightarrow> (Inl (ExBackend e), p, mt)
                    | (Inr region, p) \<Rightarrow>
                        (case ExtentMap_new alloc mt (rg_base region) rlen slot_cap of
                           (Some m, mt) \<Rightarrow>
                             (Inr \<lparr>mg_provider = p, mg_region = region, mg_arena = arena, mg_retain = policy,
                                   mg_map = em_set_arena arena m, mg_released = False\<rparr>, p, mt)
                         | (None, mt) \<Rightarrow> (Inl ExExhausted, snd (bp_release P p arena region), mt)))))"

definition set_retain_policy :: "RetainPolicy \<Rightarrow> 'p ExtentManager \<Rightarrow> 'p ExtentManager" where
  "set_retain_policy policy mg = mg\<lparr>mg_retain := policy\<rparr>"

definition teardown :: "'p TopoBackingProvider \<Rightarrow> 'p ExtentManager \<Rightarrow> (BackendError + unit) \<times> 'p ExtentManager" where
  "teardown P mg =
     (if mg_released mg then (Inr (), mg)
      else case bp_release P (mg_provider mg) (mg_arena mg) (mg_region mg) of
             (r, p) \<Rightarrow> (r, (set_provider p mg)\<lparr>mg_released := True\<rparr>))"

definition sub_offset :: "'p ExtentManager \<Rightarrow> addr \<Rightarrow> usize" where
  "sub_offset mg extent_base = wrapping_sub 64 extent_base (rg_base (mg_region mg))"

definition region_of :: "'p ExtentManager \<Rightarrow> ExtentRef \<Rightarrow> Region option" where
  "region_of mg r = do {
     e \<leftarrow> resolve (mg_map mg) r;
     Some \<lparr>rg_base = wrapping_add 64 (rg_base (mg_region mg)) (sub_offset mg (ex_base e)), rg_len = ex_len e\<rparr>
   }"

definition mg_view :: "'p ExtentManager \<Rightarrow> ExtentRef \<Rightarrow> Extent option" where
  "mg_view mg r = resolve (mg_map mg) r"

definition extent_flags :: "'p ExtentManager \<Rightarrow> ExtentRef \<Rightarrow> nat option" where
  "extent_flags mg r = map_option ex_flags (resolve (mg_map mg) r)"

definition set_extent_flags :: "ExtentRef \<Rightarrow> nat \<Rightarrow> 'p ExtentManager \<Rightarrow> ('p, unit) mg_result" where
  "set_extent_flags r flags mg =
     (if resolve (mg_map mg) r = None then (Inl ExStale, mg)
      else (Inr (), mg\<lparr>mg_map := set_flags (er_id r) flags (mg_map mg)\<rparr>))"

section \<open>Allocation\<close>

definition alloc_finish :: "'p TopoBackingProvider \<Rightarrow> ExtentId \<Rightarrow> Extent \<Rightarrow> usize \<Rightarrow> 'p ExtentManager \<Rightarrow>
    ('p, ExtentRef \<times> RegionProvenance) mg_result outcome" where
  "alloc_finish P i e uncommitted mg =
     (case view (mg_map mg) i of
        None \<Rightarrow> Panic
      | Some e' \<Rightarrow>
          Ret (Inr (\<lparr>er_id = i, er_generation = ex_generation e'\<rparr>,
                    \<lparr>rp_zeroed = (ex_committed_len e = 0
                       \<and> bp_committed_memory_is_zeroed P (mg_provider mg)),
                     rp_canary = (uncommitted = 0 \<and> extent_canary (mg_map mg) i)\<rparr>), mg))"

definition alloc_z :: "'p TopoBackingProvider \<Rightarrow> usize \<Rightarrow> usize \<Rightarrow> Fit \<Rightarrow> 'p ExtentManager \<Rightarrow>
    ('p, ExtentRef \<times> RegionProvenance) mg_result outcome" where
  "alloc_z P sz align fit mg =
     (if sz = 0 \<or> \<not> is_power_of_two align then Ret (Inl ExInvalidRequest, mg)
      else case align_up sz PAGE_SIZE of
             None \<Rightarrow> Ret (Inl ExOverflow, mg)
           | Some needed \<Rightarrow>
               (case carve_in needed align fit (mg_map mg) of
                  (None, m) \<Rightarrow> Ret (Inl ExExhausted, set_map P m mg)
                | (Some i, m) \<Rightarrow>
                    (let mg = set_map P m mg in
                     case view (mg_map mg) i of
                       None \<Rightarrow> Panic
                     | Some e \<Rightarrow>
                         (let uncommitted = wrapping_sub 64 (ex_len e) (ex_committed_len e) in
                          if uncommitted > 0 then
                            (case bp_commit P (mg_provider mg) (mg_region mg)
                                    (wrapping_add 64 (sub_offset mg (ex_base e)) (ex_committed_len e)) uncommitted of
                               (Inl err, p) \<Rightarrow>
                                 (let mg = set_provider p mg;
                                      recovered = (if ex_committed_len e = ex_len e then EDirty else EReleased)
                                  in Ret (Inl (ExBackend err), set_map P (snd (free_in i recovered (mg_map mg))) mg))
                             | (Inr _, p) \<Rightarrow>
                                 (let mg = set_provider p mg
                                  in alloc_finish P i e uncommitted
                                       (mg\<lparr>mg_map := snd (mark_committed i (mg_map mg))\<rparr>)))
                          else alloc_finish P i e uncommitted mg))))"

definition mg_alloc :: "'p TopoBackingProvider \<Rightarrow> usize \<Rightarrow> usize \<Rightarrow> Fit \<Rightarrow> 'p ExtentManager \<Rightarrow>
    ('p, ExtentRef) mg_result outcome" where
  "mg_alloc P sz align fit mg =
     bind_outcome (alloc_z P sz align fit mg) (\<lambda>(r, mg). Ret (map_sum (\<lambda>e. e) fst r, mg))"

text \<open>\<open>hook\<close> is the \<open>try_alloc\<close> of the region cache; its default answers \<^const>\<open>None\<close>.\<close>

definition alloc_large ::
  "'p TopoBackingProvider \<Rightarrow> (usize \<Rightarrow> usize \<Rightarrow> Hints \<Rightarrow> Region option) \<Rightarrow> usize \<Rightarrow> usize \<Rightarrow> Hints \<Rightarrow>
   'p ExtentManager \<Rightarrow> ('p, Region \<times> ExtentRef option \<times> RegionProvenance) mg_result outcome" where
  "alloc_large P hook bytes align hs mg =
     (if bytes = 0 \<or> \<not> is_power_of_two align then Ret (Inl ExInvalidRequest, mg)
      else case align_up bytes PAGE_SIZE of
             None \<Rightarrow> Ret (Inl ExOverflow, mg)
           | Some rounded \<Rightarrow>
               (case hook rounded align hs of
                  Some region \<Rightarrow> Ret (Inr (region, None, \<lparr>rp_zeroed = False, rp_canary = False\<rparr>), mg)
                | None \<Rightarrow>
                    bind_outcome (alloc_z P rounded align Best mg) (\<lambda>(res, mg).
                      case res of
                        Inl e \<Rightarrow> Ret (Inl e, mg)
                      | Inr (r, prov) \<Rightarrow>
                          (case region_of mg r of
                             None \<Rightarrow> Panic
                           | Some region \<Rightarrow> Ret (Inr (region, Some r, prov), mg)))))"

section \<open>Resizing\<close>

definition split_tail :: "'p TopoBackingProvider \<Rightarrow> ExtentRef \<Rightarrow> usize \<Rightarrow> 'p ExtentManager \<Rightarrow>
    ('p, ExtentRef) mg_result outcome" where
  "split_tail P r prefix_len mg =
     (case resolve (mg_map mg) r of
        None \<Rightarrow> Ret (Inl ExStale, mg)
      | Some e \<Rightarrow>
          if ex_state e \<noteq> EActive then Ret (Inl ExNotFree, mg)
          else (case split_in (er_id r) prefix_len (mg_map mg) of
                  None \<Rightarrow> Ret (Inl ExExhausted, mg)
                | Some (tail, m) \<Rightarrow>
                    (let mg = set_map P m mg in
                     case view (mg_map mg) tail of
                       None \<Rightarrow> Panic
                     | Some t \<Rightarrow> Ret (Inr \<lparr>er_id = tail, er_generation = ex_generation t\<rparr>, mg))))"

definition can_grow_in_place :: "'p ExtentManager \<Rightarrow> ExtentRef \<Rightarrow> usize \<Rightarrow> bool" where
  "can_grow_in_place mg r new_len =
     (case align_up new_len PAGE_SIZE of
        None \<Rightarrow> False
      | Some needed \<Rightarrow>
          (case resolve (mg_map mg) r of
             None \<Rightarrow> False
           | Some e \<Rightarrow>
               if ex_state e \<noteq> EActive \<or> needed \<le> ex_len e then False
               else (case em_addr_next (mg_map mg) (er_id r) of
                       Some next_id \<Rightarrow>
                         (case view (mg_map mg) next_id of
                            Some nv \<Rightarrow> is_free (ex_state nv) \<and> needed - ex_len e \<le> ex_len nv
                          | None \<Rightarrow> False)
                     | None \<Rightarrow> False)))"

definition grow_absorb :: "'p TopoBackingProvider \<Rightarrow> ExtentId \<Rightarrow> ExtentId \<Rightarrow> 'p ExtentManager \<Rightarrow>
    ('p, unit) mg_result" where
  "grow_absorb P i next_id mg = (Inr (), set_map P (absorb_next_in i next_id (mg_map mg)) mg)"

definition grow_commit :: "'p TopoBackingProvider \<Rightarrow> ExtentId \<Rightarrow> ExtentId \<Rightarrow> 'p ExtentManager \<Rightarrow>
    ('p, unit) mg_result outcome" where
  "grow_commit P i next_id mg =
     (case view (mg_map mg) next_id of
        None \<Rightarrow> Panic
      | Some ne \<Rightarrow>
          (let uncommitted = wrapping_sub 64 (ex_len ne) (ex_committed_len ne) in
           if uncommitted > 0 then
             (case bp_commit P (mg_provider mg) (mg_region mg)
                     (wrapping_add 64 (sub_offset mg (ex_base ne)) (ex_committed_len ne)) uncommitted of
                (Inl err, p) \<Rightarrow>
                  (let mg = set_provider p mg
                   in Ret (Inl (ExBackend err), set_map P (snd (coalesce_in next_id (mg_map mg))) mg))
              | (Inr _, p) \<Rightarrow>
                  (let mg = set_provider p mg
                   in Ret (grow_absorb P i next_id (mg\<lparr>mg_map := snd (mark_committed next_id (mg_map mg))\<rparr>))))
           else Ret (grow_absorb P i next_id mg)))"

definition grow_in_place :: "'p TopoBackingProvider \<Rightarrow> ExtentRef \<Rightarrow> usize \<Rightarrow> 'p ExtentManager \<Rightarrow>
    ('p, unit) mg_result outcome" where
  "grow_in_place P r new_len mg =
     (case align_up new_len PAGE_SIZE of
        None \<Rightarrow> Ret (Inl ExOverflow, mg)
      | Some needed \<Rightarrow>
          (case resolve (mg_map mg) r of
             None \<Rightarrow> Ret (Inl ExStale, mg)
           | Some e \<Rightarrow>
               if ex_state e \<noteq> EActive then Ret (Inl ExNotFree, mg)
               else if needed \<le> ex_len e then Ret (Inr (), mg)
               else let additional = needed - ex_len e in
                    (case em_addr_next (mg_map mg) (er_id r) of
                       None \<Rightarrow> Ret (Inl ExExhausted, mg)
                     | Some next_id \<Rightarrow>
                         (case view (mg_map mg) next_id of
                            None \<Rightarrow> Ret (Inl ExExhausted, mg)
                          | Some nv \<Rightarrow>
                              if \<not> is_free (ex_state nv) \<or> ex_len nv < additional
                              then Ret (Inl ExExhausted, mg)
                              else if ex_len nv > additional
                              then (case split_in next_id additional (mg_map mg) of
                                      None \<Rightarrow> Ret (Inl ExExhausted, mg)
                                    | Some (_, m) \<Rightarrow> grow_commit P (er_id r) next_id (set_map P m mg))
                              else grow_commit P (er_id r) next_id mg))))"

section \<open>Freeing and physical state\<close>

text \<open>\<open>force_purge\<close> is the deterministic-test override of the retention policy.\<close>

definition free_canary :: "'p TopoBackingProvider \<Rightarrow> bool \<Rightarrow> ExtentRef \<Rightarrow> bool \<Rightarrow> 'p ExtentManager \<Rightarrow>
    ('p, unit) mg_result" where
  "free_canary P force_purge r canary mg =
     (case resolve (mg_map mg) r of
        None \<Rightarrow> (Inl ExStale, mg)
      | Some e \<Rightarrow>
          if ex_state e \<noteq> EActive then (Inl ExNotFree, mg)
          else (case (if force_purge then Unmap else mg_retain mg) of
                  Retain \<Rightarrow> (Inr (), set_map P (snd (free_in_canary (er_id r) EDirty canary (mg_map mg))) mg)
                | Unmap \<Rightarrow>
                    (case bp_decommit P (mg_provider mg) (mg_region mg) (sub_offset mg (ex_base e)) (ex_committed_len e) of
                       (Inr _, p) \<Rightarrow>
                         (let mg = set_provider p mg;
                              m = snd (mark_decommitted (er_id r) EActive (mg_map mg))
                          in (Inr (), set_map P (snd (free_in (er_id r) EReleased m)) mg))
                     | (Inl _, p) \<Rightarrow>
                         (let mg = set_provider p mg
                          in (Inr (), set_map P (snd (free_in_canary (er_id r) EDirty canary (mg_map mg))) mg)))))"

definition mg_free :: "'p TopoBackingProvider \<Rightarrow> bool \<Rightarrow> ExtentRef \<Rightarrow> 'p ExtentManager \<Rightarrow> ('p, unit) mg_result" where
  "mg_free P force_purge r mg = free_canary P force_purge r False mg"

definition free_revoking_canary ::
  "'p TopoBackingProvider \<Rightarrow> bool \<Rightarrow> ExtentRef \<Rightarrow> ArenaId \<Rightarrow> bool \<Rightarrow> 'p ExtentManager \<Rightarrow> ('p, unit) mg_result" where
  "free_revoking_canary P force_purge r arena canary mg =
     (case region_of mg r of
        None \<Rightarrow> (Inl ExStale, mg)
      | Some region \<Rightarrow>
          (case bp_revoke_descendants P (mg_provider mg) arena region of
             (Inl e, p) \<Rightarrow> (Inl (ExBackend e), set_provider p mg)
           | (Inr _, p) \<Rightarrow> free_canary P force_purge r canary (set_provider p mg)))"

definition free_revoking ::
  "'p TopoBackingProvider \<Rightarrow> bool \<Rightarrow> ExtentRef \<Rightarrow> ArenaId \<Rightarrow> 'p ExtentManager \<Rightarrow> ('p, unit) mg_result" where
  "free_revoking P force_purge r arena mg = free_revoking_canary P force_purge r arena False mg"

definition mg_commit :: "'p TopoBackingProvider \<Rightarrow> ExtentRef \<Rightarrow> 'p ExtentManager \<Rightarrow> ('p, unit) mg_result" where
  "mg_commit P r mg =
     (case resolve (mg_map mg) r of
        None \<Rightarrow> (Inl ExStale, mg)
      | Some e \<Rightarrow>
          (let uncommitted = wrapping_sub 64 (ex_len e) (ex_committed_len e) in
           if uncommitted > 0 then
             (case bp_commit P (mg_provider mg) (mg_region mg)
                     (wrapping_add 64 (sub_offset mg (ex_base e)) (ex_committed_len e)) uncommitted of
                (Inl err, p) \<Rightarrow> (Inl (ExBackend err), set_provider p mg)
              | (Inr _, p) \<Rightarrow>
                  (Inr (), (set_provider p mg)\<lparr>mg_map := snd (mark_committed (er_id r) (mg_map mg))\<rparr>))
           else (Inr (), mg)))"

definition decommit_to_released :: "'p TopoBackingProvider \<Rightarrow> ExtentRef \<Rightarrow> Extent \<Rightarrow> 'p ExtentManager \<Rightarrow>
    ('p, unit) mg_result" where
  "decommit_to_released P r e mg =
     (if ex_committed_len e > 0 then
        (case bp_decommit P (mg_provider mg) (mg_region mg) (sub_offset mg (ex_base e)) (ex_committed_len e) of
           (Inl err, p) \<Rightarrow> (Inl (ExBackend err), set_provider p mg)
         | (Inr _, p) \<Rightarrow>
             (Inr (), (set_provider p mg)\<lparr>mg_map := snd (mark_decommitted (er_id r) EReleased (mg_map mg))\<rparr>))
      else (Inr (), mg\<lparr>mg_map := snd (em_set_state (er_id r) EReleased (mg_map mg))\<rparr>))"

definition mg_decommit :: "'p TopoBackingProvider \<Rightarrow> ExtentRef \<Rightarrow> 'p ExtentManager \<Rightarrow> ('p, unit) mg_result" where
  "mg_decommit P r mg =
     (case resolve (mg_map mg) r of
        None \<Rightarrow> (Inl ExStale, mg)
      | Some e \<Rightarrow>
          if \<not> is_free (ex_state e) then (Inl ExNotFree, mg)
          else decommit_to_released P r e mg)"

definition protect_range :: "'p TopoBackingProvider \<Rightarrow> addr \<Rightarrow> usize \<Rightarrow> bool \<Rightarrow> 'p ExtentManager \<Rightarrow>
    ('p, unit) mg_result" where
  "protect_range P a len accessible mg =
     (case bp_protect P (mg_provider mg) (mg_region mg) (sub_offset mg a) len accessible of
        (Inl e, p) \<Rightarrow> (Inl (ExBackend e), set_provider p mg)
      | (Inr _, p) \<Rightarrow> (Inr (), set_provider p mg))"

definition mg_purge_lazy :: "'p TopoBackingProvider \<Rightarrow> ExtentRef \<Rightarrow> 'p ExtentManager \<Rightarrow> ('p, unit) mg_result" where
  "mg_purge_lazy P r mg =
     (case resolve (mg_map mg) r of
        None \<Rightarrow> (Inl ExStale, mg)
      | Some e \<Rightarrow>
          if \<not> is_free (ex_state e) then (Inl ExNotFree, mg)
          else if ex_state e = EDirty then
            (case bp_purge_lazy P (mg_provider mg) (mg_region mg) (sub_offset mg (ex_base e)) (ex_len e) of
               (Inl err, p) \<Rightarrow> (Inl (ExBackend err), set_provider p mg)
             | (Inr _, p) \<Rightarrow>
                 (Inr (), (set_provider p mg)\<lparr>mg_map := snd (em_set_state (er_id r) EMuzzy (mg_map mg))\<rparr>))
          else (Inr (), mg))"

definition mg_purge_forced :: "'p TopoBackingProvider \<Rightarrow> ExtentRef \<Rightarrow> 'p ExtentManager \<Rightarrow> ('p, unit) mg_result" where
  "mg_purge_forced P r mg =
     (case resolve (mg_map mg) r of
        None \<Rightarrow> (Inl ExStale, mg)
      | Some e \<Rightarrow>
          if \<not> is_free (ex_state e) then (Inl ExNotFree, mg)
          else if ex_committed_len e > 0 then
            (case bp_purge_forced P (mg_provider mg) (mg_region mg) (sub_offset mg (ex_base e)) (ex_len e) of
               (Inl err, p) \<Rightarrow> (Inl (ExBackend err), set_provider p mg)
             | (Inr _, p) \<Rightarrow>
                 (Inr (), (set_provider p mg)\<lparr>mg_map := snd (em_set_state (er_id r) EMuzzy (mg_map mg))\<rparr>))
          else (Inr (), mg))"

definition mg_release :: "'p TopoBackingProvider \<Rightarrow> ExtentRef \<Rightarrow> 'p ExtentManager \<Rightarrow> ('p, unit) mg_result" where
  "mg_release P r mg =
     (case resolve (mg_map mg) r of
        None \<Rightarrow> (Inl ExStale, mg)
      | Some e \<Rightarrow>
          if \<not> is_free (ex_state e) then (Inl ExNotFree, mg)
          else let sub = \<lparr>rg_base = wrapping_add 64 (rg_base (mg_region mg)) (sub_offset mg (ex_base e)),
                          rg_len = ex_len e\<rparr> in
               (case bp_revoke_descendants P (mg_provider mg) (mg_arena mg) sub of
                  (Inl err, p) \<Rightarrow> (Inl (ExBackend err), set_provider p mg)
                | (Inr _, p) \<Rightarrow> decommit_to_released P r e (set_provider p mg)))"

end
