(* ===== verification/ExtentMgr_Inv.thy ===== *)
theory ExtentMgr_Inv
  imports ExtentMgr
begin

text \<open>
  The extent manager keeps its invariant under every operation and for every behaviour of its
  provider: the map is well formed, every live extent is fully committed, and operations that
  fail leave the live extents alone.
\<close>

section \<open>The map operations as the manager uses them\<close>

lemma em_rep_notes [simp]: "em_rep (m\<lparr>em_notes := v\<rparr>) al fl bl = em_rep m al fl bl"
  by (simp add: em_rep_def)

lemma em_wf_notes [simp]: "em_wf (m\<lparr>em_notes := v\<rparr>) = em_wf m"
  by (simp add: em_wf_def)

lemma view_notes [simp]: "view (m\<lparr>em_notes := v\<rparr>) i = view m i"
  by (simp add: view_def)

lemma live_notes [simp]: "live (m\<lparr>em_notes := v\<rparr>) = live m"
  by (simp add: live_def)

lemma resolve_notes [simp]: "resolve (m\<lparr>em_notes := v\<rparr>) r = resolve m r"
  by (simp add: resolve_def)

lemma resolve_Some: "resolve m r = Some e \<longleftrightarrow> view m (er_id r) = Some e \<and> ex_generation e = er_generation r"
  by (auto simp: resolve_def bind_eq_Some_conv split: if_splits)

lemma view_live: "view m i = Some e \<Longrightarrow> e \<in> live m \<longleftrightarrow> ex_state e = EActive"
  by (auto simp: live_def view_def Let_def snapshot_def split: if_splits)

lemma view_rep:
  assumes "em_rep m al fl bl" and "view m i = Some e"
  shows "i \<in> set al" and "e = snapshot i (slots m i)"
  using assms by (auto simp: em_rep_view split: if_splits)

lemma view_geo:
  assumes "em_wf m" and "view m i = Some e"
  shows "ex_id e = i" and "0 < ex_len e" and "region_base m \<le> ex_base e"
    and "ex_base e + ex_len e \<le> region_base m + region_len m" and "is_usize (ex_base e + ex_len e)"
    and "ex_committed_len e = 0 \<or> ex_committed_len e = ex_len e"
    and "is_free (ex_state e) \<Longrightarrow> is_backed (ex_state e) = (ex_committed_len e = ex_len e)"
proof -
  obtain al fl bl where R: "em_rep m al fl bl" using assms(1) by (auto simp: em_wf_def)
  note V = view_rep [OF R assms(2)]
  note G = em_rep_geo [OF R V(1)]
  show "ex_id e = i" "0 < ex_len e" "region_base m \<le> ex_base e"
    "ex_base e + ex_len e \<le> region_base m + region_len m" "is_usize (ex_base e + ex_len e)"
    "ex_committed_len e = 0 \<or> ex_committed_len e = ex_len e"
    "is_free (ex_state e) \<Longrightarrow> is_backed (ex_state e) = (ex_committed_len e = ex_len e)"
    using G by (simp_all add: V(2) slot_ok_def)
qed

lemma uncommitted_eq:
  assumes "em_wf m" and "view m i = Some e"
  shows "wrapping_sub 64 (ex_len e) (ex_committed_len e) = ex_len e - ex_committed_len e"
  using view_geo(5,6) [OF assms] by (intro wrapping_sub_exact) auto

lemma carve_wf:
  assumes wf: "em_wf m" and a: "is_power_of_two a" "is_usize a" and n: "0 < n" "PAGE_SIZE dvd n"
  obtains "carve_in n a fit m = (None, m)"
  | k m' e where "carve_in n a fit m = (Some k, m')" and "em_wf m'" and "carved m n a k m' e"
proof -
  obtain al fl bl where R: "em_rep m al fl bl" using wf by (auto simp: em_wf_def)
  show ?thesis
  proof (cases "find_fit m n a fit")
    case None
    then show ?thesis using carve_in_None [OF R a n] that(1) by blast
  next
    case (Some h)
    obtain i x p where h: "h = (i, x, p)" by (cases h)
    show ?thesis
    proof (cases "unused_slots m < carve_splits m n i p")
      case True
      then show ?thesis using carve_in_None [OF R a n] Some h that(1) by blast
    next
      case False
      then have u: "carve_splits m n i p \<le> unused_slots m" by simp
      show ?thesis by (rule carve_in_Some [OF R a n Some [unfolded h] u]) (rule that(2), auto intro: em_wfI)
    qed
  qed
qed

lemma free_wf:
  assumes wf: "em_wf m" and e: "view m i = Some e" "ex_state e = EActive"
    and st: "st = EDirty \<and> ex_committed_len e = ex_len e \<or> st = EReleased \<and> ex_committed_len e = 0"
  shows "em_wf (snd (free_in_canary i st cy m))"
    and "live (snd (free_in_canary i st cy m)) = live m - {e}"
    and "region_base (snd (free_in_canary i st cy m)) = region_base m"
    and "region_len (snd (free_in_canary i st cy m)) = region_len m"
    and "free_bytes (snd (free_in_canary i st cy m)) = free_bytes m + ex_len e"
proof -
  obtain al fl bl where R: "em_rep m al fl bl" using wf by (auto simp: em_wf_def)
  have "free_target_ok (slots m i) st" using st view_rep(2) [OF R e(1)] by (simp add: free_target_ok_def)
  then obtain sv m' al' fl' bl' where F: "free_in_canary i st cy m = (Some sv, m')" "em_rep m' al' fl' bl'"
    "sv \<in> set al'" "is_free (s_state (slots m' sv))" "s_base (slots m' sv) \<le> ex_base e"
    "ex_base e + ex_len e \<le> s_base (slots m' sv) + s_len (slots m' sv)"
    "live m' = live m - {e}" "free_bytes m' = free_bytes m + ex_len e"
    "committed_bytes m' = committed_bytes m" "cap m' = cap m"
    "region_base m' = region_base m" "region_len m' = region_len m"
    by (rule free_in_canary_rep [OF R e])
  then show "em_wf (snd (free_in_canary i st cy m))"
    "live (snd (free_in_canary i st cy m)) = live m - {e}"
    "region_base (snd (free_in_canary i st cy m)) = region_base m"
    "region_len (snd (free_in_canary i st cy m)) = region_len m"
    "free_bytes (snd (free_in_canary i st cy m)) = free_bytes m + ex_len e"
    by (auto intro: em_wfI)
qed

lemma mark_committed_wf:
  assumes wf: "em_wf m" and e: "view m i = Some e"
  obtains m' e' where "snd (mark_committed i m) = m'" and "em_wf m'" and "view m' i = Some e'"
    and "ex_committed_len e' = ex_len e" and "ex_len e' = ex_len e" and "ex_base e' = ex_base e"
    and "ex_generation e' = ex_generation e" and "is_free (ex_state e') = is_free (ex_state e)"
    and "live m' = (if ex_state e = EActive then live m - {e} \<union> {e'} else live m)"
    and "region_base m' = region_base m" and "region_len m' = region_len m"
proof -
  obtain al fl bl where R: "em_rep m al fl bl" using wf by (auto simp: em_wf_def)
  note V = view_rep [OF R e]
  show ?thesis
  proof (rule mark_committed_rep [OF R V(1)])
    fix m' bl' s
    assume M: "mark_committed i m = (s_len (slots m i) - s_committed_len (slots m i), m')"
      "em_rep m' al fl bl'" "slots m' = (slots m)(i := s)"
      "s_committed_len s = s_len (slots m i)" "s_len s = s_len (slots m i)" "s_base s = s_base (slots m i)"
      "s_generation s = s_generation (slots m i)" "s_state (slots m i) = EActive \<Longrightarrow> s_state s = EActive"
      "is_free (s_state s) = is_free (s_state (slots m i))"
      "live m' = live m - {snapshot i (slots m i)} \<union> (if s_state s = EActive then {snapshot i s} else {})"
      "free_bytes m' = free_bytes m" "region_base m' = region_base m" "region_len m' = region_len m"
    have "view m' i = Some (snapshot i s)" using V(1) M(3) by (simp add: em_rep_view [OF M(2)])
    moreover have "live m' = (if ex_state e = EActive then live m - {e} \<union> {snapshot i s} else live m)"
      using M(8,9,10) view_live [OF e] V(2) by (auto simp: is_free_def)
    moreover have "snd (mark_committed i m) = m'" using M(1) by simp
    ultimately show ?thesis
      by (intro that [of m' "snapshot i s"] em_wfI [OF M(2)]) (use M(4-7,9,12,13) V(2) in simp_all)
  qed
qed

lemma mark_decommitted_wf:
  assumes wf: "em_wf m" and e: "view m i = Some e"
    and st: "is_free st = is_free (ex_state e)" "is_free st \<Longrightarrow> \<not> is_backed st"
  obtains m' e' where "snd (mark_decommitted i st m) = m'" and "em_wf m'" and "view m' i = Some e'"
    and "ex_committed_len e' = 0" and "ex_state e' = st" and "ex_base e' = ex_base e" and "ex_len e' = ex_len e"
    and "live m' = (if ex_state e = EActive then live m - {e} \<union> {e'} else live m)"
    and "region_base m' = region_base m" and "region_len m' = region_len m"
proof -
  obtain al fl bl where R: "em_rep m al fl bl" using wf by (auto simp: em_wf_def)
  note V = view_rep [OF R e]
  have st': "is_free st = is_free (s_state (slots m i))" using st(1) V(2) by simp
  define s where "s = (slots m i)\<lparr>s_committed_len := 0, s_canary := False, s_state := st\<rparr>"
  obtain m' bl' where M: "mark_decommitted i st m = (s_committed_len (slots m i), m')" "em_rep m' al fl bl'"
    "slots m' = (slots m)(i := s)"
    "live m' = live m - {snapshot i (slots m i)} \<union> (if st = EActive then {snapshot i s} else {})"
    "region_base m' = region_base m" "region_len m' = region_len m"
    unfolding s_def by (rule mark_decommitted_rep [OF R V(1) st' st(2)])
  have "view m' i = Some (snapshot i s)" using V(1) M(3) by (simp add: em_rep_view [OF M(2)])
  moreover have "live m' = (if ex_state e = EActive then live m - {e} \<union> {snapshot i s} else live m)"
    using M(4) st(1) view_live [OF e] V(2) by (auto simp: is_free_def)
  moreover have "snd (mark_decommitted i st m) = m'" using M(1) by simp
  ultimately show ?thesis
    by (intro that [of m' "snapshot i s"] em_wfI [OF M(2)]) (use M(5,6) V(2) in \<open>simp_all add: s_def\<close>)
qed

lemma em_set_state_wf:
  assumes wf: "em_wf m" and e: "view m i = Some e" "is_free (ex_state e)"
    and st: "is_free st" "is_backed st = (ex_committed_len e = ex_len e)"
  shows "em_wf (snd (em_set_state i st m))" and "live (snd (em_set_state i st m)) = live m"
    and "region_base (snd (em_set_state i st m)) = region_base m"
    and "region_len (snd (em_set_state i st m)) = region_len m"
proof -
  obtain al fl bl where R: "em_rep m al fl bl" using wf by (auto simp: em_wf_def)
  note V = view_rep [OF R e(1)]
  have "is_free (s_state (slots m i))" "is_backed st = (s_committed_len (slots m i) = s_len (slots m i))"
    using e(2) st(2) V(2) by simp_all
  from em_set_state_rep [OF R V(1) st(1) this]
  obtain m' bl' where "em_set_state i st m = (True, m')" "em_rep m' al fl bl'" "live m' = live m"
    "region_base m' = region_base m" "region_len m' = region_len m"
    by blast
  then show "em_wf (snd (em_set_state i st m))" "live (snd (em_set_state i st m)) = live m"
    "region_base (snd (em_set_state i st m)) = region_base m"
    "region_len (snd (em_set_state i st m)) = region_len m"
    by (auto intro: em_wfI)
qed

lemma coalesce_wf:
  assumes wf: "em_wf m" and e: "view m i = Some e" "is_free (ex_state e)"
  shows "em_wf (snd (coalesce_in i m))" and "live (snd (coalesce_in i m)) = live m"
    and "region_base (snd (coalesce_in i m)) = region_base m"
    and "region_len (snd (coalesce_in i m)) = region_len m"
proof -
  obtain al fl bl where R: "em_rep m al fl bl" using wf by (auto simp: em_wf_def)
  note V = view_rep [OF R e(1)]
  have "is_free (s_state (slots m i))" using e(2) V(2) by simp
  then obtain sv m' al' fl' bl' where "coalesce_in i m = (sv, m')" "em_rep m' al' fl' bl'"
    "sv \<in> set al'" "outgrows m i m' sv"
    by (rule coalesce_in_rep [OF R V(1)])
  then show "em_wf (snd (coalesce_in i m))" "live (snd (coalesce_in i m)) = live m"
    "region_base (snd (coalesce_in i m)) = region_base m" "region_len (snd (coalesce_in i m)) = region_len m"
    by (auto intro: em_wfI simp: outgrows_def)
qed

section \<open>The invariant of the manager\<close>

definition mgr_wf :: "'p ExtentManager \<Rightarrow> bool" where
  "mgr_wf mg \<longleftrightarrow> em_wf (mg_map mg) \<and> (\<forall>e\<in>live (mg_map mg). ex_committed_len e = ex_len e)
     \<and> rg_base (mg_region mg) = region_base (mg_map mg)"

text \<open>The step from \<open>mg\<close> to \<open>mg'\<close> keeps the invariant and leaves the live extents \<open>L\<close>.\<close>

definition mg_step :: "'p ExtentManager \<Rightarrow> 'p ExtentManager \<Rightarrow> Extent set \<Rightarrow> bool" where
  "mg_step mg mg' L \<longleftrightarrow> mgr_wf mg' \<and> live (mg_map mg') = L \<and> mg_region mg' = mg_region mg
     \<and> region_base (mg_map mg') = region_base (mg_map mg) \<and> region_len (mg_map mg') = region_len (mg_map mg)"

lemma mg_step_refl: "mgr_wf mg \<Longrightarrow> mg_step mg mg (live (mg_map mg))"
  by (simp add: mg_step_def)

lemma set_map_fields [simp]:
  "mg_map (set_map P m mg) = m\<lparr>em_notes := []\<rparr>" "mg_region (set_map P m mg) = mg_region mg"
  "mg_retain (set_map P m mg) = mg_retain mg"
  by (simp_all add: set_map_def)

lemma set_provider_fields [simp]:
  "mg_map (set_provider p mg) = mg_map mg" "mg_region (set_provider p mg) = mg_region mg"
  "mg_retain (set_provider p mg) = mg_retain mg"
  by (simp_all add: set_provider_def)

lemma mg_step_provider: "mgr_wf mg \<Longrightarrow> mg_step mg (set_provider p mg) (live (mg_map mg))"
  by (simp add: mg_step_def mgr_wf_def)

lemma mg_stepI:
  assumes "mgr_wf mg" and "em_wf (mg_map mg')" and "live (mg_map mg') = L"
    and "\<And>e. e \<in> L \<Longrightarrow> ex_committed_len e = ex_len e" and "mg_region mg' = mg_region mg"
    and "region_base (mg_map mg') = region_base (mg_map mg)" and "region_len (mg_map mg') = region_len (mg_map mg)"
  shows "mg_step mg mg' L"
  using assms by (simp add: mg_step_def mgr_wf_def)

text \<open>The extent an allocation returns.\<close>

definition allocated :: "'p ExtentManager \<Rightarrow> 'p ExtentManager \<Rightarrow> usize \<Rightarrow> usize \<Rightarrow> ExtentRef \<Rightarrow> bool" where
  "allocated mg mg' sz align r \<longleftrightarrow>
     (\<exists>e. resolve (mg_map mg') r = Some e \<and> ex_state e = EActive \<and> ex_committed_len e = ex_len e
        \<and> sz \<le> ex_len e \<and> ex_len e < sz + PAGE_SIZE \<and> align dvd ex_base e
        \<and> e \<notin> live (mg_map mg) \<and> mg_step mg mg' (insert e (live (mg_map mg))))"

lemma page_size_laws: "is_power_of_two PAGE_SIZE" "is_usize PAGE_SIZE" "0 < PAGE_SIZE"
  by (simp_all add: PAGE_SIZE_def is_power_of_two_def)

lemma alloc_finish_Some:
  "view (mg_map mg) i = Some e' \<Longrightarrow>
   \<exists>prov. alloc_finish P i e u mg = Ret (Inr (\<lparr>er_id = i, er_generation = ex_generation e'\<rparr>, prov), mg)"
  by (simp add: alloc_finish_def)

lemma alloc_z_spec:
  assumes wf: "mgr_wf mg" and a: "is_usize align" and s: "is_usize sz"
  obtains err mg' where "alloc_z P sz align fit mg = Ret (Inl err, mg')" and "mg_step mg mg' (live (mg_map mg))"
  | r prov mg' where "alloc_z P sz align fit mg = Ret (Inr (r, prov), mg')" and "allocated mg mg' sz align r"
proof (cases "sz = 0 \<or> \<not> is_power_of_two align")
  case True
  then show ?thesis using that(1) mg_step_refl [OF wf] by (simp add: alloc_z_def)
next
  case valid: False
  show ?thesis
  proof (cases "align_up sz PAGE_SIZE")
    case None
    then show ?thesis using valid that(1) mg_step_refl [OF wf] by (simp add: alloc_z_def)
  next
    case (Some n)
    note A = align_up_Some [OF page_size_laws(1,2) Some]
    have n: "0 < n" "PAGE_SIZE dvd n" using A(1,2) valid by auto
    have p2: "is_power_of_two align" using valid by simp
    have wm: "em_wf (mg_map mg)" and cm: "\<And>e. e \<in> live (mg_map mg) \<Longrightarrow> ex_committed_len e = ex_len e"
      and rb: "rg_base (mg_region mg) = region_base (mg_map mg)"
      using wf by (auto simp: mgr_wf_def)
    show ?thesis
    proof (rule carve_wf [OF wm p2 a n, where fit = fit])
      assume c: "carve_in n align fit (mg_map mg) = (None, mg_map mg)"
      have "mg_step mg (set_map P (mg_map mg) mg) (live (mg_map mg))"
        by (rule mg_stepI [OF wf]) (use wm cm in simp_all)
      then show ?thesis using that(1) c valid Some by (simp add: alloc_z_def)
    next
      fix k m' e
      assume c: "carve_in n align fit (mg_map mg) = (Some k, m')" and w': "em_wf m'"
        and ca: "carved (mg_map mg) n align k m' e"
      let ?mg = "set_map P m' mg" and ?u = "ex_len e - ex_committed_len e"
      have v: "view m' k = Some e" and l: "live m' = insert e (live (mg_map mg))" "e \<notin> live (mg_map mg)"
        and e: "ex_state e = EActive" "ex_len e = n" "align dvd ex_base e"
        and rg: "region_base m' = region_base (mg_map mg)" "region_len m' = region_len (mg_map mg)"
        using ca by (auto simp: carved_def)
      note G = view_geo [OF w' v]
      have u: "wrapping_sub 64 (ex_len e) (ex_committed_len e) = ?u" by (rule uncommitted_eq [OF w' v])
      show ?thesis
      proof (cases "?u > 0")
        case False
        then have full: "ex_committed_len e = ex_len e" using G(2,6) by auto
        have eq: "alloc_z P sz align fit mg = alloc_finish P k e ?u ?mg"
          using valid Some c v u False by (simp add: alloc_z_def Let_def)
        obtain prov where f: "alloc_finish P k e ?u ?mg = Ret (Inr (\<lparr>er_id = k, er_generation = ex_generation e\<rparr>, prov), ?mg)"
          using alloc_finish_Some [of ?mg k e P e ?u] v by auto
        have "mg_step mg ?mg (insert e (live (mg_map mg)))"
          by (rule mg_stepI [OF wf]) (use w' l rg cm full in auto)
        then have "allocated mg ?mg sz align \<lparr>er_id = k, er_generation = ex_generation e\<rparr>"
          unfolding allocated_def using v e full l A(1,3) by (intro exI [of _ e]) (simp add: resolve_Some)
        then show ?thesis using that(2) eq f by simp
      next
        case True
        then have c0: "ex_committed_len e = 0" using G(6) by auto
        obtain res p where bc: "bp_commit P (mg_provider ?mg) (mg_region ?mg)
            (wrapping_add 64 (sub_offset ?mg (ex_base e)) (ex_committed_len e)) ?u = (res, p)"
          by fastforce
        show ?thesis
        proof (cases res)
          case (Inl err)
          let ?m = "snd (free_in k EReleased (m'\<lparr>em_notes := []\<rparr>))" and ?mg' = "set_provider p ?mg"
          have "alloc_z P sz align fit mg = Ret (Inl (ExBackend err), set_map P ?m ?mg')"
            using valid Some c v u True bc Inl c0 by (simp add: alloc_z_def Let_def)
          moreover have "mg_step mg (set_map P ?m ?mg') (live (mg_map mg))"
          proof (rule mg_stepI [OF wf])
            have v0: "em_wf (m'\<lparr>em_notes := []\<rparr>)" "view (m'\<lparr>em_notes := []\<rparr>) k = Some e" using w' v by simp_all
            note F = free_wf [OF v0 e(1), of EReleased False, folded free_in_def]
            show "em_wf (mg_map (set_map P ?m ?mg'))" using F(1) c0 by simp
            show "live (mg_map (set_map P ?m ?mg')) = live (mg_map mg)" using F(2) c0 l by simp
            show "region_base (mg_map (set_map P ?m ?mg')) = region_base (mg_map mg)"
              "region_len (mg_map (set_map P ?m ?mg')) = region_len (mg_map mg)"
              using F(3,4) c0 rg by simp_all
          qed (use cm in simp_all)
          ultimately show ?thesis by (rule that(1))
        next
          case (Inr un)
          have v0: "em_wf (m'\<lparr>em_notes := []\<rparr>)" "view (m'\<lparr>em_notes := []\<rparr>) k = Some e" using w' v by simp_all
          obtain m2 e2 where M: "snd (mark_committed k (m'\<lparr>em_notes := []\<rparr>)) = m2" "em_wf m2" "view m2 k = Some e2"
            "ex_committed_len e2 = ex_len e" "ex_len e2 = ex_len e" "ex_base e2 = ex_base e"
            "ex_generation e2 = ex_generation e" "is_free (ex_state e2) = is_free (ex_state e)"
            "live m2 = (if ex_state e = EActive then live (m'\<lparr>em_notes := []\<rparr>) - {e} \<union> {e2} else live (m'\<lparr>em_notes := []\<rparr>))"
            "region_base m2 = region_base (m'\<lparr>em_notes := []\<rparr>)" "region_len m2 = region_len (m'\<lparr>em_notes := []\<rparr>)"
            by (rule mark_committed_wf [OF v0])
          let ?mg' = "(set_provider p ?mg)\<lparr>mg_map := m2\<rparr>"
          have eq: "alloc_z P sz align fit mg = alloc_finish P k e ?u ?mg'"
            using valid Some c v u True bc Inr M(1) by (simp add: alloc_z_def Let_def)
          obtain prov where f: "alloc_finish P k e ?u ?mg' = Ret (Inr (\<lparr>er_id = k, er_generation = ex_generation e2\<rparr>, prov), ?mg')"
            using alloc_finish_Some [of ?mg' k e2 P e ?u] M(3) by auto
          have l2: "live m2 = insert e2 (live (mg_map mg))" using M(9) e(1) l by auto
          have s2: "ex_state e2 = EActive" using M(8) e(1) by (simp add: is_free_def)
          have "e2 \<notin> live (mg_map mg)"
          proof
            assume "e2 \<in> live (mg_map mg)"
            then have "e2 \<in> live m'" using l by simp
            then have "e2 = e" using v view_geo(1) [OF M(2,3)] by (simp add: live_def)
            then show False using \<open>e2 \<in> live (mg_map mg)\<close> l(2) by simp
          qed
          moreover have "mg_step mg ?mg' (insert e2 (live (mg_map mg)))"
            by (rule mg_stepI [OF wf]) (use M l2 rg cm in auto)
          ultimately have "allocated mg ?mg' sz align \<lparr>er_id = k, er_generation = ex_generation e2\<rparr>"
            unfolding allocated_def using M(3-6) e s2 A(1,3) by (intro exI [of _ e2]) (simp add: resolve_Some)
          then show ?thesis using that(2) eq f by simp
        qed
      qed
    qed
  qed
qed

section \<open>Splitting and growing a live extent\<close>

lemma split_live_set:
  assumes R: "em_rep m (xs @ i # ys) (r # fl) bl" and R': "em_rep m' (xs @ i # r # ys) fl bl'"
    and act: "s_state (slots m i) = EActive" "s_state l = EActive" "s_state t = EActive"
    and di: "slot_data (slots m' i) = slot_data l" and dr: "slot_data (slots m' r) = slot_data t"
    and dj: "\<And>j. j \<noteq> i \<Longrightarrow> j \<noteq> r \<Longrightarrow> slot_data (slots m' j) = slot_data (slots m j)"
  shows "live m' = live m - {snapshot i (slots m i)} \<union> {snapshot i l, snapshot r t}"
proof -
  let ?A = "{k \<in> set (xs @ i # ys). k \<noteq> i \<and> s_state (slots m k) = EActive}"
  have r: "r \<notin> set (xs @ i # ys)" using em_repD(2) [OF R] by auto
  have st: "s_state (slots m' i) = EActive" "s_state (slots m' r) = EActive"
    using slot_data_fields(10) [OF di] slot_data_fields(10) [OF dr] act by simp_all
  have sk: "s_state (slots m' k) = s_state (slots m k)" if "k \<noteq> i" "k \<noteq> r" for k
    by (rule slot_data_fields(10) [OF dj [OF that]])
  have "{k \<in> set (xs @ i # r # ys). s_state (slots m' k) = EActive} = ?A \<union> {i, r}"
  proof (rule set_eqI)
    show "k \<in> {k \<in> set (xs @ i # r # ys). s_state (slots m' k) = EActive} \<longleftrightarrow> k \<in> ?A \<union> {i, r}" for k
      using st sk [of k] r by (cases "k = i"; cases "k = r") auto
  qed
  moreover have "(\<lambda>k. snapshot k (slots m' k)) ` ?A = (\<lambda>k. snapshot k (slots m k)) ` ?A"
    using r by (intro image_cong refl snapshot_data dj) auto
  ultimately have "live m' = (\<lambda>k. snapshot k (slots m k)) ` ?A \<union> {snapshot i l, snapshot r t}"
    unfolding live_eq [OF R'] by (simp add: image_Un snapshot_data [OF di] snapshot_data [OF dr])
  moreover have "(\<lambda>k. snapshot k (slots m k)) ` ?A = live m - {snapshot i (slots m i)}"
    unfolding live_eq [OF R] by (auto dest: arg_cong [of _ _ ex_id])
  ultimately show ?thesis by simp
qed

lemma split_in_invalid:
  assumes R: "em_rep m al fl bl" and "i \<notin> set al \<or> p = 0 \<or> s_len (slots m i) \<le> p \<or> \<not> PAGE_SIZE dvd p \<or> fl = []"
  shows "split_in i p m = None"
  using assms(2) pop_slot_None em_repD(5) [OF R]
  by (auto simp: split_in_def em_rep_view [OF R])

lemma split_active_wf:
  assumes wf: "em_wf m" and e: "view m i = Some e" "ex_state e = EActive" "ex_committed_len e = ex_len e"
  obtains "split_in i p m = None"
  | r m' l t where "split_in i p m = Some (r, m')" and "em_wf m'" and "view m' i = Some l" and "view m' r = Some t"
    and "0 < p" and "ex_len l = p" and "ex_base l = ex_base e" and "ex_committed_len l = ex_len l"
    and "ex_base t = ex_base e + p" and "ex_len t + p = ex_len e" and "ex_committed_len t = ex_len t"
    and "live m' = live m - {e} \<union> {l, t}"
    and "region_base m' = region_base m" and "region_len m' = region_len m"
proof -
  obtain al fl bl where R: "em_rep m al fl bl" using wf by (auto simp: em_wf_def)
  note V = view_rep [OF R e(1)]
  obtain xs ys where al: "al = xs @ i # ys" using V(1) by (meson split_list)
  show ?thesis
  proof (cases "p = 0 \<or> s_len (slots m i) \<le> p \<or> \<not> PAGE_SIZE dvd p \<or> fl = []")
    case True
    then have "split_in i p m = None" by (intro split_in_invalid [OF R]) simp
    then show ?thesis by (rule that(1))
  next
    case False
    then obtain r fl' where fl: "fl = r # fl'" by (cases fl) auto
    have p: "0 < p" "p < s_len (slots m i)" "PAGE_SIZE dvd p" using False by auto
    let ?l = "left_half (slots m i) p" and ?t = "right_half (slots m i) p (slots m r)"
    show ?thesis
    proof (rule split_in_rep [OF R [unfolded al fl] p])
      fix m' bl'
      assume S: "split_in i p m = Some (r, m')" "em_rep m' (xs @ i # r # ys) fl' bl'"
        "slot_data (slots m' i) = slot_data ?l" "slot_data (slots m' r) = slot_data ?t"
        "\<And>j. j \<noteq> i \<Longrightarrow> j \<noteq> r \<Longrightarrow> slot_data (slots m' j) = slot_data (slots m j)"
        "region_base m' = region_base m" "region_len m' = region_len m"
      have st: "s_state (slots m i) = EActive" "s_state ?l = EActive" "s_state ?t = EActive"
        using e(2) V(2) by (simp_all add: left_half_def right_half_def)
      have v: "view m' i = Some (snapshot i ?l)" "view m' r = Some (snapshot r ?t)"
        using em_rep_view [OF S(2)] snapshot_data [OF S(3)] snapshot_data [OF S(4)] by simp_all
      have lv: "live m' = live m - {e} \<union> {snapshot i ?l, snapshot r ?t}"
        using split_live_set [OF R [unfolded al fl] S(2) st S(3-5)] V(2) by simp
      have f: "ex_len (snapshot i ?l) = p" "ex_base (snapshot i ?l) = ex_base e"
        "ex_committed_len (snapshot i ?l) = ex_len (snapshot i ?l)"
        "ex_base (snapshot r ?t) = ex_base e + p" "ex_len (snapshot r ?t) + p = ex_len e"
        "ex_committed_len (snapshot r ?t) = ex_len (snapshot r ?t)"
        using p(2) e(3) V(2) by (simp_all add: left_half_def right_half_def)
      show ?thesis by (rule that(2) [OF S(1) em_wfI [OF S(2)] v p(1) f lv S(6,7)])
    qed
  qed
qed

lemma split_tail_spec:
  assumes wf: "mgr_wf mg"
  obtains err mg' where "split_tail P r p mg = Ret (Inl err, mg')" and "mg_step mg mg' (live (mg_map mg))"
  | e t l r' mg' where "split_tail P r p mg = Ret (Inr r', mg')" and "resolve (mg_map mg) r = Some e"
    and "resolve (mg_map mg') r' = Some t" and "ex_len l = p" and "ex_base l = ex_base e"
    and "ex_base t = ex_base e + p" and "ex_len t + p = ex_len e" and "e \<in> live (mg_map mg)"
    and "mg_step mg mg' (live (mg_map mg) - {e} \<union> {l, t})"
proof (cases "resolve (mg_map mg) r")
  case None
  then show ?thesis using that(1) mg_step_refl [OF wf] by (simp add: split_tail_def)
next
  case (Some e)
  have wm: "em_wf (mg_map mg)" and cm: "\<And>e. e \<in> live (mg_map mg) \<Longrightarrow> ex_committed_len e = ex_len e"
    using wf by (auto simp: mgr_wf_def)
  have v: "view (mg_map mg) (er_id r) = Some e" using Some by (simp add: resolve_Some)
  show ?thesis
  proof (cases "ex_state e = EActive")
    case False
    then show ?thesis using that(1) mg_step_refl [OF wf] Some by (simp add: split_tail_def)
  next
    case True
    have el: "e \<in> live (mg_map mg)" using view_live [OF v] True by simp
    show ?thesis
    proof (rule split_active_wf [OF wm v True cm [OF el], of p])
      assume "split_in (er_id r) p (mg_map mg) = None"
      then show ?thesis using that(1) mg_step_refl [OF wf] Some True by (simp add: split_tail_def)
    next
      fix k m' l t
      assume S: "split_in (er_id r) p (mg_map mg) = Some (k, m')" "em_wf m'" "view m' (er_id r) = Some l" "view m' k = Some t"
        "0 < p" "ex_len l = p" "ex_base l = ex_base e" "ex_committed_len l = ex_len l"
        "ex_base t = ex_base e + p" "ex_len t + p = ex_len e" "ex_committed_len t = ex_len t"
        "live m' = live (mg_map mg) - {e} \<union> {l, t}"
        "region_base m' = region_base (mg_map mg)" "region_len m' = region_len (mg_map mg)"
      let ?r = "\<lparr>er_id = k, er_generation = ex_generation t\<rparr>"
      have eq: "split_tail P r p mg = Ret (Inr ?r, set_map P m' mg)"
        using Some True S(1,4) by (simp add: split_tail_def Let_def)
      have res: "resolve (mg_map (set_map P m' mg)) ?r = Some t" using S(4) by (simp add: resolve_Some)
      have "mg_step mg (set_map P m' mg) (live (mg_map mg) - {e} \<union> {l, t})"
        by (rule mg_stepI [OF wf]) (use S(2,8,11,12,13,14) cm in auto)
      from that(2) [OF eq Some res S(6,7,9,10) el this] show ?thesis .
    qed
  qed
qed

text \<open>Growing: the free successor is trimmed, committed and absorbed.\<close>

lemma em_rep_addr_next:
  assumes "em_rep m (xs @ i # ys) fl bl"
  shows "em_addr_next m i = (case ys of [] \<Rightarrow> None | r # _ \<Rightarrow> Some r)"
proof -
  have "chain (anx m) (apv m) NIL (xs @ i # ys) NIL" "NIL \<notin> set (xs @ i # ys)"
    using em_repD(4) [OF assms] by (simp_all add: addr_ok_def)
  then show ?thesis using chain_links(2) [of "anx m" "apv m" NIL xs i ys NIL]
    by (cases ys) (auto simp: em_addr_next_def Let_def)
qed

definition op_failed :: "'p ExtentManager \<Rightarrow> ('p, 'a) mg_result outcome \<Rightarrow> bool" where
  "op_failed mg res \<longleftrightarrow> (\<exists>err mg'. res = Ret (Inl err, mg') \<and> mg_step mg mg' (live (mg_map mg)))"

definition grown :: "'p ExtentManager \<Rightarrow> ExtentId \<Rightarrow> Extent \<Rightarrow> usize \<Rightarrow> ('p, unit) mg_result outcome \<Rightarrow> bool" where
  "grown mg i e add res \<longleftrightarrow> (\<exists>e' mg'. res = Ret (Inr (), mg') \<and> view (mg_map mg') i = Some e'
     \<and> ex_base e' = ex_base e \<and> ex_len e' = ex_len e + add \<and> ex_generation e' = ex_generation e
     \<and> mg_step mg mg' (live (mg_map mg) - {e} \<union> {e'}))"

lemma op_failed_refl: "mgr_wf mg \<Longrightarrow> op_failed mg (Ret (Inl err, mg))"
  using mg_step_refl by (auto simp: op_failed_def)

lemma grow_absorb_spec:
  assumes wf: "mgr_wf mg" and R: "em_rep (mg_map mg) (xs @ i # r # ys) fl bl"
    and e: "view (mg_map mg) i = Some e" "ex_state e = EActive"
    and f: "is_free (s_state (slots (mg_map mg) r))" "s_committed_len (slots (mg_map mg) r) = s_len (slots (mg_map mg) r)"
  shows "grown mg i e (s_len (slots (mg_map mg) r)) (Ret (grow_absorb P i r mg))"
proof -
  let ?m = "mg_map mg" and ?n = "absorb_next_in i r (mg_map mg)"
  have cm: "\<And>e. e \<in> live ?m \<Longrightarrow> ex_committed_len e = ex_len e" using wf by (auto simp: mgr_wf_def)
  have ei: "e = snapshot i (slots ?m i)" using view_rep(2) [OF R e(1)] .
  have "ex_committed_len e = ex_len e" using cm view_live [OF e(1)] e(2) by blast
  then have c: "s_state (slots ?m i) = EActive" "s_committed_len (slots ?m i) = s_len (slots ?m i)"
    using e(2) ei by simp_all
  show ?thesis
  proof (rule absorb_next_in_rep [OF R c(1) f(1) c(2) f(2)])
    fix bl' s
    assume A: "em_rep ?n (xs @ i # ys) (r # fl) bl'" "live ?n = live ?m - {snapshot i (slots ?m i)} \<union> {snapshot i s}"
      "s_base s = s_base (slots ?m i)" "s_len s = s_len (slots ?m i) + s_len (slots ?m r)"
      "s_committed_len s = s_len s" "s_state s = EActive" "s_generation s = s_generation (slots ?m i)"
      "region_base ?n = region_base ?m" "region_len ?n = region_len ?m"
    have lv: "live ?n = live ?m - {e} \<union> {snapshot i s}" using A(2) ei by simp
    have "snapshot i s \<in> live ?n" using lv by simp
    then have v: "view (mg_map (set_map P ?n mg)) i = Some (snapshot i s)" by (simp add: live_def)
    have "mg_step mg (set_map P ?n mg) (live ?m - {e} \<union> {snapshot i s})"
      by (rule mg_stepI [OF wf]) (use em_wfI [OF A(1)] lv A(5,8,9) cm in auto)
    then show ?thesis
      unfolding grown_def using v A(3,4,7) ei
      by (intro exI [of _ "snapshot i s"] exI [of _ "set_map P ?n mg"]) (simp add: grow_absorb_def)
  qed
qed

lemma grown_trans: "mg_step mg mg1 (live (mg_map mg)) \<Longrightarrow> grown mg1 i e add res \<Longrightarrow> grown mg i e add res"
  by (fastforce simp: grown_def mg_step_def)

lemma op_failed_trans: "mg_step mg mg1 (live (mg_map mg)) \<Longrightarrow> op_failed mg1 res \<Longrightarrow> op_failed mg res"
  by (fastforce simp: op_failed_def mg_step_def)

lemma grow_commit_spec:
  assumes wf: "mgr_wf mg" and R: "em_rep (mg_map mg) (xs @ i # r # ys) fl bl"
    and e: "view (mg_map mg) i = Some e" "ex_state e = EActive"
    and f: "is_free (s_state (slots (mg_map mg) r))"
  shows "op_failed mg (grow_commit P i r mg)
    \<or> grown mg i e (s_len (slots (mg_map mg) r)) (grow_commit P i r mg)"
proof -
  let ?m = "mg_map mg" and ?al = "xs @ i # r # ys"
  have la: "r \<in> set ?al" by simp
  have ir: "i \<noteq> r" using em_repD(4) [OF R] by (auto simp: addr_ok_def)
  have wm: "em_wf ?m" and cm: "\<And>e. e \<in> live ?m \<Longrightarrow> ex_committed_len e = ex_len e"
    using wf by (auto simp: mgr_wf_def)
  define ne where "ne = snapshot r (slots ?m r)"
  have vr: "view ?m r = Some ne" by (simp add: em_rep_view [OF R] ne_def)
  let ?u = "ex_len ne - ex_committed_len ne"
  have u: "wrapping_sub 64 (ex_len ne) (ex_committed_len ne) = ?u" by (rule uncommitted_eq [OF wm vr])
  show ?thesis
  proof (cases "?u > 0")
    case False
    then have "grow_commit P i r mg = Ret (grow_absorb P i r mg)" using vr u by (simp add: grow_commit_def)
    moreover have "s_committed_len (slots ?m r) = s_len (slots ?m r)"
      using False view_geo(2,6) [OF wm vr] by (auto simp: ne_def)
    ultimately show ?thesis using grow_absorb_spec [OF wf R e f] by simp
  next
    case True
    obtain res p where bc: "bp_commit P (mg_provider mg) (mg_region mg)
        (wrapping_add 64 (sub_offset mg (ex_base ne)) (ex_committed_len ne)) ?u = (res, p)"
      by fastforce
    show ?thesis
    proof (cases res)
      case (Inl err)
      let ?mg' = "set_map P (snd (coalesce_in r ?m)) (set_provider p mg)"
      have eq: "grow_commit P i r mg = Ret (Inl (ExBackend err), ?mg')"
        using True vr u bc Inl by (simp add: grow_commit_def Let_def)
      have fr: "is_free (ex_state ne)" using f by (simp add: ne_def)
      note C = coalesce_wf [OF wm vr fr]
      have "mg_step mg ?mg' (live ?m)" by (rule mg_stepI [OF wf]) (use C cm in simp_all)
      with eq show ?thesis by (auto simp: op_failed_def)
    next
      case (Inr un)
      show ?thesis
      proof (rule mark_committed_rep [OF R la])
        fix m2 bl2 s
        assume M: "mark_committed r ?m = (s_len (slots ?m r) - s_committed_len (slots ?m r), m2)"
          "em_rep m2 ?al fl bl2" "slots m2 = (slots ?m)(r := s)"
          "s_committed_len s = s_len (slots ?m r)" "s_len s = s_len (slots ?m r)"
          "is_free (s_state s) = is_free (s_state (slots ?m r))"
          "live m2 = live ?m - {snapshot r (slots ?m r)} \<union> (if s_state s = EActive then {snapshot r s} else {})"
          "region_base m2 = region_base ?m" "region_len m2 = region_len ?m"
        let ?mg2 = "(set_provider p mg)\<lparr>mg_map := m2\<rparr>"
        have lv: "live m2 = live ?m"
          using M(6,7) f view_live [OF vr] by (auto simp: ne_def is_free_def)
        have st: "mg_step mg ?mg2 (live ?m)"
          by (rule mg_stepI [OF wf]) (use em_wfI [OF M(2)] lv cm M(8,9) in simp_all)
        have "view m2 i = Some e"
          using view_rep(2) [OF R e(1)] M(3) ir by (simp add: em_rep_view [OF M(2)])
        then have "grown ?mg2 i e (s_len s) (Ret (grow_absorb P i r ?mg2))"
          using grow_absorb_spec [of ?mg2 xs i r ys fl bl2 e P] st M(2-6) f e(2)
          by (simp add: mg_step_def)
        then have "grown mg i e (s_len (slots ?m r)) (Ret (grow_absorb P i r ?mg2))"
          using grown_trans [OF st] M(5) by simp
        moreover have "grow_commit P i r mg = Ret (grow_absorb P i r ?mg2)"
          using True vr u bc Inr M(1) by (simp add: grow_commit_def Let_def)
        ultimately show ?thesis by simp
      qed
    qed
  qed
qed

lemma split_free_step:
  assumes wf: "mgr_wf mg" and R: "em_rep (mg_map mg) (xs @ i # r # ys) (q # fl) bl"
    and f: "is_free (s_state (slots (mg_map mg) r))"
    and p: "0 < p" "p < s_len (slots (mg_map mg) r)" "PAGE_SIZE dvd p"
  obtains m' bl' where "split_in r p (mg_map mg) = Some (q, m')"
    and "em_rep m' (xs @ i # r # q # ys) fl bl'" and "is_free (s_state (slots m' r))" and "s_len (slots m' r) = p"
    and "mg_step mg (set_map P m' mg) (live (mg_map mg))"
proof -
  have R2: "em_rep (mg_map mg) ((xs @ [i]) @ r # ys) (q # fl) bl" using R by simp
  have cm: "\<And>e. e \<in> live (mg_map mg) \<Longrightarrow> ex_committed_len e = ex_len e" using wf by (auto simp: mgr_wf_def)
  show ?thesis
  proof (rule split_in_live [OF R2 f p])
    fix m' bl'
    assume S: "split_in r p (mg_map mg) = Some (q, m')" "em_rep m' ((xs @ [i]) @ r # q # ys) fl bl'"
      "live m' = live (mg_map mg)" "is_free (s_state (slots m' r))" "s_len (slots m' r) = p"
      "region_base m' = region_base (mg_map mg)" "region_len m' = region_len (mg_map mg)"
    have "mg_step mg (set_map P m' mg) (live (mg_map mg))"
      by (rule mg_stepI [OF wf]) (use em_wfI [OF S(2)] S(3,6,7) cm in simp_all)
    with that [OF S(1) _ S(4,5)] S(2) show ?thesis by simp
  qed
qed

text \<open>The cases of \<open>grow_in_place\<close>: an error, nothing to do, or the trimmed neighbour is taken.\<close>

lemma grow_in_place_cases:
  assumes "align_up n PAGE_SIZE = Some k" and "resolve (mg_map mg) r = Some e" and "ex_state e = EActive"
    and "ex_len e < k" and "em_addr_next (mg_map mg) (er_id r) = Some nx" and "view (mg_map mg) nx = Some nv"
    and "is_free (ex_state nv)" and "k - ex_len e \<le> ex_len nv"
  shows "grow_in_place P r n mg =
    (if ex_len nv > k - ex_len e
     then (case split_in nx (k - ex_len e) (mg_map mg) of
             None \<Rightarrow> Ret (Inl ExExhausted, mg)
           | Some (_, m) \<Rightarrow> grow_commit P (er_id r) nx (set_map P m mg))
     else grow_commit P (er_id r) nx mg)"
  using assms by (auto simp: grow_in_place_def Let_def split: option.splits)

lemma grow_taken:
  assumes wf: "mgr_wf mg" and R: "em_rep (mg_map mg) (xs @ er_id r # nx # zs) fl bl"
    and n: "align_up n PAGE_SIZE = Some k" and e: "resolve (mg_map mg) r = Some e" "ex_state e = EActive" "ex_len e < k"
    and nv: "is_free (s_state (slots (mg_map mg) nx))" "k - ex_len e \<le> s_len (slots (mg_map mg) nx)"
  shows "op_failed mg (grow_in_place P r n mg) \<or> grown mg (er_id r) e (k - ex_len e) (grow_in_place P r n mg)"
proof -
  let ?m = "mg_map mg" and ?add = "k - ex_len e"
  have v: "view ?m (er_id r) = Some e" using e(1) by (simp add: resolve_Some)
  have vn: "view ?m nx = Some (snapshot nx (slots ?m nx))" by (simp add: em_rep_view [OF R])
  have an: "em_addr_next ?m (er_id r) = Some nx" using em_rep_addr_next [OF R] by simp
  note eq = grow_in_place_cases [OF n e an vn, of P, simplified, OF nv]
  have "PAGE_SIZE dvd ex_len e"
    using em_rep_geo(5) [OF R view_rep(1) [OF R v]] view_rep(2) [OF R v] by simp
  then have dvd: "PAGE_SIZE dvd ?add" using align_up_Some(2) [OF page_size_laws(1,2) n] by (rule dvd_diff_nat [rotated])
  show ?thesis
  proof (cases "?add < s_len (slots ?m nx)")
    case False
    then have "s_len (slots ?m nx) = ?add" "grow_in_place P r n mg = grow_commit P (er_id r) nx mg"
      using nv(2) eq by simp_all
    then show ?thesis using grow_commit_spec [OF wf R v e(2) nv(1), of P] by simp
  next
    case True
    show ?thesis
    proof (cases fl)
      case Nil
      then have "split_in nx ?add ?m = None" by (intro split_in_invalid [OF R]) simp
      then show ?thesis using eq True mg_step_refl [OF wf] by (auto simp: op_failed_def)
    next
      case (Cons q fl')
      show ?thesis
      proof (rule split_free_step [OF wf R [unfolded Cons] nv(1) _ True dvd, of P])
        fix m' bl'
        assume S: "split_in nx ?add ?m = Some (q, m')" "em_rep m' (xs @ er_id r # nx # q # zs) fl' bl'"
          "is_free (s_state (slots m' nx))" "s_len (slots m' nx) = ?add" "mg_step mg (set_map P m' mg) (live ?m)"
        let ?mg = "set_map P m' mg"
        have wf': "mgr_wf ?mg" "live m' = live ?m" using S(5) by (simp_all add: mg_step_def)
        have "e \<in> live m'" using view_live [OF v] e(2) wf'(2) by simp
        moreover have "ex_id e = er_id r" using view_rep(2) [OF R v] by simp
        ultimately have "view (mg_map ?mg) (er_id r) = Some e" by (simp add: live_def)
        then have "op_failed ?mg (grow_commit P (er_id r) nx ?mg) \<or> grown ?mg (er_id r) e ?add (grow_commit P (er_id r) nx ?mg)"
          using grow_commit_spec [of ?mg xs "er_id r" nx "q # zs" fl' bl' e P] wf' S(2-4) e(2) by simp
        then show ?thesis
          using eq True S(1) op_failed_trans [OF S(5)] grown_trans [OF S(5)] by auto
      qed (use e(3) in simp)
    qed
  qed
qed

lemma grow_in_place_spec:
  assumes wf: "mgr_wf mg"
  shows "op_failed mg (grow_in_place P r n mg)
    \<or> (\<exists>e. resolve (mg_map mg) r = Some e \<and> n \<le> ex_len e \<and> grow_in_place P r n mg = Ret (Inr (), mg))
    \<or> (\<exists>e add. resolve (mg_map mg) r = Some e \<and> ex_state e = EActive \<and> n \<le> ex_len e + add
         \<and> grown mg (er_id r) e add (grow_in_place P r n mg))"
proof -
  let ?m = "mg_map mg"
  show ?thesis
  proof (cases "align_up n PAGE_SIZE")
    case None
    then show ?thesis by (simp add: grow_in_place_def op_failed_refl [OF wf])
  next
    case n: (Some k)
    have nk: "n \<le> k" using align_up_Some(1) [OF page_size_laws(1,2) n] .
    show ?thesis
    proof (cases "resolve ?m r")
      case None
      then show ?thesis using n by (simp add: grow_in_place_def op_failed_refl [OF wf])
    next
      case (Some e)
      have v: "view ?m (er_id r) = Some e" using Some by (simp add: resolve_Some)
      obtain al fl bl where R: "em_rep ?m al fl bl" using wf by (auto simp: mgr_wf_def em_wf_def)
      obtain xs ys where al: "al = xs @ er_id r # ys" using view_rep(1) [OF R v] by (meson split_list)
      consider "ex_state e \<noteq> EActive" | "ex_state e = EActive" "k \<le> ex_len e"
        | "ex_state e = EActive" "ex_len e < k" "ys = []"
        | nx zs where "ex_state e = EActive" "ex_len e < k" "ys = nx # zs"
        by (cases ys) force+
      then show ?thesis
      proof cases
        case 1
        then show ?thesis using n Some by (simp add: grow_in_place_def op_failed_refl [OF wf])
      next
        case 2
        then have "grow_in_place P r n mg = Ret (Inr (), mg)" using n Some by (simp add: grow_in_place_def)
        then show ?thesis using Some 2 nk by auto
      next
        case 3
        then show ?thesis using n Some em_rep_addr_next [OF R [unfolded al]]
          by (simp add: grow_in_place_def Let_def op_failed_refl [OF wf])
      next
        case (4 nx zs)
        note R = R [unfolded al 4(3)]
        show ?thesis
        proof (cases "is_free (s_state (slots ?m nx)) \<and> k - ex_len e \<le> s_len (slots ?m nx)")
          case True
          then have "op_failed mg (grow_in_place P r n mg) \<or> grown mg (er_id r) e (k - ex_len e) (grow_in_place P r n mg)"
            using grow_taken [OF wf R n Some 4(1,2)] by blast
          moreover have "n \<le> ex_len e + (k - ex_len e)" using nk 4(2) by simp
          ultimately show ?thesis using Some 4(1) by blast
        next
          case False
          have "em_addr_next ?m (er_id r) = Some nx" "view ?m nx = Some (snapshot nx (slots ?m nx))"
            using em_rep_addr_next [OF R] by (simp_all add: em_rep_view [OF R])
          then have "grow_in_place P r n mg = Ret (Inl ExExhausted, mg)"
            using False n Some 4(1,2) by (auto simp: grow_in_place_def Let_def)
          then show ?thesis by (simp add: op_failed_refl [OF wf])
        qed
      qed
    qed
  qed
qed

section \<open>Freeing and physical state changes\<close>

lemma free_canary_spec:
  assumes wf: "mgr_wf mg"
  shows "(case resolve (mg_map mg) r of
      None \<Rightarrow> free_canary P fp r cy mg = (Inl ExStale, mg)
    | Some e \<Rightarrow> if ex_state e \<noteq> EActive then free_canary P fp r cy mg = (Inl ExNotFree, mg)
        else \<exists>mg'. free_canary P fp r cy mg = (Inr (), mg') \<and> mg_step mg mg' (live (mg_map mg) - {e}))"
proof (cases "resolve (mg_map mg) r")
  case None
  then show ?thesis by (simp add: free_canary_def)
next
  case (Some e)
  let ?m = "mg_map mg" and ?i = "er_id r"
  have wm: "em_wf ?m" and cm: "\<And>e. e \<in> live ?m \<Longrightarrow> ex_committed_len e = ex_len e"
    using wf by (auto simp: mgr_wf_def)
  have v: "view ?m ?i = Some e" using Some by (simp add: resolve_Some)
  show ?thesis
  proof (cases "ex_state e = EActive")
    case False
    then show ?thesis using Some by (simp add: free_canary_def)
  next
    case True
    have full: "ex_committed_len e = ex_len e" using cm view_live [OF v] True by blast
    note F = free_wf [OF wm v True, of EDirty cy]
    have dirty: "mg_step mg (set_map P (snd (free_in_canary ?i EDirty cy ?m)) mg2) (live ?m - {e})"
      if "mg_region mg2 = mg_region mg" for mg2
      by (rule mg_stepI [OF wf]) (use F full cm that in simp_all)
    obtain m1 e1 where D: "snd (mark_decommitted ?i EActive ?m) = m1" "em_wf m1" "view m1 ?i = Some e1"
      "ex_committed_len e1 = 0" "ex_state e1 = EActive" "ex_base e1 = ex_base e" "ex_len e1 = ex_len e"
      "live m1 = (if ex_state e = EActive then live ?m - {e} \<union> {e1} else live ?m)"
      "region_base m1 = region_base ?m" "region_len m1 = region_len ?m"
      by (rule mark_decommitted_wf [OF wm v, of EActive]) (use True in simp_all)
    note F1 = free_wf [OF D(2,3,5), of EReleased False, folded free_in_def]
    have "e1 \<notin> live ?m - {e}"
      using v view_geo(1) [OF D(2,3)] by (auto simp: live_def)
    then have "live m1 - {e1} = live ?m - {e}" using D(8) True by auto
    then have rel: "mg_step mg (set_map P (snd (free_in ?i EReleased m1)) mg2) (live ?m - {e})"
      if "mg_region mg2 = mg_region mg" for mg2
      by (intro mg_stepI [OF wf]) (use F1 D(4,9,10) cm that in simp_all)
    have "\<exists>mg'. free_canary P fp r cy mg = (Inr (), mg') \<and> mg_step mg mg' (live ?m - {e})"
    proof (cases "if fp then Unmap else mg_retain mg")
      case Retain
      then show ?thesis using Some True dirty [of mg] by (simp add: free_canary_def)
    next
      case Unmap
      obtain res p where bd: "bp_decommit P (mg_provider mg) (mg_region mg) (sub_offset mg (ex_base e)) (ex_committed_len e) = (res, p)"
        by fastforce
      show ?thesis
        using Some True Unmap bd D(1) dirty [of "set_provider p mg"] rel [of "set_provider p mg"]
        by (cases res) (simp_all add: free_canary_def Let_def)
    qed
    then show ?thesis using Some True by simp
  qed
qed

lemma mg_commit_step:
  assumes wf: "mgr_wf mg"
  shows "mg_step mg (snd (mg_commit P r mg)) (live (mg_map mg))"
proof (cases "resolve (mg_map mg) r")
  case None
  then show ?thesis using mg_step_refl [OF wf] by (simp add: mg_commit_def)
next
  case (Some e)
  let ?m = "mg_map mg" and ?u = "ex_len e - ex_committed_len e"
  have wm: "em_wf ?m" and cm: "\<And>e. e \<in> live ?m \<Longrightarrow> ex_committed_len e = ex_len e"
    using wf by (auto simp: mgr_wf_def)
  have v: "view ?m (er_id r) = Some e" using Some by (simp add: resolve_Some)
  note u = uncommitted_eq [OF wm v]
  obtain res p where bc: "bp_commit P (mg_provider mg) (mg_region mg)
      (wrapping_add 64 (sub_offset mg (ex_base e)) (ex_committed_len e)) ?u = (res, p)" by fastforce
  show ?thesis
  proof (cases "?u > 0")
    case False
    then show ?thesis using mg_step_refl [OF wf] Some u by (simp add: mg_commit_def)
  next
    case True
    then have na: "ex_state e \<noteq> EActive" using cm view_live [OF v] by force
    obtain m' e' where M: "snd (mark_committed (er_id r) ?m) = m'" "em_wf m'" "view m' (er_id r) = Some e'"
      "ex_committed_len e' = ex_len e" "ex_len e' = ex_len e" "ex_base e' = ex_base e"
      "ex_generation e' = ex_generation e" "is_free (ex_state e') = is_free (ex_state e)"
      "live m' = (if ex_state e = EActive then live ?m - {e} \<union> {e'} else live ?m)"
      "region_base m' = region_base ?m" "region_len m' = region_len ?m"
      by (rule mark_committed_wf [OF wm v])
    have "mg_step mg ((set_provider p mg)\<lparr>mg_map := m'\<rparr>) (live ?m)"
      by (rule mg_stepI [OF wf]) (use M na cm in simp_all)
    then show ?thesis using True Some u bc M(1) mg_step_provider [OF wf]
      by (cases res) (simp_all add: mg_commit_def Let_def)
  qed
qed

lemma decommit_to_released_step:
  assumes wf: "mgr_wf mg" and v: "view (mg_map mg) (er_id r) = Some e" and f: "is_free (ex_state e)"
  shows "mg_step mg (snd (decommit_to_released P r e mg)) (live (mg_map mg))"
proof -
  let ?m = "mg_map mg"
  have wm: "em_wf ?m" and cm: "\<And>e. e \<in> live ?m \<Longrightarrow> ex_committed_len e = ex_len e"
    using wf by (auto simp: mgr_wf_def)
  note G = view_geo [OF wm v]
  have st: "is_free EReleased" "\<not> is_backed EReleased" by (simp_all add: is_free_def is_backed_def)
  obtain m' e' where D: "snd (mark_decommitted (er_id r) EReleased ?m) = m'" "em_wf m'" "view m' (er_id r) = Some e'"
    "ex_committed_len e' = 0" "ex_state e' = EReleased" "ex_base e' = ex_base e" "ex_len e' = ex_len e"
    "live m' = (if ex_state e = EActive then live ?m - {e} \<union> {e'} else live ?m)"
    "region_base m' = region_base ?m" "region_len m' = region_len ?m"
    by (rule mark_decommitted_wf [OF wm v, of EReleased]) (use f st in simp_all)
  have "ex_state e \<noteq> EActive" using f by simp
  then have "mg_step mg ((set_provider p mg)\<lparr>mg_map := m'\<rparr>) (live ?m)" for p
    by (intro mg_stepI [OF wf]) (use D cm in simp_all)
  moreover have "mg_step mg (mg\<lparr>mg_map := snd (em_set_state (er_id r) EReleased ?m)\<rparr>) (live ?m)"
    if "ex_committed_len e = 0"
    by (rule mg_stepI [OF wf])
      (use em_set_state_wf [OF wm v f st(1)] that st G(2) cm in simp_all)
  ultimately show ?thesis
    using mg_step_provider [OF wf] D(1)
    by (auto simp: decommit_to_released_def split: prod.splits sum.splits)
qed

lemma mg_decommit_step:
  assumes wf: "mgr_wf mg"
  shows "mg_step mg (snd (mg_decommit P r mg)) (live (mg_map mg))"
  using mg_step_refl [OF wf] decommit_to_released_step [OF wf]
  by (auto simp: mg_decommit_def resolve_Some split: option.splits)

lemma mg_release_step:
  assumes wf: "mgr_wf mg"
  shows "mg_step mg (snd (mg_release P r mg)) (live (mg_map mg))"
proof -
  have wf': "mgr_wf (set_provider p mg)" for p using wf by (simp add: mgr_wf_def)
  have d: "mg_step mg (snd (decommit_to_released P r e (set_provider p mg))) (live (mg_map mg))"
    if "view (mg_map mg) (er_id r) = Some e" "is_free (ex_state e)" for e p
    using decommit_to_released_step [OF wf', of p r e P] that by (simp add: mg_step_def)
  show ?thesis
    using mg_step_refl [OF wf] mg_step_provider [OF wf] d
    by (auto simp: mg_release_def resolve_Some Let_def split: option.splits prod.splits sum.splits)
qed

lemma to_muzzy_step:
  assumes wf: "mgr_wf mg" and v: "view (mg_map mg) i = Some e" and f: "is_free (ex_state e)"
    and c: "ex_committed_len e > 0"
  shows "mg_step mg ((set_provider p mg)\<lparr>mg_map := snd (em_set_state i EMuzzy (mg_map mg))\<rparr>) (live (mg_map mg))"
proof -
  have wm: "em_wf (mg_map mg)" and cm: "\<And>e. e \<in> live (mg_map mg) \<Longrightarrow> ex_committed_len e = ex_len e"
    using wf by (auto simp: mgr_wf_def)
  have "is_free EMuzzy" "is_backed EMuzzy = (ex_committed_len e = ex_len e)"
    using view_geo(6) [OF wm v] c by (auto simp: is_free_def is_backed_def)
  note S = em_set_state_wf [OF wm v f this]
  show ?thesis by (rule mg_stepI [OF wf]) (use S cm in simp_all)
qed

lemma mg_purge_lazy_step:
  assumes wf: "mgr_wf mg"
  shows "mg_step mg (snd (mg_purge_lazy P r mg)) (live (mg_map mg))"
proof -
  have "ex_committed_len e > 0" if "view (mg_map mg) (er_id r) = Some e" "ex_state e = EDirty" for e
  proof -
    have "em_wf (mg_map mg)" using wf by (simp add: mgr_wf_def)
    from view_geo(2,7) [OF this that(1)] that(2) show ?thesis by (simp add: is_free_def is_backed_def)
  qed
  then show ?thesis
    using mg_step_refl [OF wf] mg_step_provider [OF wf] to_muzzy_step [OF wf]
    by (auto simp: mg_purge_lazy_def resolve_Some split: option.splits prod.splits sum.splits)
qed

lemma mg_purge_forced_step:
  assumes wf: "mgr_wf mg"
  shows "mg_step mg (snd (mg_purge_forced P r mg)) (live (mg_map mg))"
  using mg_step_refl [OF wf] mg_step_provider [OF wf] to_muzzy_step [OF wf]
  by (auto simp: mg_purge_forced_def resolve_Some split: option.splits prod.splits sum.splits)

lemma protect_range_step:
  assumes wf: "mgr_wf mg"
  shows "mg_step mg (snd (protect_range P a len acc mg)) (live (mg_map mg))"
  using mg_step_provider [OF wf] by (simp add: protect_range_def split: prod.splits sum.splits)

lemma set_extent_flags_step:
  assumes wf: "mgr_wf mg"
  shows "set_extent_flags r v mg = (Inl ExStale, mg) \<or>
    (\<exists>L mg'. set_extent_flags r v mg = (Inr (), mg') \<and> mg_step mg mg' L)"
proof (cases "resolve (mg_map mg) r")
  case None
  then show ?thesis by (simp add: set_extent_flags_def)
next
  case (Some e)
  let ?m = "mg_map mg"
  have v: "view ?m (er_id r) = Some e" using Some by (simp add: resolve_Some)
  have cm: "\<And>e. e \<in> live ?m \<Longrightarrow> ex_committed_len e = ex_len e" using wf by (auto simp: mgr_wf_def)
  obtain al fl bl where R: "em_rep ?m al fl bl" using wf by (auto simp: mgr_wf_def em_wf_def)
  note V = view_rep [OF R v]
  note F = set_flags_rep [OF R V(1), of v]
  have "ex_committed_len e = ex_len e" if "s_state (slots ?m (er_id r)) = EActive"
    using cm [of e] view_live [OF v] that V(2) by simp
  then have "ex_committed_len x = ex_len x" if "x \<in> live (set_flags (er_id r) v ?m)" for x
    using that cm V(2) unfolding F(2) by (auto split: if_splits)
  then have "mg_step mg (mg\<lparr>mg_map := set_flags (er_id r) v ?m\<rparr>) (live (set_flags (er_id r) v ?m))"
    by (intro mg_stepI [OF wf]) (use F(1) in \<open>auto simp: em_wf_def set_flags_def\<close>)
  then show ?thesis using Some by (auto simp: set_extent_flags_def)
qed

end
