(* ===== verification/ExtentMgr_Run.thy ===== *)
theory ExtentMgr_Run
  imports ExtentMgr_Inv
begin

text \<open>
  Sequences of extent-manager operations (\<open>crates/topo-core/src/extent.rs\<close>): construction
  establishes the invariant, every operation keeps it and never panics, and a failed operation
  leaves the live extents as they were, whatever the provider answers.
\<close>

section \<open>Construction\<close>

lemma em_arena_update [simp]:
  "em_rep (m\<lparr>em_arena := v\<rparr>) al fl bl = em_rep m al fl bl"
  "live (m\<lparr>em_arena := v\<rparr>) = live m"
  by (simp_all add: em_rep_def links_def addr_ok_def bins_ok_def bin_ok_def pool_ok_def binned_def geo_ok_def
      live_def view_def)

lemma em_set_arena_wf:
  assumes wf: "em_wf m"
  shows "em_wf (em_set_arena a m)" and "live m = {} \<Longrightarrow> live (em_set_arena a m) = {}"
    and "region_base (em_set_arena a m) = region_base m" and "region_len (em_set_arena a m) = region_len m"
proof -
  obtain al fl bl where R: "em_rep m al fl bl" using wf by (auto simp: em_wf_def)
  let ?m = "m\<lparr>em_arena := a\<rparr>" and ?h = "addr_head m"
  let ?s = "(slots m ?h)\<lparr>s_arena := a\<rparr>"
  have R': "em_rep ?m al fl bl" using R by simp
  have m': "em_set_arena a m = (put ?h ?s ?m)\<lparr>committed_bytes := committed_bytes ?m\<rparr>" if "?h \<noteq> NIL"
    using that by (simp add: em_set_arena_def put_def Let_def)
  have h: "?h \<in> set al" if "?h \<noteq> NIL"
    using R that by (cases al) (auto simp: em_rep_def links_def addr_ok_def)
  have ok: "slot_ok ?s" if "?h \<noteq> NIL"
    using em_rep_geo [OF R h [OF that]] by (simp add: slot_ok_def)
  have U: "(\<exists>bl'. em_rep (em_set_arena a m) al fl bl') \<and>
      live (em_set_arena a m) = live m - {snapshot ?h (slots m ?h)} \<union> (if s_state ?s = EActive then {snapshot ?h ?s} else {})"
    if n: "?h \<noteq> NIL"
    using update_rep [OF R' h [OF n], of ?s "committed_bytes ?m"] ok [OF n] unfolding m' [OF n] by simp
  have E: "em_set_arena a m = ?m" if "?h = NIL" using that by (simp add: em_set_arena_def)
  show "em_wf (em_set_arena a m)"
    using U E R' by (cases "?h = NIL") (auto simp: em_wf_def)
  show "live (em_set_arena a m) = {}" if "live m = {}"
  proof (cases "?h = NIL")
    case True
    then show ?thesis using E that by simp
  next
    case False
    have "view m ?h = Some (snapshot ?h (slots m ?h))"
      using em_rep_view [OF R] h [OF False] by simp
    then have "s_state (slots m ?h) \<noteq> EActive"
      using view_live that by (fastforce simp: snapshot_def)
    then show ?thesis using U [OF False] that by simp
  qed
  show "region_base (em_set_arena a m) = region_base m" "region_len (em_set_arena a m) = region_len m"
    by (simp_all add: em_set_arena_def Let_def put_def)
qed

lemma ExtentManager_new_wf:
  assumes "ExtentManager_new P alloc policy p mt arena sz align slot_cap = (Inr mg, p', mt')"
  shows "mgr_wf mg" and "live (mg_map mg) = {}" and "\<not> mg_released mg"
proof -
  obtain m rlen where m: "ExtentMap_new alloc mt (rg_base (mg_region mg)) rlen slot_cap = (Some m, mt')"
    and mg: "mg_map mg = em_set_arena arena m" and nr: "\<not> mg_released mg"
    using assms by (auto simp: ExtentManager_new_def split: option.splits if_splits prod.splits sum.splits)
  note N = ExtentMap_new_ok [OF m]
  note A = em_set_arena_wf [OF N(1), of arena]
  show "mgr_wf mg" "live (mg_map mg) = {}" using A N by (simp_all add: mgr_wf_def mg)
  show "\<not> mg_released mg" by (rule nr)
qed

section \<open>Large allocation and revoking frees\<close>

lemma mg_step_set_provider: "mg_step (set_provider p mg) mg' L = mg_step mg mg' L"
  by (simp add: mg_step_def)

lemma alloc_large_spec:
  assumes wf: "mgr_wf mg" and a: "is_usize align" and b: "is_usize bytes"
  obtains err mg' where "alloc_large P hook bytes align hs mg = Ret (Inl err, mg')"
      and "mg_step mg mg' (live (mg_map mg))"
  | rg n where "align_up bytes PAGE_SIZE = Some n" and "hook n align hs = Some rg"
      and "alloc_large P hook bytes align hs mg = Ret (Inr (rg, None, \<lparr>rp_zeroed = False, rp_canary = False\<rparr>), mg)"
  | rg r prov mg' n where "align_up bytes PAGE_SIZE = Some n"
      and "alloc_large P hook bytes align hs mg = Ret (Inr (rg, Some r, prov), mg')"
      and "region_of mg' r = Some rg" and "allocated mg mg' n align r"
proof (cases "bytes = 0 \<or> \<not> is_power_of_two align")
  case True
  then show ?thesis using that(1) mg_step_refl [OF wf] by (simp add: alloc_large_def)
next
  case valid: False
  show ?thesis
  proof (cases "align_up bytes PAGE_SIZE")
    case None
    then show ?thesis using valid that(1) mg_step_refl [OF wf] by (simp add: alloc_large_def)
  next
    case n: (Some n)
    show ?thesis
    proof (cases "hook n align hs")
      case (Some rg)
      then show ?thesis using valid n that(2) by (simp add: alloc_large_def)
    next
      case None
      have u: "is_usize n" using align_up_Some [OF page_size_laws(1,2) n] by simp
      show ?thesis
      proof (rule alloc_z_spec [OF wf a u, of P Best])
        fix err mg' assume "alloc_z P n align Best mg = Ret (Inl err, mg')" "mg_step mg mg' (live (mg_map mg))"
        then show ?thesis using that(1) None n valid by (simp add: alloc_large_def)
      next
        fix r prov mg' assume A: "alloc_z P n align Best mg = Ret (Inr (r, prov), mg')" "allocated mg mg' n align r"
        then obtain e where "resolve (mg_map mg') r = Some e" by (auto simp: allocated_def)
        then obtain rg where "region_of mg' r = Some rg" by (simp add: region_of_def)
        then show ?thesis using that(3) [OF n _ _ A(2)] A(1) None n valid by (simp add: alloc_large_def)
      qed
    qed
  qed
qed

lemma free_revoking_canary_spec:
  assumes wf: "mgr_wf mg"
  shows "(\<exists>err mg'. free_revoking_canary P fp r a cy mg = (Inl err, mg') \<and> mg_step mg mg' (live (mg_map mg)))
    \<or> (\<exists>e mg'. resolve (mg_map mg) r = Some e \<and> free_revoking_canary P fp r a cy mg = (Inr (), mg')
         \<and> mg_step mg mg' (live (mg_map mg) - {e}))"
proof (cases "resolve (mg_map mg) r")
  case None
  then show ?thesis using mg_step_refl [OF wf] by (simp add: free_revoking_canary_def region_of_def)
next
  case (Some e)
  then obtain rg where rg: "region_of mg r = Some rg" by (simp add: region_of_def)
  obtain res p where b: "bp_revoke_descendants P (mg_provider mg) a rg = (res, p)" by fastforce
  have wf': "mgr_wf (set_provider p mg)" using wf by (simp add: mgr_wf_def)
  note F = free_canary_spec [OF wf']
  show ?thesis
  proof (cases res)
    case (Inl err)
    then show ?thesis using rg b mg_step_provider [OF wf] by (simp add: free_revoking_canary_def)
  next
    case (Inr u)
    have "free_revoking_canary P fp r a cy mg = free_canary P fp r cy (set_provider p mg)"
      using rg b Inr by (simp add: free_revoking_canary_def)
    then show ?thesis
      using F [where r = r and P = P and fp = fp and cy = cy] Some mg_step_refl [OF wf'] by (auto simp: mg_step_set_provider split: if_splits)
  qed
qed
section \<open>Sequences of operations\<close>

datatype MgrOp =
  OpAlloc usize usize Fit
| OpAllocLarge usize usize Hints
| OpSplitTail ExtentRef usize
| OpGrow ExtentRef usize
| OpFree ExtentRef bool
| OpFreeRevoking ExtentRef ArenaId bool
| OpCommit ExtentRef
| OpDecommit ExtentRef
| OpPurgeLazy ExtentRef
| OpPurgeForced ExtentRef
| OpRelease ExtentRef
| OpSetFlags ExtentRef nat
| OpProtect addr usize bool

text \<open>The state after an operation and whether it returned \<open>Ok\<close>.\<close>

definition op_result :: "('p, 'a) mg_result \<Rightarrow> bool \<times> 'p ExtentManager" where
  "op_result r = (case r of (Inl _, mg) \<Rightarrow> (False, mg) | (Inr _, mg) \<Rightarrow> (True, mg))"

definition run_mgr_op ::
  "'p TopoBackingProvider \<Rightarrow> (usize \<Rightarrow> usize \<Rightarrow> Hints \<Rightarrow> Region option) \<Rightarrow> bool \<Rightarrow> MgrOp \<Rightarrow>
   'p ExtentManager \<Rightarrow> (bool \<times> 'p ExtentManager) outcome" where
  "run_mgr_op P hook force_purge op mg =
     (case op of
        OpAlloc sz align fit \<Rightarrow> map_outcome op_result (alloc_z P sz align fit mg)
      | OpAllocLarge bytes align hs \<Rightarrow> map_outcome op_result (alloc_large P hook bytes align hs mg)
      | OpSplitTail r prefix_len \<Rightarrow> map_outcome op_result (split_tail P r prefix_len mg)
      | OpGrow r n \<Rightarrow> map_outcome op_result (grow_in_place P r n mg)
      | OpFree r canary \<Rightarrow> Ret (op_result (free_canary P force_purge r canary mg))
      | OpFreeRevoking r arena canary \<Rightarrow> Ret (op_result (free_revoking_canary P force_purge r arena canary mg))
      | OpCommit r \<Rightarrow> Ret (op_result (mg_commit P r mg))
      | OpDecommit r \<Rightarrow> Ret (op_result (mg_decommit P r mg))
      | OpPurgeLazy r \<Rightarrow> Ret (op_result (mg_purge_lazy P r mg))
      | OpPurgeForced r \<Rightarrow> Ret (op_result (mg_purge_forced P r mg))
      | OpRelease r \<Rightarrow> Ret (op_result (mg_release P r mg))
      | OpSetFlags r v \<Rightarrow> Ret (op_result (set_extent_flags r v mg))
      | OpProtect a len accessible \<Rightarrow> Ret (op_result (protect_range P a len accessible mg)))"

fun run_mgr ::
  "'p TopoBackingProvider \<Rightarrow> (usize \<Rightarrow> usize \<Rightarrow> Hints \<Rightarrow> Region option) \<Rightarrow> bool \<Rightarrow> MgrOp list \<Rightarrow>
   'p ExtentManager \<Rightarrow> 'p ExtentManager outcome" where
  "run_mgr P hook force_purge [] mg = Ret mg"
| "run_mgr P hook force_purge (op # ops) mg =
     bind_outcome (run_mgr_op P hook force_purge op mg) (\<lambda>(_, mg). run_mgr P hook force_purge ops mg)"

text \<open>The arguments are machine words.\<close>

definition mgr_op_args :: "MgrOp \<Rightarrow> bool" where
  "mgr_op_args op =
     (case op of
        OpAlloc sz align fit \<Rightarrow> is_usize sz \<and> is_usize align
      | OpAllocLarge bytes align hs \<Rightarrow> is_usize bytes \<and> is_usize align
      | _ \<Rightarrow> True)"

text \<open>An operation returns, keeps the invariant, and on failure keeps the live extents.\<close>

definition op_safe :: "'p ExtentManager \<Rightarrow> (bool \<times> 'p ExtentManager) outcome \<Rightarrow> bool" where
  "op_safe mg res \<longleftrightarrow> (\<exists>ok mg'. res = Ret (ok, mg')
     \<and> (\<exists>L. mg_step mg mg' L \<and> (\<not> ok \<longrightarrow> L = live (mg_map mg))))"

lemma op_safe_err [intro]: "mg_step mg mg' (live (mg_map mg)) \<Longrightarrow> op_safe mg (Ret (op_result (Inl err, mg')))"
  by (auto simp: op_safe_def op_result_def)

lemma op_safe_val [intro]: "mg_step mg mg' L \<Longrightarrow> op_safe mg (Ret (op_result (Inr v, mg')))"
  by (auto simp: op_safe_def op_result_def)

lemma op_safe_Ret: "mg_step mg (snd r) (live (mg_map mg)) \<Longrightarrow> op_safe mg (Ret (op_result r))"
  by (cases r; cases "fst r") (simp_all add: op_safe_err op_safe_val)

lemma run_mgr_op_safe:
  assumes wf: "mgr_wf mg" and a: "mgr_op_args op"
  shows "op_safe mg (run_mgr_op P hook fp op mg)"
proof (cases op)
  case (OpAlloc sz align fit)
  then have u: "is_usize align" "is_usize sz" using a by (simp_all add: mgr_op_args_def)
  have "op_safe mg (map_outcome op_result (alloc_z P sz align fit mg))"
    by (rule alloc_z_spec [OF wf u, of P fit]) (auto simp: allocated_def)
  then show ?thesis by (simp add: run_mgr_op_def OpAlloc)
next
  case (OpAllocLarge bytes align hs)
  then have u: "is_usize align" "is_usize bytes" using a by (simp_all add: mgr_op_args_def)
  have "op_safe mg (map_outcome op_result (alloc_large P hook bytes align hs mg))"
    by (rule alloc_large_spec [OF wf u, of P hook hs])
      (auto intro: op_safe_val [OF mg_step_refl [OF wf]] simp: allocated_def)
  then show ?thesis by (simp add: run_mgr_op_def OpAllocLarge)
next
  case (OpSplitTail r n)
  have "op_safe mg (map_outcome op_result (split_tail P r n mg))"
    by (rule split_tail_spec [OF wf, of P r n]) auto
  then show ?thesis by (simp add: run_mgr_op_def OpSplitTail)
next
  case (OpGrow r n)
  have "op_safe mg (map_outcome op_result (grow_in_place P r n mg))"
    using grow_in_place_spec [OF wf, of P r n]
    by (auto intro: op_safe_val [OF mg_step_refl [OF wf]] simp: grown_def op_failed_def)
  then show ?thesis by (simp add: run_mgr_op_def OpGrow)
next
  case (OpFree r cy)
  have "op_safe mg (map_outcome op_result (Ret (free_canary P fp r cy mg)))"
    using free_canary_spec [OF wf, where r = r and P = P and fp = fp and cy = cy] mg_step_refl [OF wf]
    by (auto split: option.splits if_splits)
  then show ?thesis by (simp add: run_mgr_op_def OpFree)
next
  case (OpFreeRevoking r ar cy)
  have "op_safe mg (map_outcome op_result (Ret (free_revoking_canary P fp r ar cy mg)))"
    using free_revoking_canary_spec [OF wf, where r = r and P = P and fp = fp and cy = cy and a = ar]
    by auto
  then show ?thesis by (simp add: run_mgr_op_def OpFreeRevoking)
next
  case (OpSetFlags r v)
  have "op_safe mg (map_outcome op_result (Ret (set_extent_flags r v mg)))"
    using set_extent_flags_step [OF wf, of r v] mg_step_refl [OF wf]
    by auto
  then show ?thesis by (simp add: run_mgr_op_def OpSetFlags)
qed (simp_all add: run_mgr_op_def op_safe_Ret mg_commit_step mg_decommit_step mg_purge_lazy_step
    mg_purge_forced_step mg_release_step protect_range_step wf)

lemma run_mgr_wf:
  "mgr_wf mg \<Longrightarrow> list_all mgr_op_args ops \<Longrightarrow> \<exists>mg'. run_mgr P hook fp ops mg = Ret mg' \<and> mgr_wf mg'"
proof (induction ops arbitrary: mg)
  case Nil
  then show ?case by simp
next
  case (Cons op ops)
  then have "op_safe mg (run_mgr_op P hook fp op mg)" using run_mgr_op_safe [of mg op P hook fp] by simp
  then obtain ok mg' where "run_mgr_op P hook fp op mg = Ret (ok, mg')" "mgr_wf mg'"
    by (auto simp: op_safe_def mg_step_def)
  then show ?case using Cons by simp
qed

section \<open>A concrete manager\<close>

definition demo_provider :: "unit TopoBackingProvider" where
  "demo_provider = provider_defaults
     (\<lambda>p arena sz align. (Inr \<lparr>rg_base = 2 ^ 30, rg_len = sz\<rparr>, p))
     (\<lambda>p region offset len. (Inr (), p)) (\<lambda>p arena region. (Inr (), p))"

lemmas extent_eval = pages_for_def align_up_def PAGE_SIZE_def wrapping_sub_def wrapping_add_def checked_add_def
  checked_mul_def USIZE_MAX_def not_usize_def is_power_of_two_def ExtentMap_new_def NIL_def U32_MAX_def
  EXTENT_SLOT_BYTES_def demo_provider_def provider_defaults_def link_free_slots.simps pop_slot_def Let_def
  put_def bin_insert_def bin_of_def bin_index_def em_set_arena_def push_slot_def

lemma bit_length_one: "bit_length (Suc 0) = Suc 0"
  by (simp add: bit_length.simps)

text \<open>A one-page region with a one-slot pool: its only extent in state \<open>st\<close> with \<open>c\<close> committed bytes.\<close>

definition demo_map :: "ExtentState \<Rightarrow> usize \<Rightarrow> usize \<Rightarrow> nat \<Rightarrow> ExtentMap" where
  "demo_map st c f b =
     \<lparr>slots = (\<lambda>_. zero_slot)(0 :=
        \<lparr>s_base = 2 ^ 30, s_len = PAGE_SIZE, s_committed_len = c, s_huge_base = 0, s_huge_len = 0,
         s_arena = ArenaId_DEFAULT, s_split_gen = 0, s_generation = 1, s_flags = 0, addr_prev = NIL,
         addr_next = NIL, bin_prev = NIL, bin_next = NIL, free_next = NIL, s_state = st,
         s_occupied = True, s_canary = False\<rparr>),
      cap = 1, region_base = 2 ^ 30, region_len = PAGE_SIZE, em_arena = ArenaId_DEFAULT, free_slot_head = NIL,
      unused_slots = 0, addr_head = 0, addr_tail = 0, bins = (\<lambda>_. NIL)(1 := b), free_bytes = f,
      committed_bytes = c, em_notes = []\<rparr>"

definition demo_mgr :: "ExtentMap \<Rightarrow> unit ExtentManager" where
  "demo_mgr m = \<lparr>mg_provider = (), mg_region = \<lparr>rg_base = 2 ^ 30, rg_len = PAGE_SIZE\<rparr>,
     mg_arena = ArenaId_DEFAULT, mg_retain = Retain, mg_map = m, mg_released = False\<rparr>"

lemma demo_mgr_new: "ExtentManager_new demo_provider (\<lambda>st n a. (Some 4096, st)) Retain () () ArenaId_DEFAULT
    PAGE_SIZE 1 1 = (Inr (demo_mgr (demo_map EReserved 0 PAGE_SIZE 0)), (), ())"
  by (simp add: ExtentManager_new_def demo_mgr_def demo_map_def extent_eval zero_slot_def bit_length_one)

lemma demo_find_fit: "find_fit (demo_map st c f 0) PAGE_SIZE 1 First = Some (0, 2 ^ 30, 0)"
proof -
  have "[1..<NBINS] = 1 # [2..<NBINS]" by (simp add: upt_conv_Cons NBINS_def numeral_2_eq_2)
  moreover have "bin_index (PAGE_SIZE div PAGE_SIZE) = 1" by (simp add: PAGE_SIZE_def bin_index_def bit_length_one)
  moreover have "fit_hit (demo_map st c f 0) PAGE_SIZE 1 0 = Some (0, 2 ^ 30, 0)"
    by (simp add: fit_hit_def demo_map_def extent_eval)
  moreover have "fit_bin (demo_map st c f 0) PAGE_SIZE 1 First 0 0 None = Inl (Some (0, 2 ^ 30, 0))"
    using calculation(3) by (subst fit_bin.simps) (simp add: NIL_def U32_MAX_def demo_map_def)
  ultimately show ?thesis by (simp add: find_fit_def demo_map_def)
qed

lemma demo_bin_remove: "bin_remove 0 (demo_map st c f 0) = demo_map st c f NIL"
  by (simp add: bin_remove_def demo_map_def extent_eval zero_slot_def bit_length_one)

lemma demo_sel [simp]:
  "s_len (slots (demo_map st c f b) 0) = PAGE_SIZE" "unused_slots (demo_map st c f b) = 0"
  "wrapping_sub 64 PAGE_SIZE 0 = PAGE_SIZE" "wrapping_sub 64 PAGE_SIZE PAGE_SIZE = 0"
  "wrapping_add 64 0 PAGE_SIZE = PAGE_SIZE"
  by (simp_all add: demo_map_def wrapping_sub_def wrapping_add_def PAGE_SIZE_def)

lemma demo_view [simp]:
  "view (demo_map st c f b) 0 = Some \<lparr>ex_id = 0, ex_arena = ArenaId_DEFAULT, ex_base = 2 ^ 30, ex_len = PAGE_SIZE,
     ex_committed_len = c, ex_state = st, ex_huge = \<lparr>hr_base = 0, hr_len = 0\<rparr>, ex_split_generation = 0,
     ex_generation = 1, ex_flags = 0\<rparr>"
  by (simp add: view_def demo_map_def snapshot_def)

lemma demo_put: "(put 0 ((slots (demo_map st c f b) 0)\<lparr>s_state := st'\<rparr>) (demo_map st c f b))\<lparr>free_bytes := f'\<rparr>
    = demo_map st' c f' b"
  by (simp add: demo_map_def put_def)

lemma demo_carve: "carve_in PAGE_SIZE 1 First (demo_map st c PAGE_SIZE 0) = (Some 0, demo_map EActive c 0 NIL)"
proof -
  have "PAGE_SIZE \<noteq> 0" "is_power_of_two 1" "free_bytes (put i s (demo_map st c PAGE_SIZE NIL)) = PAGE_SIZE" for i s
    by (simp_all add: PAGE_SIZE_def is_power_of_two_def demo_map_def)
  then show ?thesis
    by (simp add: carve_in_def demo_find_fit demo_bin_remove Let_def demo_put del: One_nat_def)
qed

lemma demo_free_active: "free_in 0 EActive (demo_map EActive c 0 NIL) = (Some 0, demo_map EActive c PAGE_SIZE 0)"
proof -
  let ?s = "(slots (demo_map EActive c 0 NIL) 0)\<lparr>s_state := EActive, s_canary := False\<rparr>"
  have p: "(put 0 ?s (demo_map EActive c 0 NIL))\<lparr>free_bytes := f\<rparr> = demo_map EActive c f NIL" for f
    by (simp add: demo_map_def put_def)
  have b: "bin_insert 0 (demo_map EActive c f NIL) = demo_map EActive c f 0" for f
    by (simp add: bin_insert_def demo_map_def extent_eval bit_length_one)
  have "coalesce_in 0 (demo_map EActive c f 0) = (0, demo_map EActive c f 0)" for f
    by (simp add: coalesce_in_def demo_map_def)
  moreover have "free_bytes (put 0 ?s (demo_map EActive c 0 NIL)) = 0" by (simp add: demo_map_def)
  ultimately show ?thesis
    by (simp add: free_in_def free_in_canary_def Let_def p b)
qed

lemma demo_mgr_simps [simp]:
  "set_map demo_provider (demo_map st c f b) (demo_mgr m) = demo_mgr (demo_map st c f b)"
  "set_provider u (demo_mgr m) = demo_mgr m" "(demo_mgr m)\<lparr>mg_map := m'\<rparr> = demo_mgr m'" "mg_map (demo_mgr m) = m"
  "bp_commit demo_provider u rg off len = (Inr (), u)"
  by (simp_all add: set_map_def set_provider_def demo_mgr_def demo_provider_def provider_defaults_def demo_map_def)

lemma demo_mark_committed: "snd (mark_committed 0 (demo_map EActive 0 f b)) = demo_map EActive PAGE_SIZE f b"
  by (simp add: mark_committed_def demo_map_def extent_eval is_free_def)

lemma demo_alloc: "\<exists>prov. alloc_z demo_provider PAGE_SIZE 1 First (demo_mgr (demo_map EReserved 0 PAGE_SIZE 0))
    = Ret (Inr (\<lparr>er_id = 0, er_generation = 1\<rparr>, prov), demo_mgr (demo_map EActive PAGE_SIZE 0 NIL))"
proof -
  have "align_up PAGE_SIZE PAGE_SIZE = Some PAGE_SIZE" "0 < PAGE_SIZE" "is_power_of_two 1"
    by (simp_all add: extent_eval)
  then show ?thesis
    using demo_carve [of EReserved 0]
    by (simp add: alloc_z_def alloc_finish_def Let_def demo_mark_committed del: One_nat_def)
qed

section \<open>Properties of reachable managers\<close>

lemma chain_neighbours:
  assumes "chain nx pv n xs n" and "i \<in> set xs" and "j \<in> {pv i, nx i}"
  shows "j = n \<or> j \<in> set xs"
proof -
  obtain ys zs where xs: "xs = ys @ i # zs" using assms(2) by (meson split_list)
  show ?thesis
    using chain_links [OF assms(1) [unfolded xs]] assms(3) by (cases zs; cases ys rule: rev_cases) (auto simp: xs)
qed

lemma em_rep_counters:
  assumes R: "em_rep m al fl bl"
  shows "free_bytes m \<le> region_len m" and "committed_bytes m \<le> region_len m"
proof -
  note G = geo_okD [OF em_repD(8) [OF R]]
  show "free_bytes m \<le> region_len m" "committed_bytes m \<le> region_len m"
    unfolding G(3,4) em_rep_sums(1) [OF R, symmetric]
    using G(6) by (auto intro!: sum_list_mono slot_ok_committed simp: free_len_def)
qed

lemma reached_wf:
  assumes "ExtentManager_new P alloc policy p mt arena rsz ralign slot_cap = (Inr mg0, p', mt')"
    and "list_all mgr_op_args ops" and "run_mgr P hook fp ops mg0 = Ret mg"
  shows "mgr_wf mg"
  using run_mgr_wf [OF ExtentManager_new_wf(1) [OF assms(1)] assms(2), of P hook fp] assms(3) by auto

lemma mgr_wf_rep:
  assumes "mgr_wf mg"
  obtains al fl bl where "em_rep (mg_map mg) al fl bl"
  using assms by (auto simp: mgr_wf_def em_wf_def)

lemma demo_reached: "run_mgr demo_provider hook fp [OpAlloc PAGE_SIZE 1 First] (demo_mgr (demo_map EReserved 0 PAGE_SIZE 0))
    = Ret (demo_mgr (demo_map EActive PAGE_SIZE 0 NIL))"
  using demo_alloc by (auto simp: run_mgr_op_def op_result_def)

lemma demo_args: "list_all mgr_op_args [OpAlloc PAGE_SIZE 1 First]"
  by (simp add: mgr_op_args_def PAGE_SIZE_def)

text \<open>
  C3. Whatever the provider answers and whatever operations are issued after construction, the
  manager returns from all of them, its self-check holds, and the live extents are non-empty page
  runs inside the region, fully committed and pairwise disjoint.
\<close>

theorem manager_run_safe:
  assumes "ExtentManager_new P alloc policy p mt arena rsz ralign slot_cap = (Inr mg0, p', mt')"
    and "list_all mgr_op_args ops"
  shows "\<exists>mg. run_mgr P hook fp ops mg0 = Ret mg \<and> em_check_invariants (mg_map mg)
    \<and> (\<forall>e\<in>live (mg_map mg). 0 < ex_len e \<and> ex_committed_len e = ex_len e
         \<and> PAGE_SIZE dvd ex_base e \<and> PAGE_SIZE dvd ex_len e
         \<and> region_base (mg_map mg) \<le> ex_base e
         \<and> ex_base e + ex_len e \<le> region_base (mg_map mg) + region_len (mg_map mg))
    \<and> (\<forall>e\<in>live (mg_map mg). \<forall>f\<in>live (mg_map mg). e \<noteq> f \<longrightarrow>
         ex_base e + ex_len e \<le> ex_base f \<or> ex_base f + ex_len f \<le> ex_base e)"
proof -
  obtain mg where mg: "run_mgr P hook fp ops mg0 = Ret mg" "mgr_wf mg"
    using run_mgr_wf [OF ExtentManager_new_wf(1) [OF assms(1)] assms(2), of P hook fp] by blast
  obtain al fl bl where R: "em_rep (mg_map mg) al fl bl" by (rule mgr_wf_rep [OF mg(2)])
  have "\<forall>e\<in>live (mg_map mg). ex_committed_len e = ex_len e" using mg(2) by (simp add: mgr_wf_def)
  then show ?thesis using mg(1) em_rep_check [OF R] live_bounds [OF R] live_disjoint [OF R] by blast
qed

theorem manager_run_safe_witness:
  "\<exists>mg. run_mgr demo_provider (\<lambda>_ _ _. None) False
      [OpAlloc PAGE_SIZE 1 First, OpFree \<lparr>er_id = 0, er_generation = 1\<rparr> False, OpAlloc 1 1 Best]
      (demo_mgr (demo_map EReserved 0 PAGE_SIZE 0)) = Ret mg \<and> em_check_invariants (mg_map mg)"
proof -
  have "list_all mgr_op_args [OpAlloc PAGE_SIZE 1 First, OpFree \<lparr>er_id = 0, er_generation = 1\<rparr> False, OpAlloc 1 1 Best]"
    by (simp add: mgr_op_args_def PAGE_SIZE_def)
  from manager_run_safe [OF demo_mgr_new this, of "\<lambda>_ _ _. None" False] show ?thesis by blast
qed



text \<open>
  C8. The per-state byte walk over a reachable manager's extents terminates. Its five buckets
  add up to the region, the free buckets to the free counter and the backed buckets to the
  committed counter.
\<close>

theorem state_bytes_terminates:
  assumes "ExtentManager_new P alloc policy p mt arena rsz ralign slot_cap = (Inr mg0, p', mt')"
    and "list_all mgr_op_args ops" and "run_mgr P hook fp ops mg0 = Ret mg"
  shows "\<exists>sb. state_bytes (mg_map mg) = Some sb \<and> StateBytes_total sb = region_len (mg_map mg)
    \<and> StateBytes_free sb = free_bytes (mg_map mg)
    \<and> sb_active sb = region_len (mg_map mg) - free_bytes (mg_map mg)
    \<and> StateBytes_committed sb = committed_bytes (mg_map mg)"
proof -
  have wf: "mgr_wf mg" by (rule reached_wf [OF assms])
  obtain al fl bl where R: "em_rep (mg_map mg) al fl bl" by (rule mgr_wf_rep [OF wf])
  have c: "\<forall>e\<in>live (mg_map mg). ex_committed_len e = ex_len e" using wf by (simp add: mgr_wf_def)
  show ?thesis by (rule em_rep_state_bytes [OF R]) (use c in blast)
qed

theorem state_bytes_terminates_witness:
  "\<exists>sb. state_bytes (demo_map EActive PAGE_SIZE 0 NIL) = Some sb \<and> sb_active sb = PAGE_SIZE"
proof -
  have "region_len (demo_map EActive PAGE_SIZE 0 NIL) = PAGE_SIZE" "free_bytes (demo_map EActive PAGE_SIZE 0 NIL) = 0"
    by (simp_all add: demo_map_def)
  then show ?thesis using state_bytes_terminates [OF demo_mgr_new demo_args demo_reached] by auto
qed

text \<open>
  C5. Freeing a live reference succeeds whatever the provider answers and removes exactly that
  extent from the live ones. A second free of the same reference is refused and changes nothing.
\<close>

theorem free_then_double_free:
  assumes "ExtentManager_new P alloc policy p mt arena rsz ralign slot_cap = (Inr mg0, p', mt')"
    and "list_all mgr_op_args ops" and "run_mgr P hook fp ops mg0 = Ret mg"
    and "resolve (mg_map mg) r = Some e" and "ex_state e = EActive"
  shows "\<exists>mg'. free_canary P fp r canary mg = (Inr (), mg') \<and> live (mg_map mg') = live (mg_map mg) - {e}
    \<and> em_check_invariants (mg_map mg')
    \<and> (\<exists>err. free_canary P fp r canary mg' = (Inl err, mg') \<and> (err = ExStale \<or> err = ExNotFree))"
proof -
  have wf: "mgr_wf mg" by (rule reached_wf [OF assms(1-3)])
  obtain mg' where f: "free_canary P fp r canary mg = (Inr (), mg')" "mg_step mg mg' (live (mg_map mg) - {e})"
    using free_canary_spec [OF wf, where r = r and P = P and fp = fp and cy = canary] assms(4,5) by auto
  then have wf': "mgr_wf mg'" and l: "live (mg_map mg') = live (mg_map mg) - {e}" by (simp_all add: mg_step_def)
  obtain al fl bl where R: "em_rep (mg_map mg') al fl bl" by (rule mgr_wf_rep [OF wf'])
  have "ex_state x \<noteq> EActive" if "resolve (mg_map mg') r = Some x" for x
  proof
    assume "ex_state x = EActive"
    then have "x \<in> live (mg_map mg')" using that view_live by (auto simp: resolve_Some)
    moreover have "ex_id x = er_id r"
      using that em_rep_view [OF R, of "er_id r"] by (auto simp: resolve_Some split: if_splits)
    ultimately have "view (mg_map mg) (er_id r) = Some x" "x \<noteq> e" unfolding l by (auto simp: live_def)
    then show False using assms(4) by (simp add: resolve_Some)
  qed
  then have "\<exists>err. free_canary P fp r canary mg' = (Inl err, mg') \<and> (err = ExStale \<or> err = ExNotFree)"
    using free_canary_spec [OF wf', where r = r and P = P and fp = fp and cy = canary]
    by (auto split: option.splits)
  then show ?thesis using f(1) l em_rep_check [OF R] by blast
qed

theorem free_then_double_free_witness:
  "\<exists>mg' err. free_canary demo_provider False \<lparr>er_id = 0, er_generation = 1\<rparr> False
        (demo_mgr (demo_map EActive PAGE_SIZE 0 NIL)) = (Inr (), mg')
    \<and> free_canary demo_provider False \<lparr>er_id = 0, er_generation = 1\<rparr> False mg' = (Inl err, mg')"
proof -
  obtain e where e: "resolve (mg_map (demo_mgr (demo_map EActive PAGE_SIZE 0 NIL))) \<lparr>er_id = 0, er_generation = 1\<rparr> = Some e"
    "ex_state e = EActive"
    by (simp add: resolve_def)
  show ?thesis
    using free_then_double_free [OF demo_mgr_new demo_args demo_reached [of "\<lambda>_ _ _. None" False] e, of False] by blast
qed

text \<open>
  C7. A manager operation that returns an error, because of a stale or unsuitable reference, an
  exhausted map or a failing provider, leaves the set of live extents and the region unchanged.
\<close>

theorem failed_manager_op_keeps_live:
  assumes "ExtentManager_new P alloc policy p mt arena rsz ralign slot_cap = (Inr mg0, p', mt')"
    and "list_all mgr_op_args ops" and "run_mgr P hook fp ops mg0 = Ret mg"
    and "mgr_op_args op" and "run_mgr_op P hook fp op mg = Ret (False, mg')"
  shows "live (mg_map mg') = live (mg_map mg) \<and> mg_region mg' = mg_region mg \<and> em_check_invariants (mg_map mg')"
proof -
  have "op_safe mg (Ret (False, mg'))"
    using run_mgr_op_safe [OF reached_wf [OF assms(1-3)] assms(4), of P hook fp] assms(5) by simp
  then have s: "mg_step mg mg' (live (mg_map mg))" by (auto simp: op_safe_def)
  then obtain al fl bl where "em_rep (mg_map mg') al fl bl" by (auto simp: mg_step_def intro: mgr_wf_rep)
  then show ?thesis using s em_rep_check by (auto simp: mg_step_def)
qed

theorem failed_manager_op_keeps_live_witness:
  "\<exists>mg'. run_mgr_op demo_provider (\<lambda>_ _ _. None) False (OpFree \<lparr>er_id = 0, er_generation = 7\<rparr> False)
        (demo_mgr (demo_map EActive PAGE_SIZE 0 NIL)) = Ret (False, mg')
      \<and> live (mg_map mg') = live (demo_map EActive PAGE_SIZE 0 NIL)"
proof -
  let ?op = "OpFree \<lparr>er_id = 0, er_generation = 7\<rparr> False"
  have f: "run_mgr_op demo_provider (\<lambda>_ _ _. None) False ?op (demo_mgr (demo_map EActive PAGE_SIZE 0 NIL))
      = Ret (False, demo_mgr (demo_map EActive PAGE_SIZE 0 NIL))" and a: "mgr_op_args ?op"
    by (simp_all add: run_mgr_op_def free_canary_def op_result_def resolve_def mgr_op_args_def)
  from f failed_manager_op_keeps_live [OF demo_mgr_new demo_args demo_reached a f] show ?thesis by auto
qed


lemma demo_mgr_3: "\<exists>mg e. ExtentManager_new demo_provider (\<lambda>st n a. (Some 4096, st)) Retain () () ArenaId_DEFAULT
    PAGE_SIZE 1 3 = (Inr mg, (), ()) \<and> view (mg_map mg) 0 = Some e \<and> is_free (ex_state e)
      \<and> PAGE_SIZE \<le> ex_len e \<and> unused_slots (mg_map mg) = 2"
proof -
  have "rev [0..<3] = [2, 1, 0 :: nat]" by code_simp
  then show ?thesis
    by (simp add: ExtentManager_new_def extent_eval zero_slot_def bit_length_one view_def snapshot_def is_free_def)
qed




text \<open>
  C40. \<open>free_in\<close> accepts \<open>Active\<close> as the new state, because \<open>can_transition\<close> is reflexive. The
  extent then stays active while it is linked into its free bin and counted as free: the
  self-check fails and the next carve hands out the extent a second time.
\<close>

theorem free_in_accepts_active:
  "\<exists>m m1 m2 m3. ExtentMap_new (\<lambda>st n a. (Some 4096, st)) () (2 ^ 30) PAGE_SIZE 1 = (Some m, ())
     \<and> carve_in PAGE_SIZE 1 First m = (Some 0, m1) \<and> em_check_invariants m1
     \<and> free_in 0 EActive m1 = (Some 0, m2) \<and> map_option ex_state (view m2 0) = Some EActive
     \<and> \<not> em_check_invariants m2 \<and> carve_in PAGE_SIZE 1 First m2 = (Some 0, m3)"
proof -
  let ?m = "demo_map EReserved 0 PAGE_SIZE 0" and ?m1 = "demo_map EActive 0 0 NIL" and ?m2 = "demo_map EActive 0 PAGE_SIZE 0"
  have m: "ExtentMap_new (\<lambda>st n a. (Some 4096, st)) () (2 ^ 30) PAGE_SIZE 1 = (Some ?m, ())"
    by (simp add: demo_map_def extent_eval zero_slot_def bit_length_one)
  have "em_wf ?m1"
  proof (rule carve_wf [OF ExtentMap_new_ok(1) [OF m], of 1 PAGE_SIZE First])
    show "is_power_of_two 1" "is_usize 1" "0 < PAGE_SIZE" "PAGE_SIZE dvd PAGE_SIZE"
      by (simp_all add: PAGE_SIZE_def is_power_of_two_def)
  qed (use demo_carve in auto)
  then have c1: "em_check_invariants ?m1" using em_rep_check by (auto simp: em_wf_def)
  have "is_in_bin ?m2 0" "\<not> is_free EActive" "NIL \<noteq> 0"
    by (simp_all add: is_in_bin_def is_in_bin_loop.simps demo_map_def extent_eval bit_length_one is_free_def)
  then have "addr_walk ?m2 (addr_head ?m2) w = None" for w
    by (subst addr_walk.simps) (simp add: walk_slot_ok_def demo_map_def)
  then have "\<not> em_check_invariants ?m2" by (simp add: em_check_invariants_def)
  then show ?thesis using m demo_carve c1 demo_free_active by (auto simp del: One_nat_def)
qed

end
