(* ===== verification/Central.thy ===== *)
theory Central
  imports Span Pagemap
begin

text \<open>
  \<open>crates/topo-core/src/central.rs\<close>, the central free list: one bin per size class with an
  intrusive list of partially used spans, a bounded cache of empty spans and aggregate counters.
  The descriptors live in monotonic metadata, so they are a store from addresses to descriptors;
  a null pointer is \<^const>\<open>None\<close>. Every operation holds the bin lock throughout, and the span
  lock where it touches the bitmap, so it is one function on the cache. The debug assertions and
  the scrubbing of freed bytes are left out; \<open>force_slow\<close> is the deterministic-mode switch.
\<close>

section \<open>Bins and their lists\<close>

type_synonym span_store = "addr \<Rightarrow> SpanDescriptor"

definition ANY_PLACE_CLASS :: nat where "ANY_PLACE_CLASS = 255"

definition MAX_BATCH_LEN :: nat where
  "MAX_BATCH_LEN = fold (\<lambda>row mx. if mx < row_batch row then row_batch row else mx) SIZE_CLASSES 0"

definition MAX_EMPTY_CACHED_PER_BIN :: nat where "MAX_EMPTY_CACHED_PER_BIN = 1"

datatype CentralError = CeOutOfMetadata

definition CentralError_from :: "PagemapError \<Rightarrow> CentralError" where
  "CentralError_from e = (case e of OutOfMetadata \<Rightarrow> CeOutOfMetadata)"

text \<open>A batch: the span and the valid prefix of the index array.\<close>

record Batch =
  ba_span :: addr
  ba_indices :: "nat list"

definition Batch_len :: "Batch \<Rightarrow> nat" where
  "Batch_len b = length (ba_indices b)"

definition Batch_is_empty :: "Batch \<Rightarrow> bool" where
  "Batch_is_empty b \<longleftrightarrow> Batch_len b = 0"

definition Batch_index :: "Batch \<Rightarrow> nat \<Rightarrow> nat outcome" where
  "Batch_index b i = index (ba_indices b) i"

definition Batch_object_addr :: "Batch \<Rightarrow> nat \<Rightarrow> SlabLayout \<Rightarrow> addr option" where
  "Batch_object_addr b i layout = (if Batch_len b \<le> i then None else object_addr layout (ba_indices b ! i))"

datatype RemoveResult = RemoveOk Batch | NeedSpan

record InsertResult =
  ir_inserted :: nat
  ir_span_empty :: bool

record CentralBin =
  partial_head :: "addr option"
  partial_count :: nat
  empty_head :: "addr option"
  empty_count :: nat
  cb_span_count :: nat
  total_central_free :: nat

definition CentralBin_new :: CentralBin where
  "CentralBin_new = \<lparr>partial_head = None, partial_count = 0, empty_head = None, empty_count = 0,
     cb_span_count = 0, total_central_free = 0\<rparr>"

definition set_central_next :: "addr \<Rightarrow> addr option \<Rightarrow> span_store \<Rightarrow> span_store" where
  "set_central_next p nxt st = st(p := (st p)\<lparr>central_next := nxt\<rparr>)"

definition push_partial :: "addr \<Rightarrow> CentralBin \<times> span_store \<Rightarrow> CentralBin \<times> span_store" where
  "push_partial p bs =
     (case bs of (b, st) \<Rightarrow>
        (b\<lparr>partial_head := Some p, partial_count := wrapping_add 32 (partial_count b) 1\<rparr>,
         set_central_next p (partial_head b) st))"

definition pop_partial :: "CentralBin \<times> span_store \<Rightarrow> addr option \<times> CentralBin \<times> span_store" where
  "pop_partial bs =
     (case bs of (b, st) \<Rightarrow>
        case partial_head b of
          None \<Rightarrow> (None, b, st)
        | Some head \<Rightarrow>
            (Some head,
             b\<lparr>partial_head := central_next (st head), partial_count := wrapping_sub 32 (partial_count b) 1\<rparr>,
             set_central_next head None st))"

text \<open>The scan for the predecessor of \<open>target\<close>, bounded by the list's counter.\<close>

fun unlink_scan :: "nat \<Rightarrow> addr \<Rightarrow> addr \<Rightarrow> span_store \<Rightarrow> span_store option" where
  "unlink_scan 0 prev target st = None"
| "unlink_scan (Suc budget) prev target st =
     (case central_next (st prev) of
        None \<Rightarrow> None
      | Some nxt \<Rightarrow>
          if nxt = target
          then Some (set_central_next target None (set_central_next prev (central_next (st target)) st))
          else unlink_scan budget nxt target st)"

definition remove_partial :: "addr \<Rightarrow> CentralBin \<times> span_store \<Rightarrow> bool \<times> CentralBin \<times> span_store" where
  "remove_partial target bs =
     (case bs of (b, st) \<Rightarrow>
        case partial_head b of
          None \<Rightarrow> (False, b, st)
        | Some head \<Rightarrow>
            if head = target then (True, snd (pop_partial (b, st)))
            else case unlink_scan (partial_count b) head target st of
                   None \<Rightarrow> (False, b, st)
                 | Some st \<Rightarrow> (True, b\<lparr>partial_count := wrapping_sub 32 (partial_count b) 1\<rparr>, st))"

definition push_empty :: "addr \<Rightarrow> CentralBin \<times> span_store \<Rightarrow> CentralBin \<times> span_store" where
  "push_empty p bs =
     (case bs of (b, st) \<Rightarrow>
        (b\<lparr>empty_head := Some p, empty_count := wrapping_add 32 (empty_count b) 1\<rparr>,
         set_central_next p (empty_head b) st))"

definition pop_empty :: "CentralBin \<times> span_store \<Rightarrow> addr option \<times> CentralBin \<times> span_store" where
  "pop_empty bs =
     (case bs of (b, st) \<Rightarrow>
        case empty_head b of
          None \<Rightarrow> (None, b, st)
        | Some head \<Rightarrow>
            (Some head,
             b\<lparr>empty_head := central_next (st head), empty_count := wrapping_sub 32 (empty_count b) 1\<rparr>,
             set_central_next head None st))"

definition remove_empty :: "addr \<Rightarrow> CentralBin \<times> span_store \<Rightarrow> bool \<times> CentralBin \<times> span_store" where
  "remove_empty target bs =
     (case bs of (b, st) \<Rightarrow>
        case empty_head b of
          None \<Rightarrow> (False, b, st)
        | Some head \<Rightarrow>
            if head = target then (True, snd (pop_empty (b, st)))
            else case unlink_scan (empty_count b) head target st of
                   None \<Rightarrow> (False, b, st)
                 | Some st \<Rightarrow> (True, b\<lparr>empty_count := wrapping_sub 32 (empty_count b) 1\<rparr>, st))"

section \<open>The self-check of a bin\<close>

text \<open>
  A list walk: \<open>ok\<close> judges a descriptor after its size class matched. The result is the number of
  spans and the sum of their central-free counts, or \<^const>\<open>None\<close> where the code returns false.
\<close>

function check_walk ::
  "(SpanDescriptor \<Rightarrow> bool outcome) \<Rightarrow> SizeClassId \<Rightarrow> nat \<Rightarrow> span_store \<Rightarrow> addr option \<Rightarrow> nat \<Rightarrow> nat \<Rightarrow>
     (nat \<times> nat) option outcome" where
  "check_walk ok cls count st p seen sum_free =
     (case p of
        None \<Rightarrow> Ret (Some (seen, sum_free))
      | Some a \<Rightarrow>
          if count \<le> seen then Ret None
          else if sp_sc (st a) \<noteq> cls then Ret None
          else bind_outcome (ok (st a)) (\<lambda>good.
            if good
            then check_walk ok cls count st (central_next (st a)) (seen + 1)
                   (wrapping_add 64 sum_free (sp_central_free_count (st a)))
            else Ret None))"
  by pat_completeness auto
termination
  by (relation "measure (\<lambda>(ok, cls, count, st, p, seen, sum_free). count - seen)") auto

declare check_walk.simps [simp del]

definition partial_span_ok :: "bool \<Rightarrow> SpanDescriptor \<Rightarrow> bool outcome" where
  "partial_span_ok dbg s =
     (if 0 < sp_central_free_count s then check_invariants_locked dbg s else Ret False)"

definition empty_span_ok :: "bool \<Rightarrow> SpanDescriptor \<Rightarrow> bool outcome" where
  "empty_span_ok dbg s =
     bind_outcome (check_invariants_locked dbg s) (\<lambda>ok.
       Ret (ok \<and> sp_live_count s = 0 \<and> sp_central_free_count s = sp_object_count s))"

definition CentralBin_check_invariants :: "bool \<Rightarrow> SizeClassId \<Rightarrow> CentralBin \<Rightarrow> span_store \<Rightarrow> bool outcome" where
  "CentralBin_check_invariants dbg cls b st =
     (if cb_span_count b < partial_count b + empty_count b then Ret False
      else bind_outcome (check_walk (partial_span_ok dbg) cls (partial_count b) st (partial_head b) 0 0) (\<lambda>r.
        case r of
          None \<Rightarrow> Ret False
        | Some (seen, sum_free) \<Rightarrow>
            if seen \<noteq> partial_count b then Ret False
            else bind_outcome (check_walk (empty_span_ok dbg) cls (empty_count b) st (empty_head b) 0 sum_free) (\<lambda>r.
              case r of
                None \<Rightarrow> Ret False
              | Some (seen_e, sum_free) \<Rightarrow>
                  Ret (seen_e = empty_count b \<and> sum_free = total_central_free b))))"

section \<open>The cache\<close>

record CentralCache =
  cc_bins :: "CentralBin list"
  cc_spans :: span_store

definition CentralCache_new :: "span_store \<Rightarrow> CentralCache" where
  "CentralCache_new st = \<lparr>cc_bins = replicate (length SIZE_CLASSES) CentralBin_new, cc_spans = st\<rparr>"

definition set_bin :: "SizeClassId \<Rightarrow> CentralBin \<times> span_store \<Rightarrow> CentralCache \<Rightarrow> CentralCache" where
  "set_bin cls bs c = c\<lparr>cc_bins := (cc_bins c)[cls := fst bs], cc_spans := snd bs\<rparr>"

definition CentralCache_check_invariants :: "bool \<Rightarrow> CentralCache \<Rightarrow> bool outcome" where
  "CentralCache_check_invariants dbg c =
     fold_outcome (\<lambda>i ok. if ok then CentralBin_check_invariants dbg i (cc_bins c ! i) (cc_spans c) else Ret False)
       [0..<length (cc_bins c)] True"

definition span_matches :: "ArenaId \<Rightarrow> nat \<Rightarrow> SpanDescriptor \<Rightarrow> bool" where
  "span_matches arena pclass s \<longleftrightarrow>
     sp_arena s = arena \<and> (pclass = ANY_PLACE_CLASS \<or> place_class s = pclass)"

text \<open>The scan of the rest of the partial list; a match is moved to the head.\<close>

fun find_scan :: "ArenaId \<Rightarrow> nat \<Rightarrow> nat \<Rightarrow> addr \<Rightarrow> addr \<Rightarrow> CentralBin \<times> span_store \<Rightarrow>
    addr option \<times> CentralBin \<times> span_store" where
  "find_scan arena pclass 0 head prev bs = (None, bs)"
| "find_scan arena pclass (Suc budget) head prev bs =
     (case bs of (b, st) \<Rightarrow>
        case central_next (st prev) of
          None \<Rightarrow> (None, b, st)
        | Some nxt \<Rightarrow>
            if span_matches arena pclass (st nxt)
            then (Some nxt, b\<lparr>partial_head := Some nxt\<rparr>,
                  set_central_next nxt (Some head) (set_central_next prev (central_next (st nxt)) st))
            else find_scan arena pclass budget head nxt (b, st))"

definition find_partial_for_arena :: "ArenaId \<Rightarrow> nat \<Rightarrow> CentralBin \<times> span_store \<Rightarrow>
    addr option \<times> CentralBin \<times> span_store" where
  "find_partial_for_arena arena pclass bs =
     (case bs of (b, st) \<Rightarrow>
        case partial_head b of
          None \<Rightarrow> (None, b, st)
        | Some head \<Rightarrow>
            if span_matches arena pclass (st head) then (Some head, b, st)
            else find_scan arena pclass (partial_count b) head head (b, st))"

definition take_empty :: "bool \<Rightarrow> ArenaId \<Rightarrow> nat \<Rightarrow> CentralBin \<times> span_store \<Rightarrow>
    addr option \<times> CentralBin \<times> span_store" where
  "take_empty force_slow arena pclass bs =
     (if force_slow then (None, bs)
      else case pop_empty bs of
             (None, bs) \<Rightarrow> (None, bs)
           | (Some e, b, st) \<Rightarrow>
               if sp_arena (st e) \<noteq> arena then (None, push_empty e (b, st))
               else let st = (if pclass \<noteq> ANY_PLACE_CLASS then st(e := set_place_class (st e) pclass) else st)
                    in (Some e, push_partial e (b, st)))"

definition carve_batch :: "nat \<Rightarrow> addr \<Rightarrow> CentralBin \<times> span_store \<Rightarrow>
    (RemoveResult \<times> CentralBin \<times> span_store) outcome" where
  "carve_batch desired p bs =
     (case bs of (b, st) \<Rightarrow>
        if sp_central_free_count (st p) = 0 then Ret (NeedSpan, snd (pop_partial (b, st)))
        else let count = min (min desired (sp_central_free_count (st p))) MAX_BATCH_LEN in
          bind_outcome (central_remove_batch (st p) MAX_BATCH_LEN count) (\<lambda>(ids, s).
            let removed = length ids;
                s = set_live_count s (wrapping_add 32 (sp_live_count s) removed);
                st = st(p := s);
                (b, st) = (if sp_central_free_count s = 0 then snd (pop_partial (b, st)) else (b, st));
                b = b\<lparr>total_central_free := wrapping_sub 64 (total_central_free b) removed\<rparr>;
                ba = \<lparr>ba_span = p, ba_indices = ids\<rparr>
            in Ret (if Batch_is_empty ba then NeedSpan else RemoveOk ba, b, st)))"

definition remove_batch :: "bool \<Rightarrow> ArenaId \<Rightarrow> SizeClassId \<Rightarrow> nat \<Rightarrow> nat \<Rightarrow> CentralCache \<Rightarrow>
    (RemoveResult \<times> CentralCache) outcome" where
  "remove_batch force_slow arena cls pclass desired c =
     (case get (cc_bins c) cls of
        None \<Rightarrow> Ret (NeedSpan, c)
      | Some b \<Rightarrow>
          (case (case find_partial_for_arena arena pclass (b, cc_spans c) of
                   (None, bs) \<Rightarrow> take_empty force_slow arena pclass bs
                 | found \<Rightarrow> found) of
             (None, bs) \<Rightarrow> Ret (NeedSpan, set_bin cls bs c)
           | (Some p, bs) \<Rightarrow>
               bind_outcome (carve_batch desired p bs) (\<lambda>(r, bs). Ret (r, set_bin cls bs c))))"

definition insert_one :: "nat \<Rightarrow> nat \<times> SpanDescriptor \<Rightarrow> (nat \<times> SpanDescriptor) outcome" where
  "insert_one i acc =
     (case acc of (inserted, s) \<Rightarrow>
        bind_outcome (central_insert s i) (\<lambda>(ok, s).
          if ok
          then bind_outcome
                 (case quarantined_bitmap s of
                    None \<Rightarrow> Ret s
                  | Some qb \<Rightarrow> bind_outcome (clear_quarantined s qb i) (\<lambda>(_, s). Ret s))
                 (\<lambda>s. Ret (inserted + 1, snd (unmark_cached s i)))
          else Ret (inserted, s)))"

definition relist_span :: "nat \<Rightarrow> addr \<Rightarrow> CentralBin \<times> span_store \<Rightarrow> InsertResult \<times> CentralBin \<times> span_store" where
  "relist_span inserted p bs =
     (case bs of (b, st) \<Rightarrow>
        let s = st p;
            was_exhausted = (sp_central_free_count s = inserted \<and> 0 < inserted \<and> partial_head b \<noteq> Some p);
            is_empty = span_is_empty s NonCentralResidency_NONE
        in if is_empty \<and> 0 < inserted
           then (case remove_partial p (b, st) of (_, b, st) \<Rightarrow>
                   if empty_count b < MAX_EMPTY_CACHED_PER_BIN
                   then (\<lparr>ir_inserted = inserted, ir_span_empty = False\<rparr>, push_empty p (b, st))
                   else (\<lparr>ir_inserted = inserted, ir_span_empty = True\<rparr>, b, st))
           else (\<lparr>ir_inserted = inserted, ir_span_empty = False\<rparr>,
                 if was_exhausted then push_partial p (b, st) else (b, st)))"

definition insert_batch :: "addr \<Rightarrow> nat list \<Rightarrow> nat \<Rightarrow> CentralCache \<Rightarrow> (InsertResult \<times> CentralCache) outcome" where
  "insert_batch p indices count c =
     (let cls = sp_sc (cc_spans c p) in
      case get (cc_bins c) cls of
        None \<Rightarrow> Ret (\<lparr>ir_inserted = 0, ir_span_empty = False\<rparr>, c)
      | Some b \<Rightarrow>
          if sp_state (cc_spans c p) \<noteq> SpanActive then Ret (\<lparr>ir_inserted = 0, ir_span_empty = False\<rparr>, c)
          else bind_outcome (fold_outcome insert_one (take (min count (length indices)) indices) (0, cc_spans c p))
            (\<lambda>(inserted, s).
              let s = (if 0 < inserted then set_live_count s (wrapping_sub 32 (sp_live_count s) inserted) else s);
                  b = (if 0 < inserted
                       then b\<lparr>total_central_free := wrapping_add 64 (total_central_free b) inserted\<rparr> else b);
                  (r, bs) = relist_span inserted p (b, (cc_spans c)(p := s))
              in Ret (r, set_bin cls bs c)))"

section \<open>Activation and teardown\<close>

definition activate_span ::
  "('m \<Rightarrow> usize \<Rightarrow> usize \<Rightarrow> addr option \<times> 'm) \<Rightarrow> 'm \<Rightarrow> PageMap \<Rightarrow> addr \<Rightarrow> CentralCache \<Rightarrow>
     ((CentralError + unit) \<times> CentralCache \<times> PageMap \<times> 'm) outcome" where
  "activate_span alloc mt pm p c =
     (let s = cc_spans c p; cls = sp_sc s; n = sp_object_count s in
      bind_outcome (activate s n) (\<lambda>s.
      bind_outcome (install_span alloc mt pm p s) (\<lambda>(r, pm, mt).
        case r of
          Inl e \<Rightarrow>
            bind_outcome (deactivate s) (\<lambda>s.
              Ret (Inl (CentralError_from e), c\<lparr>cc_spans := (cc_spans c)(p := s)\<rparr>, pm, mt))
        | Inr _ \<Rightarrow>
            (case get (cc_bins c) cls of
               None \<Rightarrow> Panic
             | Some b \<Rightarrow>
                 (case push_partial p (b, (cc_spans c)(p := s)) of (b, st) \<Rightarrow>
                    Ret (Inr (), set_bin cls
                      (b\<lparr>cb_span_count := wrapping_add 32 (cb_span_count b) 1,
                         total_central_free := wrapping_add 64 (total_central_free b) n\<rparr>, st) c, pm, mt))))))"

text \<open>The list removal and counter updates the two teardowns share.\<close>

definition drop_span :: "addr \<Rightarrow> nat \<Rightarrow> CentralBin \<times> span_store \<Rightarrow> CentralBin \<times> span_store" where
  "drop_span p free_before bs =
     (case remove_partial p bs of (found, bs) \<Rightarrow>
      case (if found then bs else snd (remove_empty p bs)) of (b, st) \<Rightarrow>
        let b = b\<lparr>cb_span_count := wrapping_sub 32 (cb_span_count b) 1\<rparr>;
            b = (if 0 < free_before
                 then b\<lparr>total_central_free := wrapping_sub 64 (total_central_free b) free_before\<rparr> else b)
        in (b, st(p := set_state (st p) SpanReleased)))"

definition deactivate_span :: "addr \<Rightarrow> PageMap \<Rightarrow> CentralCache \<Rightarrow> (CentralCache \<times> PageMap) outcome" where
  "deactivate_span p pm c =
     (let s = cc_spans c p; cls = sp_sc s in
      case get (cc_bins c) cls of
        None \<Rightarrow> Panic
      | Some b \<Rightarrow>
          if \<not> span_is_empty s NonCentralResidency_NONE then Panic
          else bind_outcome (deactivate s) (\<lambda>s'.
            case drop_span p (sp_central_free_count s) (b, (cc_spans c)(p := s')) of bs \<Rightarrow>
              bind_outcome (release_span p (snd bs p) pm) (\<lambda>pm. Ret (set_bin cls bs c, pm))))"

definition deactivate_span_forced :: "addr \<Rightarrow> PageMap \<Rightarrow> CentralCache \<Rightarrow> (nat \<times> CentralCache \<times> PageMap) outcome" where
  "deactivate_span_forced p pm c =
     (let s = cc_spans c p; cls = sp_sc s in
      case get (cc_bins c) cls of
        None \<Rightarrow> Panic
      | Some b \<Rightarrow>
          if sp_state s \<noteq> SpanActive then Ret (0, c, pm)
          else bind_outcome (deactivate s) (\<lambda>s'.
            case drop_span p (sp_central_free_count s) (b, (cc_spans c)(p := s')) of bs \<Rightarrow>
              bind_outcome (release_span p (snd bs p) pm) (\<lambda>pm. Ret (sp_live_count s, set_bin cls bs c, pm))))"

end
