(* ===== verification/Central_Inv.thy ===== *)
theory Central_Inv
  imports Central
begin

text \<open>
  The central free list keeps its invariant. The two intrusive lists of a bin share one interface,
  a locale interpreted on the partial and on the empty list; a bin represents its lists, the set of
  spans it tracks and the emptied spans a caller still has to deactivate.
\<close>

section \<open>Singly linked lists of descriptors\<close>

fun slseg :: "span_store \<Rightarrow> addr option \<Rightarrow> addr list \<Rightarrow> addr option \<Rightarrow> bool" where
  "slseg st h [] e \<longleftrightarrow> h = e"
| "slseg st h (p # ps) e \<longleftrightarrow> h = Some p \<and> slseg st (central_next (st p)) ps e"

lemma slseg_cong: "(\<And>p. p \<in> set ps \<Longrightarrow> central_next (st' p) = central_next (st p)) \<Longrightarrow>
    slseg st' h ps e = slseg st h ps e"
  by (induction ps arbitrary: h) auto

lemma slseg_append: "slseg st h (xs @ ys) e \<longleftrightarrow> (\<exists>m. slseg st h xs m \<and> slseg st m ys e)"
  by (induction xs arbitrary: h) auto

lemma slseg_set [simp]: "p \<notin> set ps \<Longrightarrow> slseg (set_central_next p n st) h ps e = slseg st h ps e"
  by (rule slseg_cong) (auto simp: set_central_next_def)

lemma set_central_next_same [simp]: "central_next (set_central_next p n st p) = n"
  by (simp add: set_central_next_def)

lemma set_central_next_other [simp]: "q \<noteq> p \<Longrightarrow> set_central_next p n st q = st q"
  by (simp add: set_central_next_def)

text \<open>Taking \<open>t\<close> out after its predecessor \<open>u\<close>, and moving it to the front.\<close>

lemma slseg_unlink:
  assumes "slseg st h (xs @ u # t # zs) None" and "distinct (xs @ u # t # zs)"
  shows "slseg (set_central_next t n (set_central_next u (central_next (st t)) st)) h (xs @ u # zs) None"
proof -
  have "slseg st h xs (Some u)" "slseg st (central_next (st t)) zs None"
    using assms(1) by (auto simp: slseg_append)
  then show ?thesis using assms(2) by (auto simp: slseg_append)
qed

lemma slseg_to_front:
  assumes "slseg st (Some h) (xs @ u # t # zs) None" and "distinct (xs @ u # t # zs)"
  shows "slseg (set_central_next t (Some h) (set_central_next u (central_next (st t)) st)) (Some t)
    (t # xs @ u # zs) None"
  using slseg_unlink [OF assms] assms(2) by simp

text \<open>
  The store after list surgery: descriptors differ in their link and their advisory flags only, and
  only within \<open>A\<close>.
\<close>

definition relinked :: "addr set \<Rightarrow> span_store \<Rightarrow> span_store \<Rightarrow> bool" where
  "relinked A st st' \<longleftrightarrow>
     (\<forall>q. (\<exists>f n. st' q = (st q)\<lparr>sp_flags := f, central_next := n\<rparr>) \<and> (q \<notin> A \<longrightarrow> st' q = st q))"

lemma relinkedI:
  assumes "\<And>q. q \<in> A \<Longrightarrow> \<exists>f n. st' q = (st q)\<lparr>sp_flags := f, central_next := n\<rparr>" and "\<And>q. q \<notin> A \<Longrightarrow> st' q = st q"
  shows "relinked A st st'"
proof -
  have "\<exists>f n. st' q = (st q)\<lparr>sp_flags := f, central_next := n\<rparr>" for q
  proof (cases "q \<in> A")
    case False
    then show ?thesis using assms(2) by (intro exI [of _ "sp_flags (st q)"] exI [of _ "central_next (st q)"]) simp
  qed (rule assms(1))
  then show ?thesis using assms(2) by (simp add: relinked_def)
qed

lemma relinkedD:
  assumes "relinked A st st'"
  shows "q \<notin> A \<Longrightarrow> st' q = st q" and "\<exists>f n. st' q = (st q)\<lparr>sp_flags := f, central_next := n\<rparr>"
  using assms unfolding relinked_def by blast+

lemma relinked_refl [simp]: "relinked A st st"
  by (rule relinkedI) (metis SpanDescriptor.surjective SpanDescriptor.update_convs(9,18), rule refl)

lemma relinked_trans [trans]:
  assumes "relinked A st st'" and "relinked A st' st''"
  shows "relinked A st st''"
proof (rule relinkedI)
  fix q
  obtain f n f' n' where "st' q = (st q)\<lparr>sp_flags := f, central_next := n\<rparr>" "st'' q = (st' q)\<lparr>sp_flags := f', central_next := n'\<rparr>"
    using relinkedD(2) [OF assms(1), of q] relinkedD(2) [OF assms(2), of q] by blast
  then have "st'' q = (st q)\<lparr>sp_flags := f', central_next := n'\<rparr>" by simp
  then show "\<exists>f n. st'' q = (st q)\<lparr>sp_flags := f, central_next := n\<rparr>" by blast
qed (simp add: relinkedD(1) [OF assms(1)] relinkedD(1) [OF assms(2)])

lemma relinked_mono: "relinked A st st' \<Longrightarrow> A \<subseteq> B \<Longrightarrow> relinked B st st'"
  unfolding relinked_def by blast

lemma relinked_set: "p \<in> A \<Longrightarrow> relinked A st (set_central_next p n st)"
proof (rule relinkedI)
  fix q
  show "\<exists>f m. set_central_next p n st q = (st q)\<lparr>sp_flags := f, central_next := m\<rparr>"
    by (intro exI [of _ "sp_flags (st q)"] exI [of _ "if q = p then n else central_next (st q)"])
      (simp add: set_central_next_def)
qed (auto simp: set_central_next_def)

subsection \<open>The scans\<close>

lemma unlink_scan_spec:
  assumes "slseg st h (xs @ u # ys) None" and "distinct (xs @ u # ys)" and "length ys < n" and "t \<noteq> u"
    and "t \<notin> set xs"
  shows "(if t \<in> set ys
     then \<exists>st'. unlink_scan n u t st = Some st' \<and> slseg st' h (remove1 t (xs @ u # ys)) None
            \<and> relinked (set (u # ys)) st st' \<and> central_next (st' t) = None
     else unlink_scan n u t st = None)"
  using assms
proof (induction n arbitrary: xs u ys)
  case 0
  then show ?case by simp
next
  case (Suc n)
  have nx: "slseg st (central_next (st u)) ys None" using Suc.prems(1) by (auto simp: slseg_append)
  show ?case
  proof (cases ys)
    case Nil
    then show ?thesis using nx by simp
  next
    case (Cons y zs)
    then have un: "central_next (st u) = Some y" using nx by simp
    show ?thesis
    proof (cases "y = t")
      case True
      have l: "slseg st h (xs @ u # t # zs) None" "distinct (xs @ u # t # zs)" using Suc.prems Cons True by auto
      have "remove1 t (xs @ u # ys) = xs @ u # zs" using Suc.prems(4,5) Cons True by (simp add: remove1_append)
      moreover have "relinked (set (u # ys)) st (set_central_next t None (set_central_next u (central_next (st t)) st))"
        using Cons True by (intro relinked_trans [OF relinked_set relinked_set]) auto
      ultimately show ?thesis using slseg_unlink [OF l, of None] un Cons True by simp
    next
      case False
      have s: "slseg st h ((xs @ [u]) @ y # zs) None" "distinct ((xs @ [u]) @ y # zs)" "length zs < n" "t \<noteq> y"
        "t \<notin> set (xs @ [u])"
        using Suc.prems Cons False by auto
      have e: "unlink_scan (Suc n) u t st = unlink_scan n y t st" using un False by simp
      show ?thesis
      proof (cases "t \<in> set zs")
        case True
        then obtain st' where "unlink_scan n y t st = Some st'"
          "slseg st' h (remove1 t ((xs @ [u]) @ y # zs)) None" "relinked (set (y # zs)) st st'" "central_next (st' t) = None"
          using Suc.IH [OF s] by auto
        moreover from this(3) have "relinked (set (u # ys)) st st'" by (rule relinked_mono) (auto simp: Cons)
        ultimately show ?thesis using e Cons True by auto
      next
        case nz: False
        then have "unlink_scan n y t st = None" using Suc.IH [OF s] by simp
        then show ?thesis using e Cons nz False by auto
      qed
    qed
  qed
qed

lemma find_scan_spec:
  assumes "slseg st (Some h) (xs @ u # ys) None" and "distinct (xs @ u # ys)" and "length ys < n"
    and "\<forall>q\<in>set (xs @ [u]). \<not> span_matches a k (st q)"
  shows "(case find_scan a k n h u (b, st) of
      (None, bs) \<Rightarrow> bs = (b, st) \<and> (\<forall>q\<in>set ys. \<not> span_matches a k (st q))
    | (Some t, b', st') \<Rightarrow> t \<in> set ys \<and> span_matches a k (st t) \<and> b' = b\<lparr>partial_head := Some t\<rparr>
        \<and> slseg st' (Some t) (t # remove1 t (xs @ u # ys)) None \<and> relinked (set (u # ys)) st st')"
  using assms
proof (induction n arbitrary: xs u ys)
  case 0
  then show ?case by simp
next
  case (Suc n)
  have nx: "slseg st (central_next (st u)) ys None" using Suc.prems(1) by (auto simp: slseg_append)
  show ?case
  proof (cases ys)
    case Nil
    then show ?thesis using nx by simp
  next
    case (Cons y zs)
    then have un: "central_next (st u) = Some y" using nx by simp
    show ?thesis
    proof (cases "span_matches a k (st y)")
      case True
      have l: "slseg st (Some h) (xs @ u # y # zs) None" "distinct (xs @ u # y # zs)" using Suc.prems Cons by auto
      have "remove1 y (xs @ u # ys) = xs @ u # zs" using l(2) Cons by (simp add: remove1_append)
      moreover have "relinked (set (u # ys)) st (set_central_next y (Some h) (set_central_next u (central_next (st y)) st))"
        using Cons by (intro relinked_trans [OF relinked_set relinked_set]) auto
      ultimately show ?thesis using slseg_to_front [OF l] un Cons True by simp
    next
      case False
      have s: "slseg st (Some h) ((xs @ [u]) @ y # zs) None" "distinct ((xs @ [u]) @ y # zs)" "length zs < n"
        "\<forall>q\<in>set ((xs @ [u]) @ [y]). \<not> span_matches a k (st q)"
        using Suc.prems Cons False by auto
      have e: "find_scan a k (Suc n) h u (b, st) = find_scan a k n h y (b, st)" using un False by simp
      obtain r b' st' where r: "find_scan a k n h y (b, st) = (r, b', st')" by (metis prod_cases3)
      show ?thesis
      proof (cases r)
        case None
        then show ?thesis using Suc.IH [OF s] e r Cons False by simp
      next
        case (Some t)
        have t: "t \<in> set zs" "span_matches a k (st t)" "b' = b\<lparr>partial_head := Some t\<rparr>"
          "slseg st' (Some t) (t # remove1 t ((xs @ [u]) @ y # zs)) None" "relinked (set (y # zs)) st st'"
          using Suc.IH [OF s] r Some by auto
        have "relinked (set (u # ys)) st st'" by (rule relinked_mono [OF t(5)]) (auto simp: Cons)
        then show ?thesis using t(1-4) e r Some Cons by simp
      qed
    qed
  qed
qed

section \<open>The list interface\<close>

text \<open>
  A list of a bin is a head pointer and a 32-bit counter. \<open>listed b st ps\<close> says that the bin's list
  holds the descriptors \<open>ps\<close> in this order.
\<close>

locale span_list =
  fixes head :: "CentralBin \<Rightarrow> addr option" and count :: "CentralBin \<Rightarrow> nat"
    and upd :: "addr option \<Rightarrow> nat \<Rightarrow> CentralBin \<Rightarrow> CentralBin"
    and push :: "addr \<Rightarrow> CentralBin \<times> span_store \<Rightarrow> CentralBin \<times> span_store"
    and pop :: "CentralBin \<times> span_store \<Rightarrow> addr option \<times> CentralBin \<times> span_store"
    and unlink :: "addr \<Rightarrow> CentralBin \<times> span_store \<Rightarrow> bool \<times> CentralBin \<times> span_store"
  assumes head_upd: "head (upd h n b) = h" and count_upd: "count (upd h n b) = n"
    and push_eq: "push p (b, st) = (upd (Some p) (wrapping_add 32 (count b) 1) b, set_central_next p (head b) st)"
    and pop_eq: "pop (b, st) = (case head b of None \<Rightarrow> (None, b, st)
        | Some h \<Rightarrow> (Some h, upd (central_next (st h)) (wrapping_sub 32 (count b) 1) b, set_central_next h None st))"
    and unlink_eq: "unlink t (b, st) = (case head b of None \<Rightarrow> (False, b, st)
        | Some h \<Rightarrow> if h = t then (True, snd (pop (b, st)))
            else case unlink_scan (count b) h t st of None \<Rightarrow> (False, b, st)
              | Some st' \<Rightarrow> (True, upd (head b) (wrapping_sub 32 (count b) 1) b, st'))"
begin

definition listed :: "CentralBin \<Rightarrow> span_store \<Rightarrow> addr list \<Rightarrow> bool" where
  "listed b st ps \<longleftrightarrow> slseg st (head b) ps None \<and> distinct ps \<and> count b = length ps \<and> length ps < 2 ^ 32"

lemma listed_relinked:
  assumes "listed b st ps" and "relinked A st st'" and "A \<inter> set ps = {}"
  shows "listed b st' ps"
proof -
  have "slseg st' (head b) ps None = slseg st (head b) ps None"
    by (rule slseg_cong) (use assms(3) relinkedD(1) [OF assms(2)] in force)
  then show ?thesis using assms(1) by (simp add: listed_def)
qed

lemma push_listed:
  assumes "listed b st ps" and "p \<notin> set ps" and "Suc (length ps) < 2 ^ 32"
  obtains st' where "push p (b, st) = (upd (Some p) (Suc (length ps)) b, st')"
    and "listed (upd (Some p) (Suc (length ps)) b) st' (p # ps)" and "relinked {p} st st'"
proof
  show "push p (b, st) = (upd (Some p) (Suc (length ps)) b, set_central_next p (head b) st)"
    using assms by (simp add: push_eq listed_def wrapping_add_def)
  show "listed (upd (Some p) (Suc (length ps)) b) (set_central_next p (head b) st) (p # ps)"
    using assms by (simp add: listed_def head_upd count_upd)
qed (simp add: relinked_set)

lemma pop_listed:
  assumes "listed b st (p # ps)"
  obtains b' st' where "pop (b, st) = (Some p, b', st')" and "b' = upd (head b') (length ps) b"
    and "listed b' st' ps" and "relinked {p} st st'"
proof
  let ?b = "upd (central_next (st p)) (length ps) b"
  have h: "head b = Some p" "slseg st (central_next (st p)) ps None" "distinct (p # ps)" "count b = Suc (length ps)"
    "Suc (length ps) < 2 ^ 32"
    using assms by (auto simp: listed_def)
  have "wrapping_sub 32 (Suc (length ps)) 1 = length ps" using h(5) by (subst wrapping_sub_exact) auto
  then show "pop (b, st) = (Some p, ?b, set_central_next p None st)" using h by (simp add: pop_eq)
  show "?b = upd (head ?b) (length ps) b" by (simp add: head_upd)
  show "listed ?b (set_central_next p None st) ps" using h by (auto simp: listed_def head_upd count_upd)
qed (simp add: relinked_set)

lemma pop_empty_listed: "listed b st [] \<Longrightarrow> pop (b, st) = (None, b, st)"
  by (simp add: listed_def pop_eq)

lemma unlink_absent:
  assumes "listed b st ps" and "t \<notin> set ps"
  shows "unlink t (b, st) = (False, b, st)"
proof (cases ps)
  case Nil
  then show ?thesis using assms by (simp add: listed_def unlink_eq)
next
  case (Cons p qs)
  then have h: "head b = Some p" "slseg st (Some p) ([] @ p # qs) None" "distinct ([] @ p # qs)" "length qs < count b"
    using assms by (auto simp: listed_def)
  show ?thesis using unlink_scan_spec [OF h(2-4), of t] h(1) assms(2) Cons by (simp add: unlink_eq)
qed

lemma unlink_present:
  assumes l: "listed b st ps" and t: "t \<in> set ps"
  obtains b' st' where "unlink t (b, st) = (True, b', st')" and "b' = upd (head b') (length ps - 1) b"
    and "listed b' st' (remove1 t ps)" and "relinked (set ps) st st'"
proof (cases ps)
  case Nil
  then show ?thesis using t by simp
next
  case (Cons p qs)
  then have h: "head b = Some p" "slseg st (Some p) ([] @ p # qs) None" "distinct ([] @ p # qs)" "length qs < count b"
    using l by (auto simp: listed_def)
  show ?thesis
  proof (cases "p = t")
    case True
    obtain b' st' where "pop (b, st) = (Some p, b', st')" "b' = upd (head b') (length qs) b" "listed b' st' qs"
      "relinked {p} st st'"
      by (rule pop_listed [OF l [unfolded Cons]])
    then show ?thesis
      using h(1) True Cons relinked_mono [of "{p}" st st' "set ps"] by (intro that [of b' st']) (auto simp: unlink_eq)
  next
    case False
    then obtain st' where s: "unlink_scan (count b) p t st = Some st'" "slseg st' (Some p) (remove1 t ps) None"
      "relinked (set ps) st st'"
      using unlink_scan_spec [OF h(2-4), of t] t Cons by auto
    let ?b = "upd (head b) (length ps - 1) b"
    have n: "count b = length ps" "length ps < 2 ^ 32" "distinct ps" "0 < length ps" using l Cons by (auto simp: listed_def)
    then have "wrapping_sub 32 (length ps) 1 = length ps - 1" by (subst wrapping_sub_exact) (auto simp: Suc_le_eq)
    then have "unlink t (b, st) = (True, ?b, st')" using h(1) False s(1) n(1) by (simp add: unlink_eq)
    moreover have "listed ?b st' (remove1 t ps)"
      using s(2) n t h(1) by (auto simp: listed_def head_upd count_upd length_remove1)
    ultimately show ?thesis using s(3) by (intro that) (simp_all add: head_upd)
  qed
qed

end

interpretation pl: span_list partial_head partial_count
  "\<lambda>h n b. b\<lparr>partial_head := h, partial_count := n\<rparr>" push_partial pop_partial remove_partial
  by unfold_locales (simp_all add: push_partial_def pop_partial_def remove_partial_def split: option.splits)

interpretation el: span_list empty_head empty_count
  "\<lambda>h n b. b\<lparr>empty_head := h, empty_count := n\<rparr>" push_empty pop_empty remove_empty
  by unfold_locales (simp_all add: push_empty_def pop_empty_def remove_empty_def split: option.splits)

section \<open>Spans in the central list\<close>

text \<open>The geometry the self-check of a span asks for; no operation of this component changes it.\<close>

definition slab_geometry :: "SpanDescriptor \<Rightarrow> bool" where
  "slab_geometry s \<longleftrightarrow>
     (\<exists>l. compute (sp_sc s) (sp_base s) (sp_slab_header s) = Some l \<and> sp_object_count s \<le> object_count l \<and>
        is_usize (sp_base s + sp_page_count s * PAGE_SIZE) \<and>
        object0 l + sp_object_count s * object_size l \<le> sp_base s + sp_page_count s * PAGE_SIZE) \<and>
     validate_integrity s \<and> 0 < sp_object_count s"

definition quarantine_ok :: "SpanDescriptor \<Rightarrow> bool" where
  "quarantine_ok s \<longleftrightarrow> (\<forall>qb. quarantined_bitmap s = Some qb \<longrightarrow>
     fb_set qb \<subseteq> {..<sp_object_count s} \<and> free_set s \<inter> fb_set qb = {})"

text \<open>A span the bin of class \<open>k\<close> tracks: every object is central-free or counted live.\<close>

definition span_ok :: "SizeClassId \<Rightarrow> SpanDescriptor \<Rightarrow> bool" where
  "span_ok k s \<longleftrightarrow> span_wf s \<and> slab_geometry s \<and> quarantine_ok s \<and> sp_sc s = k \<and> sp_state s = SpanActive
     \<and> sp_live_count s + sp_central_free_count s = sp_object_count s"

text \<open>The operations on one span keep its identity.\<close>

definition same_span :: "SpanDescriptor \<Rightarrow> SpanDescriptor \<Rightarrow> bool" where
  "same_span s s' \<longleftrightarrow> (\<exists>fb qb cb n l. s' = s\<lparr>free_bitmap := fb, quarantined_bitmap := qb, cached_bitmap := cb,
     sp_central_free_count := n, sp_live_count := l\<rparr>)"

lemma same_span_refl [simp]: "same_span s s"
  unfolding same_span_def by (cases s) simp

lemma same_span_trans [trans]: "same_span s s' \<Longrightarrow> same_span s' s'' \<Longrightarrow> same_span s s''"
  unfolding same_span_def by (cases s) force

lemma same_span_sel:
  assumes "same_span s s'"
  shows "sp_sc s' = sp_sc s" "sp_state s' = sp_state s" "sp_object_count s' = sp_object_count s"
    "sp_arena s' = sp_arena s" "central_next s' = central_next s" "sp_base s' = sp_base s" "sp_flags s' = sp_flags s"
    "sp_page_count s' = sp_page_count s" "sp_slab_header s' = sp_slab_header s" "place_class s' = place_class s"
    "validate_integrity s' = validate_integrity s" "slab_geometry s' = slab_geometry s"
  using assms
  by (auto simp: same_span_def place_class_def validate_integrity_def compute_integrity_def slab_geometry_def)

lemma same_span_upd [simp]: "same_span s (set_live_count s n)"
  unfolding same_span_def set_live_count_def by (cases s) force

lemma central_insert_same: "central_insert s i = Ret (b, s') \<Longrightarrow> same_span s s'"
  unfolding central_insert_def same_span_def
  by (cases s; cases "FreeBitmap_insert (free_bitmap s) i") (force split: if_splits prod.splits)+

lemma clear_quarantined_same: "clear_quarantined s qb i = Ret (b, s') \<Longrightarrow> same_span s s'"
  unfolding clear_quarantined_def same_span_def
  by (cases s; cases "FreeBitmap_remove qb i") (force split: if_splits prod.splits)+

lemma unmark_cached_same: "same_span s (snd (unmark_cached s i))"
  unfolding unmark_cached_def same_span_def by (cases s) (force split: prod.splits)

lemma central_remove_batch_same: "central_remove_batch s n m = Ret (ids, s') \<Longrightarrow> same_span s s'"
  unfolding central_remove_batch_def Let_def same_span_def
  by (cases s; cases "fold_outcome (batch_word (sp_object_count s) (min m n)) [0..<fb_words (free_bitmap s)]
      (free_bitmap s, [])") (force split: if_splits prod.splits)+

lemma activate_same: "activate s n = Ret s' \<Longrightarrow> same_span s s'"
  unfolding activate_def same_span_def by (cases s; cases "fill_below n (free_bitmap s)") force+

lemma deactivate_same: "deactivate s = Ret s' \<Longrightarrow> same_span s s'"
  unfolding deactivate_def same_span_def by (cases s; cases "FreeBitmap_clear (free_bitmap s)") force+

subsection \<open>Inserting a batch into one span\<close>

lemma central_insert_quarantine:
  "central_insert s i = Ret (b, s') \<Longrightarrow> quarantined_bitmap s' = quarantined_bitmap s"
  unfolding central_insert_def
  by (cases "FreeBitmap_insert (free_bitmap s) i") (auto split: if_splits prod.splits)

lemma unmark_cached_wf:
  assumes "span_wf s"
  shows "span_wf (snd (unmark_cached s i))" and "free_set (snd (unmark_cached s i)) = free_set s"
    and "quarantined_bitmap (snd (unmark_cached s i)) = quarantined_bitmap s"
    and "sp_live_count (snd (unmark_cached s i)) = sp_live_count s"
proof -
  obtain cb where s': "snd (unmark_cached s i) = s\<lparr>cached_bitmap := cb\<rparr>" and cb: "cb_inv cb" "cb_cap cb = cb_cap (cached_bitmap s)"
  proof (cases "i < sp_object_count s")
    case False
    then have "snd (unmark_cached s i) = s\<lparr>cached_bitmap := cached_bitmap s\<rparr>" by (simp add: unmark_cached_def)
    then show ?thesis by (rule that) (use assms in \<open>simp_all add: span_wf_def\<close>)
  next
    case True
    then have "cb_inv (cached_bitmap s)" "i < cb_cap (cached_bitmap s)" using assms by (auto simp: span_wf_def)
    from cb.rem_law [OF this] obtain r b' where "CachedBits_clear (cached_bitmap s) i = (r, b')" "cb_inv b'"
      "cb_cap b' = cb_cap (cached_bitmap s)"
      by auto
    then show ?thesis using True that by (simp add: unmark_cached_def)
  qed
  show "span_wf (snd (unmark_cached s i))" unfolding s' using assms cb by (simp add: span_wf_def free_set_def)
  show "free_set (snd (unmark_cached s i)) = free_set s" "quarantined_bitmap (snd (unmark_cached s i)) = quarantined_bitmap s"
    "sp_live_count (snd (unmark_cached s i)) = sp_live_count s"
    unfolding s' by (simp_all add: free_set_def)
qed

lemma clear_quarantined_wf:
  assumes "span_wf s" and "quarantined_bitmap s = Some qb" and "i < sp_object_count s"
  obtains r qb' where "clear_quarantined s qb i = Ret (r, s\<lparr>quarantined_bitmap := Some qb'\<rparr>)"
    and "span_wf (s\<lparr>quarantined_bitmap := Some qb'\<rparr>)" and "fb_set qb' = fb_set qb - {i}"
proof -
  have q: "fb_inv qb" "sp_object_count s \<le> capacity_bits qb" using assms by (auto simp: span_wf_def)
  obtain qb' where b: "FreeBitmap_remove qb i = Ret (i \<in> fb_set qb, qb')" "fb_inv qb'" "fb_set qb' = fb_set qb - {i}"
    "capacity_bits qb' = capacity_bits qb"
    using fb.rem_law [OF q(1), of i] q(2) assms(3) by auto
  show ?thesis
  proof (rule that)
    show "clear_quarantined s qb i = Ret (i \<in> fb_set qb, s\<lparr>quarantined_bitmap := Some qb'\<rparr>)"
      using b(1) assms(3) by (simp add: clear_quarantined_def)
    show "span_wf (s\<lparr>quarantined_bitmap := Some qb'\<rparr>)" using assms(1) b q by (simp add: span_wf_def free_set_def)
  qed (rule b(3))
qed

definition inserted_ok :: "SpanDescriptor \<Rightarrow> nat list \<Rightarrow> SpanDescriptor \<Rightarrow> bool" where
  "inserted_ok s ids s' \<longleftrightarrow> span_wf s' \<and> quarantine_ok s' \<and> same_span s s' \<and> sp_live_count s' = sp_live_count s
     \<and> free_set s' = free_set s \<union> (set ids \<inter> {..<sp_object_count s})"

lemma insert_one_spec:
  assumes wf: "span_wf s" and q: "quarantine_ok s"
  obtains s' where "insert_one i (n, s) = Ret (n + (card (free_set s') - card (free_set s)), s')" and "inserted_ok s [i] s'"
proof -
  obtain s1 where s1: "central_insert s i = Ret (i < sp_object_count s \<and> i \<notin> free_set s, s1)" "span_wf s1"
    "free_set s1 = (if i < sp_object_count s then insert i (free_set s) else free_set s)"
    "sp_object_count s1 = sp_object_count s" "sp_live_count s1 = sp_live_count s"
    using central_insert_wf [OF wf, of i] by blast
  have sm: "same_span s s1" and qb: "quarantined_bitmap s1 = quarantined_bitmap s"
    using central_insert_same [OF s1(1)] central_insert_quarantine [OF s1(1)] by auto
  have fin: "finite (free_set s)" using wf finite_subset by (auto simp: span_wf_def)
  show ?thesis
  proof (cases "i < sp_object_count s \<and> i \<notin> free_set s")
    case False
    then have "free_set s1 = free_set s" using s1(3) by (auto simp: insert_absorb)
    then show ?thesis
      using that [of s1] s1 False sm q qb by (auto simp: insert_one_def inserted_ok_def quarantine_ok_def)
  next
    case True
    have card: "card (free_set s1) - card (free_set s) = 1" using s1(3) True fin by simp
    obtain s2 where s2: "(case quarantined_bitmap s1 of None \<Rightarrow> Ret s1
          | Some qb \<Rightarrow> bind_outcome (clear_quarantined s1 qb i) (\<lambda>(_, s). Ret s)) = Ret s2"
      "span_wf s2" "same_span s1 s2" "free_set s2 = free_set s1" "sp_live_count s2 = sp_live_count s1" "quarantine_ok s2"
    proof (cases "quarantined_bitmap s1")
      case None
      then show ?thesis using that [of s1] s1(2) by (simp add: quarantine_ok_def)
    next
      case (Some qb)
      obtain r qb' where c: "clear_quarantined s1 qb i = Ret (r, s1\<lparr>quarantined_bitmap := Some qb'\<rparr>)"
        "span_wf (s1\<lparr>quarantined_bitmap := Some qb'\<rparr>)" "fb_set qb' = fb_set qb - {i}"
        by (rule clear_quarantined_wf [OF s1(2) Some]) (use True s1(4) in auto)
      have "fb_set qb \<subseteq> {..<sp_object_count s}" "free_set s \<inter> fb_set qb = {}"
        using q Some unfolding qb by (auto simp: quarantine_ok_def)
      then have "quarantine_ok (s1\<lparr>quarantined_bitmap := Some qb'\<rparr>)"
        using c(3) s1(3,4) True by (auto simp: quarantine_ok_def free_set_def)
      then show ?thesis
        using that [of "s1\<lparr>quarantined_bitmap := Some qb'\<rparr>"] c(1,2) Some clear_quarantined_same [OF c(1)]
        by (simp add: free_set_def)
    qed
    let ?s = "snd (unmark_cached s2 i)"
    note U = unmark_cached_wf [OF s2(2), of i]
    have "insert_one i (n, s) = Ret (n + 1, ?s)" using s1(1) True s2(1) by (simp add: insert_one_def)
    moreover have "same_span s ?s"
      using same_span_trans [OF same_span_trans [OF sm s2(3)] unmark_cached_same] .
    moreover have "quarantine_ok ?s"
      using s2(6) U(2,3) same_span_sel(3) [OF unmark_cached_same, of s2 i] by (simp add: quarantine_ok_def)
    ultimately show ?thesis
      using that [of ?s] U s2 s1 True card by (auto simp: inserted_ok_def)
  qed
qed

lemma free_set_finite: "span_wf s \<Longrightarrow> finite (free_set s)"
  using finite_subset by (auto simp: span_wf_def)

lemma inserted_okD:
  assumes "inserted_ok s ids s'"
  shows "span_wf s'" "quarantine_ok s'" "same_span s s'" "sp_live_count s' = sp_live_count s"
    "free_set s' = free_set s \<union> (set ids \<inter> {..<sp_object_count s})" "sp_object_count s' = sp_object_count s"
    "card (free_set s) \<le> card (free_set s')"
proof -
  show wf: "span_wf s'" and "quarantine_ok s'" and sm: "same_span s s'" and "sp_live_count s' = sp_live_count s"
    and f: "free_set s' = free_set s \<union> (set ids \<inter> {..<sp_object_count s})"
    using assms unfolding inserted_ok_def by blast+
  show "sp_object_count s' = sp_object_count s" by (rule same_span_sel(3) [OF sm])
  have "free_set s \<subseteq> free_set s'" unfolding f by blast
  then show "card (free_set s) \<le> card (free_set s')" by (rule card_mono [OF free_set_finite [OF wf]])
qed

lemma inserted_ok_trans:
  assumes "inserted_ok s [i] s1" and "inserted_ok s1 ids s'"
  shows "inserted_ok s (i # ids) s'"
proof -
  note A = inserted_okD [OF assms(1)] and B = inserted_okD [OF assms(2)]
  have "free_set s' = free_set s \<union> (set (i # ids) \<inter> {..<sp_object_count s})" unfolding B(5) A(5,6) by auto
  then show ?thesis unfolding inserted_ok_def using A(3,4) B(1-4) same_span_trans by auto
qed

lemma insert_batch_fold:
  assumes "span_wf s" and "quarantine_ok s"
  shows "\<exists>s'. fold_outcome insert_one ids (n, s) = Ret (n + (card (free_set s') - card (free_set s)), s') \<and> inserted_ok s ids s'"
  using assms
proof (induction ids arbitrary: n s)
  case Nil
  then show ?case by (intro exI [of _ s]) (simp add: inserted_ok_def)
next
  case (Cons i ids)
  obtain s1 where s1: "insert_one i (n, s) = Ret (n + (card (free_set s1) - card (free_set s)), s1)" "inserted_ok s [i] s1"
    by (rule insert_one_spec [OF Cons.prems])
  note A = inserted_okD [OF s1(2)]
  obtain s' where s': "fold_outcome insert_one ids (n + (card (free_set s1) - card (free_set s)), s1)
      = Ret (n + (card (free_set s1) - card (free_set s)) + (card (free_set s') - card (free_set s1)), s')"
    "inserted_ok s1 ids s'"
    using Cons.IH [OF A(1,2)] by blast
  have "fold_outcome insert_one (i # ids) (n, s) = Ret (n + (card (free_set s') - card (free_set s)), s')"
    using s1(1) s'(1) A(7) inserted_okD(7) [OF s'(2)] by simp
  then show ?case using inserted_ok_trans [OF s1(2) s'(2)] by blast
qed

end
