(* ===== verification/Central_Ops.thy ===== *)
theory Central_Ops
  imports Central_Inv
begin

text \<open>
  The invariant of a bin of the central free list and the operations that keep it:
  finding, carving, inserting, activating and tearing down spans.
\<close>

section \<open>The invariant of a bin\<close>

text \<open>
  What a bin stands for: the spans of the partial and the empty list, all spans it tracks, and the
  emptied spans that were handed to a caller for deactivation.
\<close>

record bin_abs =
  ab_partial :: "addr list"
  ab_empty :: "addr list"
  ab_tracked :: "addr set"
  ab_pending :: "addr set"

definition central_free :: "span_store \<Rightarrow> addr \<Rightarrow> nat" where
  "central_free st p = sp_central_free_count (st p)"

definition tracked_ok :: "SizeClassId \<Rightarrow> span_store \<Rightarrow> addr set \<Rightarrow> bool" where
  "tracked_ok k st T \<longleftrightarrow> finite T \<and> card T < 2 ^ 32 \<and> (\<forall>p\<in>T. span_ok k (st p))"

definition shelved :: "span_store \<Rightarrow> bin_abs \<Rightarrow> bool" where
  "shelved st a \<longleftrightarrow> set (ab_partial a) \<union> set (ab_empty a) \<union> ab_pending a \<subseteq> ab_tracked a
     \<and> set (ab_partial a) \<inter> set (ab_empty a) = {} \<and> ab_pending a \<inter> (set (ab_partial a) \<union> set (ab_empty a)) = {}
     \<and> length (ab_empty a) \<le> MAX_EMPTY_CACHED_PER_BIN
     \<and> (\<forall>p\<in>set (ab_partial a). 0 < central_free st p)
     \<and> (\<forall>p\<in>set (ab_empty a) \<union> ab_pending a. central_free st p = sp_object_count (st p))
     \<and> (\<forall>p\<in>ab_tracked a - set (ab_partial a) - set (ab_empty a) - ab_pending a. central_free st p = 0)"

definition counted :: "CentralBin \<Rightarrow> span_store \<Rightarrow> addr set \<Rightarrow> bool" where
  "counted b st T \<longleftrightarrow> cb_span_count b = card T \<and> total_central_free b = (\<Sum>p\<in>T. central_free st p)"

definition bin_inv :: "SizeClassId \<Rightarrow> CentralBin \<Rightarrow> span_store \<Rightarrow> bin_abs \<Rightarrow> bool" where
  "bin_inv k b st a \<longleftrightarrow> pl.listed b st (ab_partial a) \<and> el.listed b st (ab_empty a)
     \<and> tracked_ok k st (ab_tracked a) \<and> shelved st a \<and> counted b st (ab_tracked a)"

lemma bin_invD:
  assumes "bin_inv k b st a"
  shows "pl.listed b st (ab_partial a)" "el.listed b st (ab_empty a)" "tracked_ok k st (ab_tracked a)" "shelved st a"
    "counted b st (ab_tracked a)"
  using assms unfolding bin_inv_def by blast+

lemma tracked_okD:
  assumes "tracked_ok k st T"
  shows "finite T" "card T < 2 ^ 32" "p \<in> T \<Longrightarrow> span_ok k (st p)"
  using assms unfolding tracked_ok_def by blast+

lemma span_okD:
  assumes "span_ok k s"
  shows "span_wf s" "slab_geometry s" "quarantine_ok s" "sp_sc s = k" "sp_state s = SpanActive"
    "sp_live_count s + sp_central_free_count s = sp_object_count s" "sp_central_free_count s = card (free_set s)"
    "sp_object_count s \<le> 2 ^ 16" "0 < sp_object_count s"
  using assms unfolding span_ok_def span_wf_def slab_geometry_def by blast+

lemma shelvedD:
  assumes "shelved st a"
  shows "set (ab_partial a) \<subseteq> ab_tracked a" "set (ab_empty a) \<subseteq> ab_tracked a" "ab_pending a \<subseteq> ab_tracked a"
    "set (ab_partial a) \<inter> set (ab_empty a) = {}" "ab_pending a \<inter> (set (ab_partial a) \<union> set (ab_empty a)) = {}"
    "length (ab_empty a) \<le> MAX_EMPTY_CACHED_PER_BIN"
    "p \<in> set (ab_partial a) \<Longrightarrow> 0 < central_free st p"
    "p \<in> set (ab_empty a) \<union> ab_pending a \<Longrightarrow> central_free st p = sp_object_count (st p)"
    "p \<in> ab_tracked a - set (ab_partial a) - set (ab_empty a) - ab_pending a \<Longrightarrow> central_free st p = 0"
  using assms unfolding shelved_def by blast+

subsection \<open>List surgery keeps everything but the lists\<close>

lemma flag_link_sel:
  assumes "s' = s\<lparr>sp_flags := f, central_next := n\<rparr>"
  shows "sp_central_free_count s' = sp_central_free_count s" "sp_object_count s' = sp_object_count s"
    "free_set s' = free_set s" "sp_live_count s' = sp_live_count s" "sp_arena s' = sp_arena s" "sp_sc s' = sp_sc s"
    "sp_state s' = sp_state s" "span_ok k s' = span_ok k s"
  by (simp_all add: assms free_set_def span_ok_def span_wf_def slab_geometry_def quarantine_ok_def
      validate_integrity_def compute_integrity_def)

lemma relinked_sel:
  assumes "relinked A st st'"
  shows "central_free st' p = central_free st p" "sp_object_count (st' p) = sp_object_count (st p)"
    "free_set (st' p) = free_set (st p)" "sp_live_count (st' p) = sp_live_count (st p)"
    "sp_arena (st' p) = sp_arena (st p)" "span_ok k (st' p) = span_ok k (st p)" "sp_sc (st' p) = sp_sc (st p)"
proof -
  obtain f n where "st' p = (st p)\<lparr>sp_flags := f, central_next := n\<rparr>" using relinkedD(2) [OF assms] by blast
  note F = flag_link_sel [OF this]
  show "central_free st' p = central_free st p" using F(1) by (simp add: central_free_def)
  show "sp_object_count (st' p) = sp_object_count (st p)" "free_set (st' p) = free_set (st p)"
    "sp_live_count (st' p) = sp_live_count (st p)" "sp_arena (st' p) = sp_arena (st p)"
    "span_ok k (st' p) = span_ok k (st p)" "sp_sc (st' p) = sp_sc (st p)"
    by (rule F)+
qed

lemma relinked_inv:
  assumes "relinked A st st'"
  shows "tracked_ok k st' T = tracked_ok k st T" "shelved st' a = shelved st a" "counted b st' T = counted b st T"
  unfolding tracked_ok_def shelved_def counted_def relinked_sel [OF assms] by simp_all

lemma counted_upd [simp]:
  "counted (b\<lparr>partial_head := h, partial_count := n\<rparr>) st T = counted b st T"
  "counted (b\<lparr>empty_head := h, empty_count := n\<rparr>) st T = counted b st T"
  "counted (b\<lparr>partial_head := h\<rparr>) st T = counted b st T"
  by (simp_all add: counted_def)

lemma listed_upd [simp]:
  "el.listed (b\<lparr>partial_head := h, partial_count := n\<rparr>) st ps = el.listed b st ps"
  "el.listed (b\<lparr>partial_head := h\<rparr>) st ps = el.listed b st ps"
  "el.listed (b\<lparr>total_central_free := t\<rparr>) st ps = el.listed b st ps"
  "el.listed (b\<lparr>cb_span_count := t\<rparr>) st ps = el.listed b st ps"
  "pl.listed (b\<lparr>empty_head := h, empty_count := n\<rparr>) st ps = pl.listed b st ps"
  "pl.listed (b\<lparr>total_central_free := t\<rparr>) st ps = pl.listed b st ps"
  "pl.listed (b\<lparr>cb_span_count := t\<rparr>) st ps = pl.listed b st ps"
  by (simp_all add: pl.listed_def el.listed_def)

lemma listed_room:
  assumes "tracked_ok k st T" and "distinct ps" and "set ps \<subseteq> T"
  shows "length ps < 2 ^ 32"
  using card_mono [OF tracked_okD(1) [OF assms(1)] assms(3)] tracked_okD(2) [OF assms(1)] distinct_card [OF assms(2)] by simp

section \<open>Removing a batch\<close>

lemma distinct_to_front: "distinct xs \<Longrightarrow> t \<in> set xs \<Longrightarrow> distinct (t # remove1 t xs) \<and> set (t # remove1 t xs) = set xs
    \<and> length (t # remove1 t xs) = length xs"
  by (auto simp: length_remove1 dest: length_pos_if_in_set)

lemma find_partial_inv:
  assumes inv: "bin_inv k b st a"
  obtains "find_partial_for_arena ar pc (b, st) = (None, b, st)" and "\<forall>q\<in>set (ab_partial a). \<not> span_matches ar pc (st q)"
  | t b' st' ps where "find_partial_for_arena ar pc (b, st) = (Some t, b', st')" and "span_matches ar pc (st t)"
      and "t \<in> set (ab_partial a)" and "bin_inv k b' st' (a\<lparr>ab_partial := t # ps\<rparr>)" and "relinked (set (ab_partial a)) st st'"
proof -
  note I = bin_invD [OF inv]
  let ?ps = "ab_partial a"
  have l: "slseg st (partial_head b) ?ps None" "distinct ?ps" "partial_count b = length ?ps" "length ?ps < 2 ^ 32"
    using I(1) by (simp_all add: pl.listed_def)
  show ?thesis
  proof (cases ?ps)
    case Nil
    then have "partial_head b = None" using l(1) by simp
    then show ?thesis using that(1) Nil by (simp add: find_partial_for_arena_def)
  next
    case (Cons h qs)
    then have h: "partial_head b = Some h" using l(1) by simp
    show ?thesis
    proof (cases "span_matches ar pc (st h)")
      case True
      have "a\<lparr>ab_partial := h # qs\<rparr> = a" by (simp add: Cons [symmetric])
      then have "bin_inv k b st (a\<lparr>ab_partial := h # qs\<rparr>)" using inv by metis
      then show ?thesis using that(2) [of h b st qs] True h Cons by (simp add: find_partial_for_arena_def)
    next
      case False
      have s: "slseg st (Some h) ([] @ h # qs) None" "distinct ([] @ h # qs)" "length qs < partial_count b"
        "\<forall>q\<in>set ([] @ [h]). \<not> span_matches ar pc (st q)"
        using l h Cons False by auto
      have e: "find_partial_for_arena ar pc (b, st) = find_scan ar pc (partial_count b) h h (b, st)"
        using h False by (simp add: find_partial_for_arena_def)
      obtain r b' st' where r: "find_scan ar pc (partial_count b) h h (b, st) = (r, b', st')" by (metis prod_cases3)
      show ?thesis
      proof (cases r)
        case None
        then show ?thesis using that(1) find_scan_spec [OF s, of b] r e Cons False by simp
      next
        case (Some t)
        have t: "t \<in> set qs" "span_matches ar pc (st t)" "b' = b\<lparr>partial_head := Some t\<rparr>"
          "slseg st' (Some t) (t # remove1 t ?ps) None" "relinked (set ?ps) st st'"
          using find_scan_spec [OF s, of b] r Some Cons by auto
        note R = relinked_inv [OF t(5)]
        have d: "distinct (t # remove1 t ?ps)" "set (t # remove1 t ?ps) = set ?ps" "length (t # remove1 t ?ps) = length ?ps"
          using distinct_to_front [OF l(2), of t] t(1) Cons by auto
        have "pl.listed b' st' (t # remove1 t ?ps)"
          unfolding pl.listed_def using d l(3,4) t(3,4) by simp
        moreover have "el.listed b' st' (ab_empty a)"
          using el.listed_relinked [OF I(2) t(5)] shelvedD(4) [OF I(4)] t(3) by auto
        moreover have "shelved st (a\<lparr>ab_partial := t # remove1 t ?ps\<rparr>)"
          using I(4) d(2) unfolding shelved_def by simp
        ultimately have "bin_inv k b' st' (a\<lparr>ab_partial := t # remove1 t ?ps\<rparr>)"
          using I(3,5) R t(3) by (simp add: bin_inv_def)
        then show ?thesis using that(2) t(1,2,5) e r Some Cons by auto
      qed
    qed
  qed
qed

lemma empty_cache_cases:
  assumes "bin_inv k b st a"
  obtains "ab_empty a = []" | e where "ab_empty a = [e]"
proof -
  have "length (ab_empty a) \<le> 1"
    using shelvedD(6) [OF bin_invD(4) [OF assms]] by (simp add: MAX_EMPTY_CACHED_PER_BIN_def)
  then show ?thesis using that by (cases "ab_empty a"; cases "tl (ab_empty a)") auto
qed

lemma take_empty_inv:
  assumes inv: "bin_inv k b st a"
  obtains b' st' where "take_empty fs ar pc (b, st) = (None, b', st')" and "bin_inv k b' st' a"
      and "relinked (set (ab_empty a)) st st'" and "fs \<or> (\<forall>e\<in>set (ab_empty a). sp_arena (st e) \<noteq> ar)"
  | e b' st' where "take_empty fs ar pc (b, st) = (Some e, b', st')" and "ab_empty a = [e]" and "sp_arena (st e) = ar"
      and "bin_inv k b' st' (a\<lparr>ab_partial := e # ab_partial a, ab_empty := []\<rparr>)" and "relinked (set (ab_empty a)) st st'"
proof (cases fs)
  case True
  then show ?thesis using that(1) [of b st] inv by (simp add: take_empty_def)
next
  case fs: False
  note I = bin_invD [OF inv]
  show ?thesis
  proof (rule empty_cache_cases [OF inv])
    assume e: "ab_empty a = []"
    then have "pop_empty (b, st) = (None, b, st)" using I(2) el.pop_empty_listed by simp
    then show ?thesis using that(1) [of b st] inv fs e by (simp add: take_empty_def)
  next
    fix e assume e: "ab_empty a = [e]"
    obtain b1 st1 where p: "pop_empty (b, st) = (Some e, b1, st1)" "b1 = b\<lparr>empty_head := empty_head b1, empty_count := 0\<rparr>"
      "el.listed b1 st1 []" "relinked {e} st st1"
      by (rule el.pop_listed [OF I(2) [unfolded e]]) simp
    have ep: "e \<notin> set (ab_partial a)" "e \<in> ab_tracked a" using shelvedD(2,4) [OF I(4)] e by auto
    have pl1: "pl.listed b1 st1 (ab_partial a)"
      using pl.listed_relinked [OF I(1) p(4)] ep(1) by (subst p(2)) simp
    note R1 = relinked_inv [OF p(4)]
    have c1: "counted b1 st1 (ab_tracked a)" unfolding R1 by (subst p(2)) (simp add: I(5))
    show ?thesis
    proof (cases "sp_arena (st e) = ar")
      case False
      obtain st2 where q: "push_empty e (b1, st1) = (b1\<lparr>empty_head := Some e, empty_count := Suc 0\<rparr>, st2)"
        "el.listed (b1\<lparr>empty_head := Some e, empty_count := Suc 0\<rparr>) st2 [e]" "relinked {e} st1 st2"
        by (rule el.push_listed [OF p(3), of e]) simp_all
      let ?b = "b1\<lparr>empty_head := Some e, empty_count := Suc 0\<rparr>"
      note R2 = relinked_inv [OF q(3)]
      have "pl.listed ?b st2 (ab_partial a)" using pl.listed_relinked [OF pl1 q(3)] ep(1) by simp
      then have "bin_inv k ?b st2 a"
        using q(2) I(3,4) c1 e by (simp add: bin_inv_def R1 R2)
      moreover have "take_empty fs ar pc (b, st) = (None, ?b, st2)"
        using fs p(1) q(1) False relinked_sel(5) [OF p(4), of e] by (simp add: take_empty_def)
      ultimately show ?thesis
        using that(1) [of ?b st2] relinked_trans [OF p(4) q(3)] e False by simp
    next
      case True
      define st2 where "st2 = (if pc \<noteq> ANY_PLACE_CLASS then st1(e := set_place_class (st1 e) pc) else st1)"
      have r2: "relinked {e} st1 st2"
      proof (rule relinkedI)
        show "\<exists>f n. st2 q = (st1 q)\<lparr>sp_flags := f, central_next := n\<rparr>" for q
          unfolding st2_def
          by (intro exI [of _ "sp_flags (st2 q)"] exI [of _ "central_next (st1 q)"])
            (simp add: set_place_class_def Let_def st2_def)
      qed (simp add: st2_def)
      have pl2: "pl.listed b1 st2 (ab_partial a)" using pl.listed_relinked [OF pl1 r2] ep(1) by simp
      have d: "distinct (ab_partial a)" using I(1) by (simp add: pl.listed_def)
      have "length (e # ab_partial a) < 2 ^ 32"
        by (rule listed_room [OF I(3)]) (use d ep shelvedD(1) [OF I(4)] in auto)
      then have room: "Suc (length (ab_partial a)) < 2 ^ 32" by simp
      let ?b = "b1\<lparr>partial_head := Some e, partial_count := Suc (length (ab_partial a))\<rparr>"
      obtain st3 where q: "push_partial e (b1, st2) = (?b, st3)" "pl.listed ?b st3 (e # ab_partial a)" "relinked {e} st2 st3"
        by (rule pl.push_listed [OF pl2 ep(1) room])
      note R2 = relinked_inv [OF r2] and R3 = relinked_inv [OF q(3)]
      have "el.listed b1 st3 []" using p(3) by (simp add: el.listed_def)
      then have el3: "el.listed ?b st3 []" by simp
      have "0 < central_free st e"
        using shelvedD(8) [OF I(4), of e] e span_okD(9) [OF tracked_okD(3) [OF I(3) ep(2)]] by simp
      then have "shelved st (a\<lparr>ab_partial := e # ab_partial a, ab_empty := []\<rparr>)"
        using I(4) e ep unfolding shelved_def by auto
      then have "bin_inv k ?b st3 (a\<lparr>ab_partial := e # ab_partial a, ab_empty := []\<rparr>)"
        using q(2) el3 I(3) c1 by (simp add: bin_inv_def R1 R2 R3)
      moreover have "take_empty fs ar pc (b, st) = (Some e, ?b, st3)"
        using fs p(1) q(1) True relinked_sel(5) [OF p(4), of e] by (simp add: take_empty_def Let_def st2_def)
      moreover have "relinked {e} st st3" by (rule relinked_trans [OF relinked_trans [OF p(4) r2] q(3)])
      ultimately show ?thesis using that(2) [of e ?b st3] e True by simp
    qed
  qed
qed

lemma central_remove_batch_quarantine:
  "central_remove_batch s n m = Ret (ids, s') \<Longrightarrow> quarantined_bitmap s' = quarantined_bitmap s"
  unfolding central_remove_batch_def Let_def
  by (cases "fold_outcome (batch_word (sp_object_count s) (min m n)) [0..<fb_words (free_bitmap s)]
      (free_bitmap s, [])") (auto split: if_splits prod.splits)

lemma central_free_upd: "central_free (st(p := s)) q = (if q = p then sp_central_free_count s else central_free st q)"
  by (simp add: central_free_def)

lemma sum_central_free_upd:
  assumes "finite T" and "p \<in> T"
  shows "(\<Sum>q\<in>T. central_free (st(p := s)) q) + central_free st p = (\<Sum>q\<in>T. central_free st q) + sp_central_free_count s"
proof -
  have "(\<Sum>q\<in>T - {p}. central_free (st(p := s)) q) = (\<Sum>q\<in>T - {p}. central_free st q)"
    by (rule sum.cong) (auto simp: central_free_upd)
  then show ?thesis
    using sum.remove [OF assms, of "central_free st"] sum.remove [OF assms, of "central_free (st(p := s))"]
    by (simp add: central_free_upd)
qed

lemma total_bound:
  assumes "tracked_ok k st T"
  shows "(\<Sum>q\<in>T. central_free st q) < 2 ^ 48"
proof -
  have "central_free st q \<le> 2 ^ 16" if "q \<in> T" for q
    using span_okD(6,8) [OF tracked_okD(3) [OF assms that]] by (simp add: central_free_def)
  then have "(\<Sum>q\<in>T. central_free st q) \<le> (\<Sum>q\<in>T. 2 ^ 16)" by (rule sum_mono)
  also have "\<dots> = card T * 2 ^ 16" by simp
  also have "\<dots> < 2 ^ 32 * 2 ^ 16" using tracked_okD(2) [OF assms] by simp
  finally show ?thesis by simp
qed

lemma tracked_upd:
  assumes "tracked_ok k st T" and "span_ok k s"
  shows "tracked_ok k (st(p := s)) T"
  using assms by (simp add: tracked_ok_def)

lemma listed_same_next:
  assumes "central_next s = central_next (st p)"
  shows "pl.listed b (st(p := s)) ps = pl.listed b st ps" "el.listed b (st(p := s)) ps = el.listed b st ps"
proof -
  have "slseg (st(p := s)) h ps None = slseg st h ps None" for h by (rule slseg_cong) (simp add: assms)
  then show "pl.listed b (st(p := s)) ps = pl.listed b st ps" "el.listed b (st(p := s)) ps = el.listed b st ps"
    by (simp_all add: pl.listed_def el.listed_def)
qed

text \<open>Taking the objects \<open>ids\<close> out of a span.\<close>

lemma taken_span_ok:
  assumes s: "span_ok k s" and n: "n = min (min desired (sp_central_free_count s)) MAX_BATCH_LEN"
  obtains ids s' where "central_remove_batch s MAX_BATCH_LEN n = Ret (ids, s')"
    and "ids = take (min desired MAX_BATCH_LEN) (filter (\<lambda>i. i \<in> free_set s) [0..<sp_object_count s])"
    and "span_ok k (set_live_count s' (wrapping_add 32 (sp_live_count s') (length ids)))"
    and "same_span s s'" and "free_set s' = free_set s - set ids" and "distinct ids" and "set ids \<subseteq> free_set s"
    and "sp_central_free_count s' + length ids = sp_central_free_count s"
proof -
  note S = span_okD [OF s]
  let ?l = "filter (\<lambda>i. i \<in> free_set s) [0..<sp_object_count s]"
  let ?ids = "take (min n MAX_BATCH_LEN) ?l"
  obtain s' where r: "central_remove_batch s MAX_BATCH_LEN n = Ret (?ids, s')" "span_wf s'" "free_set s' = free_set s - set ?ids"
    "sp_object_count s' = sp_object_count s" "sp_live_count s' = sp_live_count s"
    using central_remove_batch_spec [OF S(1), where out_len = MAX_BATCH_LEN and max_count = n] by blast
  have "free_set s \<subseteq> {..<sp_object_count s}" using S(1) by (simp add: span_wf_def)
  then have "set ?l = free_set s" by auto
  then have len: "length ?l = sp_central_free_count s" using S(7) distinct_card [of ?l] by simp
  have ids: "?ids = take (min desired MAX_BATCH_LEN) ?l" unfolding n using len by (auto simp: take_all_iff min_def)
  have d: "distinct ?ids" by (simp add: distinct_take)
  have sub: "set ?ids \<subseteq> free_set s" using set_take_subset [of "min n MAX_BATCH_LEN" ?l] by auto
  note d = d sub
  have "card (free_set s') = card (free_set s) - length ?ids"
    unfolding r(3) using card_Diff_subset [OF finite_set d(2)] distinct_card [OF d(1)] by simp
  moreover have "length ?ids \<le> card (free_set s)"
    using card_mono [OF free_set_finite [OF S(1)] d(2)] distinct_card [OF d(1)] by simp
  ultimately have c: "sp_central_free_count s' + length ?ids = sp_central_free_count s"
    using r(2) S(7) by (simp add: span_wf_def)
  have sm: "same_span s s'" by (rule central_remove_batch_same [OF r(1)])
  have q: "quarantined_bitmap s' = quarantined_bitmap s" using r(1) by (rule central_remove_batch_quarantine)
  let ?s = "set_live_count s' (wrapping_add 32 (sp_live_count s') (length ?ids))"
  have "wrapping_add 32 (sp_live_count s') (length ?ids) = sp_live_count s + length ?ids"
    using r(5) c S(6,8) by (subst wrapping_add_exact) auto
  then have live: "sp_live_count ?s + sp_central_free_count ?s = sp_object_count ?s"
    using c S(6) r(4) by (simp add: set_live_count_def)
  have "same_span s ?s" by (rule same_span_trans [OF sm same_span_upd])
  note E = same_span_sel [OF this]
  have "quarantine_ok ?s" using S(3) r(3) q E(3) unfolding quarantine_ok_def by (auto simp: set_live_count_def free_set_def)
  moreover have "span_wf ?s" using r(2) by (simp add: set_live_count_def span_wf_def free_set_def)
  ultimately have "span_ok k ?s" unfolding span_ok_def E using S(2,4,5) live E(3) by simp
  then show ?thesis using that [OF r(1) ids _ sm r(3) d] c by simp
qed

text \<open>The span \<open>p\<close> gave away the objects \<open>ids\<close>; no other descriptor changed.\<close>

definition gave :: "span_store \<Rightarrow> addr \<Rightarrow> nat list \<Rightarrow> span_store \<Rightarrow> bool" where
  "gave st p ids st' \<longleftrightarrow> distinct ids \<and> set ids \<subseteq> free_set (st p) \<and> free_set (st' p) = free_set (st p) - set ids
     \<and> sp_object_count (st' p) = sp_object_count (st p) \<and> sp_arena (st' p) = sp_arena (st p) \<and> (\<forall>q. q \<noteq> p \<longrightarrow> st' q = st q)"

lemma bin_inv_total:
  assumes "bin_inv k b st a"
  shows "total_central_free b = (\<Sum>q\<in>ab_tracked a. central_free st q)" "total_central_free b < 2 ^ 48"
  using bin_invD(5) [OF assms] total_bound [OF bin_invD(3) [OF assms]] by (simp_all add: counted_def)

lemma shelved_take:
  assumes "shelved st a" and "ab_partial a = p # ps" and "distinct (p # ps)"
    and "sp_object_count s = sp_object_count (st p)"
  shows "shelved (st(p := s)) (a\<lparr>ab_partial := if sp_central_free_count s = 0 then ps else p # ps\<rparr>)"
  using assms unfolding shelved_def by (auto simp: central_free_def)

lemma carve_inv:
  assumes inv: "bin_inv k b st a" and p: "ab_partial a = p # ps"
  obtains r b' st' ids ps' where "carve_batch desired p (b, st) = Ret (r, b', st')"
    and "r = (if ids = [] then NeedSpan else RemoveOk \<lparr>ba_span = p, ba_indices = ids\<rparr>)"
    and "ids = take (min desired MAX_BATCH_LEN) (filter (\<lambda>i. i \<in> free_set (st p)) [0..<sp_object_count (st p)])"
    and "bin_inv k b' st' (a\<lparr>ab_partial := ps'\<rparr>)" and "gave st p ids st'"
proof -
  note I = bin_invD [OF inv]
  have pT: "p \<in> ab_tracked a" and pos: "0 < central_free st p" using shelvedD(1,7) [OF I(4)] p by auto
  note ok = tracked_okD(3) [OF I(3) pT]
  have dp: "distinct (p # ps)" using I(1) p by (simp add: pl.listed_def)
  obtain ids s1 where r: "central_remove_batch (st p) MAX_BATCH_LEN (min (min desired (sp_central_free_count (st p))) MAX_BATCH_LEN)
      = Ret (ids, s1)"
    "ids = take (min desired MAX_BATCH_LEN) (filter (\<lambda>i. i \<in> free_set (st p)) [0..<sp_object_count (st p)])"
    "span_ok k (set_live_count s1 (wrapping_add 32 (sp_live_count s1) (length ids)))" "same_span (st p) s1"
    "free_set s1 = free_set (st p) - set ids" "distinct ids" "set ids \<subseteq> free_set (st p)"
    "sp_central_free_count s1 + length ids = sp_central_free_count (st p)"
    by (rule taken_span_ok [OF ok refl, of desired])
  define s where "s = set_live_count s1 (wrapping_add 32 (sp_live_count s1) (length ids))"
  have sm: "same_span (st p) s" unfolding s_def by (rule same_span_trans [OF r(4) same_span_upd])
  note E = same_span_sel [OF sm]
  have cf: "sp_central_free_count s + length ids = central_free st p" and fs: "free_set s = free_set (st p) - set ids"
    using r(5,8) by (simp_all add: s_def set_live_count_def central_free_def free_set_def)
  let ?st = "st(p := s)" and ?ps = "if sp_central_free_count s = 0 then ps else p # ps"
  have sum: "(\<Sum>q\<in>ab_tracked a. central_free ?st q) + length ids = (\<Sum>q\<in>ab_tracked a. central_free st q)"
    using sum_central_free_upd [OF tracked_okD(1) [OF I(3)] pT, of st s] cf by simp
  obtain b1 st1 where c: "(if sp_central_free_count s = 0 then snd (pop_partial (b, ?st)) else (b, ?st)) = (b1, st1)"
    "pl.listed b1 st1 ?ps" "el.listed b1 st1 (ab_empty a)" "relinked {p} ?st st1" "cb_span_count b1 = cb_span_count b"
    "total_central_free b1 = total_central_free b"
  proof (cases "sp_central_free_count s = 0")
    case False
    then show ?thesis using that [of b ?st] I(1,2) p listed_same_next [of s st p, OF E(5)] by simp
  next
    case True
    have "pl.listed b ?st (p # ps)" using I(1) p listed_same_next [of s st p, OF E(5)] by simp
    then obtain b1 st1 where q: "pop_partial (b, ?st) = (Some p, b1, st1)"
      "b1 = b\<lparr>partial_head := partial_head b1, partial_count := length ps\<rparr>" "pl.listed b1 st1 ps" "relinked {p} ?st st1"
      by (rule pl.pop_listed)
    have "el.listed b ?st (ab_empty a)" using I(2) listed_same_next [of s st p, OF E(5)] by simp
    then have "el.listed b1 st1 (ab_empty a)"
      using el.listed_relinked [OF _ q(4)] shelvedD(4) [OF I(4)] p by (subst q(2)) auto
    moreover have "cb_span_count b1 = cb_span_count b" "total_central_free b1 = total_central_free b"
      by (subst q(2), simp)+
    ultimately show ?thesis using that [of b1 st1] True q by simp
  qed
  define b2 where "b2 = b1\<lparr>total_central_free := wrapping_sub 64 (total_central_free b1) (length ids)\<rparr>"
  have "wrapping_sub 64 (total_central_free b1) (length ids) = total_central_free b - length ids"
    unfolding c(6) using bin_inv_total [OF inv] sum by (intro wrapping_sub_exact) auto
  then have cnt: "counted b2 st1 (ab_tracked a)"
    using I(5) sum bin_inv_total(1) [OF inv] c(5) relinked_sel(1) [OF c(4)] by (simp add: counted_def b2_def)
  note R = relinked_inv [OF c(4)]
  have "bin_inv k b2 st1 (a\<lparr>ab_partial := ?ps\<rparr>)"
    unfolding bin_inv_def
    using c(2,3) cnt tracked_upd [OF I(3) r(3) [folded s_def], of p] shelved_take [OF I(4) p dp E(3)]
    by (simp add: R b2_def)
  moreover have "gave st p ids st1"
  proof -
    have "st1 q = st q" if "q \<noteq> p" for q using relinkedD(1) [OF c(4), of q] that by simp
    then show ?thesis
      using r(6,7) fs E(3,4) relinked_sel(2,3,5) [OF c(4), of p] by (simp add: gave_def)
  qed
  moreover have "carve_batch desired p (b, st)
      = Ret (if ids = [] then NeedSpan else RemoveOk \<lparr>ba_span = p, ba_indices = ids\<rparr>, b2, st1)"
    using pos r(1) c(1) unfolding carve_batch_def b2_def s_def
    by (simp add: Let_def central_free_def Batch_is_empty_def Batch_len_def)
  ultimately show ?thesis using that r(2) by blast
qed

section \<open>Inserting a batch\<close>

lemma insert_span_ok:
  assumes s: "span_ok k s" and i: "inserted_ok s ids s'" and n: "n = card (free_set s') - card (free_set s)"
    and s2: "s2 = (if 0 < n then set_live_count s' (wrapping_sub 32 (sp_live_count s') n) else s')"
  shows "span_ok k s2" "sp_central_free_count s2 = sp_central_free_count s + n" "same_span s s2"
    "free_set s2 = free_set s \<union> (set ids \<inter> {..<sp_object_count s})"
proof -
  note S = span_okD [OF s] and J = inserted_okD [OF i]
  have c: "sp_central_free_count s' = sp_central_free_count s + n" using J(1,7) S(7) n by (simp add: span_wf_def)
  have le: "sp_central_free_count s' \<le> sp_object_count s"
    using span_wf_count(1) [OF J(1)] J(1,6) by (simp add: span_wf_def)
  show sm: "same_span s s2" unfolding s2 using same_span_trans [OF J(3) same_span_upd] J(3) by simp
  note E = same_span_sel [OF sm]
  have "wrapping_sub 32 (sp_live_count s') n = sp_live_count s - n"
    unfolding J(4) using c le S(6,8) by (intro wrapping_sub_exact) auto
  then have l: "sp_live_count s2 = sp_live_count s - n" using J(4) by (simp add: s2 set_live_count_def)
  show c2: "sp_central_free_count s2 = sp_central_free_count s + n" using c by (simp add: s2 set_live_count_def)
  show "free_set s2 = free_set s \<union> (set ids \<inter> {..<sp_object_count s})"
    unfolding J(5) [symmetric] by (simp add: s2 set_live_count_def free_set_def)
  have "span_wf s2" "quarantine_ok s2"
    using J(1,2) by (simp_all add: s2 set_live_count_def span_wf_def free_set_def quarantine_ok_def)
  then show "span_ok k s2" unfolding span_ok_def E using S(2,4,5,6) l c2 c le by simp
qed

lemma shelved_keep:
  assumes "shelved st0 a" and "\<And>q. q \<noteq> p \<Longrightarrow> st q = st0 q" and "central_free st p = central_free st0 p"
    and "sp_object_count (st p) = sp_object_count (st0 p)"
  shows "shelved st a"
proof -
  have "central_free st q = central_free st0 q" "sp_object_count (st q) = sp_object_count (st0 q)" for q
    using assms(2-4) by (cases "q = p"; simp add: central_free_def)+
  then show ?thesis using assms(1) by (simp add: shelved_def)
qed

text \<open>The abstract bin after \<open>n\<close> objects of the span \<open>p\<close> came back.\<close>

definition relisted :: "span_store \<Rightarrow> bin_abs \<Rightarrow> addr \<Rightarrow> nat \<Rightarrow> bin_abs" where
  "relisted st a p n =
     (if n = 0 then a
      else if central_free st p = sp_object_count (st p)
      then (if ab_empty a = [] then a\<lparr>ab_partial := remove1 p (ab_partial a), ab_empty := [p]\<rparr>
            else a\<lparr>ab_partial := remove1 p (ab_partial a), ab_pending := insert p (ab_pending a)\<rparr>)
      else if p \<in> set (ab_partial a) then a else a\<lparr>ab_partial := p # ab_partial a\<rparr>)"

lemma shelved_relisted:
  assumes sh: "shelved st0 a" and d: "distinct (ab_partial a)" and p: "p \<in> ab_tracked a"
    and o: "\<And>q. q \<noteq> p \<Longrightarrow> st q = st0 q" "sp_object_count (st p) = sp_object_count (st0 p)"
    and c: "central_free st p = central_free st0 p + n" and le: "central_free st p \<le> sp_object_count (st p)"
  shows "shelved st (relisted st a p n)"
    and "0 < n \<Longrightarrow> p \<notin> set (ab_empty a) \<union> ab_pending a"
    and "0 < n \<Longrightarrow> p \<in> set (ab_partial a) \<longleftrightarrow> 0 < central_free st0 p"
proof -
  show np: "p \<notin> set (ab_empty a) \<union> ab_pending a" if "0 < n"
    using shelvedD(8) [OF sh, of p] that c le o(2) by fastforce
  show part: "p \<in> set (ab_partial a) \<longleftrightarrow> 0 < central_free st0 p" if "0 < n"
    using shelvedD(7,9) [OF sh, of p] np [OF that] p by fastforce
  have q: "central_free st q = central_free st0 q" "sp_object_count (st q) = sp_object_count (st0 q)" if "q \<noteq> p" for q
    using o(1) [OF that] by (simp_all add: central_free_def)
  show "shelved st (relisted st a p n)"
  proof (cases "n = 0")
    case True
    then show ?thesis using shelved_keep [OF sh o(1)] c o(2) by (simp add: relisted_def)
  next
    case False
    then have n: "0 < n" by simp
    have 1: "set (ab_partial a) \<union> set (ab_empty a) \<union> ab_pending a \<subseteq> ab_tracked a"
      "set (ab_partial a) \<inter> set (ab_empty a) = {}" "ab_pending a \<inter> (set (ab_partial a) \<union> set (ab_empty a)) = {}"
      "length (ab_empty a) \<le> 1"
      using sh unfolding shelved_def MAX_EMPTY_CACHED_PER_BIN_def by blast+
    have 2: "0 < central_free st q" if "q \<in> set (ab_partial a)" "q \<noteq> p" for q
      using shelvedD(7) [OF sh that(1)] q [OF that(2)] by simp
    have 3: "central_free st q = sp_object_count (st q)" if "q \<in> set (ab_empty a) \<union> ab_pending a" for q
    proof -
      have "q \<noteq> p" using np [OF n] that by blast
      then show ?thesis using shelvedD(8) [OF sh that] q by simp
    qed
    have 4: "q = p \<or> central_free st q = 0"
      if "q \<in> ab_tracked a - set (ab_partial a) - set (ab_empty a) - ab_pending a" for q
      using shelvedD(9) [OF sh that] q [of q] by fastforce
    have all: "\<forall>q\<in>set (ab_partial a) - {p}. 0 < central_free st q"
      "\<forall>q\<in>set (ab_empty a) \<union> ab_pending a. central_free st q = sp_object_count (st q)"
      "\<forall>q\<in>ab_tracked a - set (ab_partial a) - set (ab_empty a) - ab_pending a - {p}. central_free st q = 0"
      using 2 3 4 by blast+
    have pos: "0 < central_free st p" using c n by simp
    show ?thesis
    proof (cases "central_free st p = sp_object_count (st p)")
      case full: True
      show ?thesis
        using 1 all np [OF n] p full n d
        by (cases "ab_empty a = []") (auto simp: relisted_def shelved_def MAX_EMPTY_CACHED_PER_BIN_def)
    next
      case False
      show ?thesis
        using 1 all np [OF n] p pos n d False
        by (cases "p \<in> set (ab_partial a)") (auto simp: relisted_def shelved_def MAX_EMPTY_CACHED_PER_BIN_def)
    qed
  qed
qed

lemma unlink_partial:
  assumes "pl.listed b st ps" and "set ps \<subseteq> T"
  obtains f b' st' where "remove_partial p (b, st) = (f, b', st')" and "pl.listed b' st' (remove1 p ps)"
    and "relinked T st st'" and "f = (p \<in> set ps)" and "\<forall>es. el.listed b' st' es = el.listed b st' es"
    and "cb_span_count b' = cb_span_count b" and "total_central_free b' = total_central_free b"
    and "empty_count b' = empty_count b" and "relinked (set ps) st st'"
proof (cases "p \<in> set ps")
  case False
  then show ?thesis using that [OF pl.unlink_absent [OF assms(1) False]] assms(1) by (simp add: remove1_idem)
next
  case True
  obtain b' st' where u: "remove_partial p (b, st) = (True, b', st')"
    "b' = b\<lparr>partial_head := partial_head b', partial_count := length ps - 1\<rparr>" "pl.listed b' st' (remove1 p ps)"
    "relinked (set ps) st st'"
    by (rule pl.unlink_present [OF assms(1) True])
  have "el.listed b' st' es = el.listed b st' es" for es by (subst u(2)) simp
  moreover have "cb_span_count b' = cb_span_count b" "total_central_free b' = total_central_free b" "empty_count b' = empty_count b"
    by (subst u(2), simp)+
  ultimately show ?thesis using that [OF u(1,3) relinked_mono [OF u(4) assms(2)]] True u(4) by simp
qed

lemma relist_inv:
  assumes l: "pl.listed b st (ab_partial a)" "el.listed b st (ab_empty a)"
    and t: "tracked_ok k st (ab_tracked a)" and cnt: "counted b st (ab_tracked a)" and p: "p \<in> ab_tracked a"
    and sh: "shelved st0 a" and o: "\<And>q. q \<noteq> p \<Longrightarrow> st q = st0 q" "sp_object_count (st p) = sp_object_count (st0 p)"
    and c: "central_free st p = central_free st0 p + n"
  obtains b' st' where "relist_span n p (b, st) =
      (\<lparr>ir_inserted = n, ir_span_empty = (0 < n \<and> central_free st p = sp_object_count (st p) \<and> ab_empty a \<noteq> [])\<rparr>, b', st')"
    and "bin_inv k b' st' (relisted st a p n)" and "relinked (ab_tracked a) st st'"
proof -
  note ok = span_okD [OF tracked_okD(3) [OF t p]]
  have le: "central_free st p \<le> sp_object_count (st p)" using ok(6) by (simp add: central_free_def)
  have d: "distinct (ab_partial a)" using l(1) by (simp add: pl.listed_def)
  note S = shelved_relisted [OF sh d p o c le]
  have T: "ab_tracked (relisted st a p n) = ab_tracked a" by (simp add: relisted_def)
  have e: "span_is_empty (st p) NonCentralResidency_NONE \<longleftrightarrow> central_free st p = sp_object_count (st p)"
    using ok(6) by (auto simp: span_is_empty_def NonCentralResidency_NONE_def central_free_def)
  have inv: "bin_inv k b' st' (relisted st a p n)"
    if "pl.listed b' st' (ab_partial (relisted st a p n))" "el.listed b' st' (ab_empty (relisted st a p n))"
      "relinked (ab_tracked a) st st'" "counted b' st' (ab_tracked a)" for b' st'
    unfolding bin_inv_def T using that t S(1) relinked_inv [OF that(3)] by simp
  show ?thesis
  proof (cases "0 < n \<and> central_free st p = sp_object_count (st p)")
    case True
    then have n: "0 < n" and full: "central_free st p = sp_object_count (st p)" by auto
    obtain f b1 st1 where u: "remove_partial p (b, st) = (f, b1, st1)" "pl.listed b1 st1 (remove1 p (ab_partial a))"
      "relinked (ab_tracked a) st st1" "f = (p \<in> set (ab_partial a))" "\<forall>es. el.listed b1 st1 es = el.listed b st1 es"
      "cb_span_count b1 = cb_span_count b" "total_central_free b1 = total_central_free b" "empty_count b1 = empty_count b"
      "relinked (set (ab_partial a)) st st1"
      by (rule unlink_partial [OF l(1) shelvedD(1) [OF sh], of p])
    have el1: "el.listed b1 st1 (ab_empty a)"
      using u(5) el.listed_relinked [OF l(2) u(9)] shelvedD(4) [OF sh] by simp
    have c1: "counted b1 st1 (ab_tracked a)"
      using cnt u(6,7) relinked_sel(1) [OF u(3)] by (simp add: counted_def)
    have ec: "empty_count b1 = length (ab_empty a)" using el1 by (simp add: el.listed_def)
    have r: "relist_span n p (b, st) = (if empty_count b1 < MAX_EMPTY_CACHED_PER_BIN
        then (\<lparr>ir_inserted = n, ir_span_empty = False\<rparr>, push_empty p (b1, st1))
        else (\<lparr>ir_inserted = n, ir_span_empty = True\<rparr>, b1, st1))"
      using u(1) n full e by (simp add: relist_span_def Let_def)
    show ?thesis
    proof (cases "ab_empty a = []")
      case True
      obtain st2 where q: "push_empty p (b1, st1) = (b1\<lparr>empty_head := Some p, empty_count := Suc 0\<rparr>, st2)"
        "el.listed (b1\<lparr>empty_head := Some p, empty_count := Suc 0\<rparr>) st2 [p]" "relinked {p} st1 st2"
        by (rule el.push_listed [OF el1 [unfolded True], of p]) simp_all
      let ?b = "b1\<lparr>empty_head := Some p, empty_count := Suc 0\<rparr>"
      have "p \<notin> set (remove1 p (ab_partial a))" using d by simp
      then have "pl.listed ?b st2 (remove1 p (ab_partial a))" using pl.listed_relinked [OF u(2) q(3)] by simp
      moreover have rl: "relinked (ab_tracked a) st st2"
        using relinked_trans [OF u(3) relinked_mono [OF q(3)]] p by simp
      moreover have "counted ?b st2 (ab_tracked a)" using c1 relinked_inv(3) [OF q(3)] by simp
      ultimately have "bin_inv k ?b st2 (relisted st a p n)"
        using q(2) n full True by (intro inv) (simp_all add: relisted_def)
      then show ?thesis using that [of ?b st2] r q(1) ec True rl by (simp add: MAX_EMPTY_CACHED_PER_BIN_def)
    next
      case False
      then have "bin_inv k b1 st1 (relisted st a p n)"
        using u(2,3) el1 c1 n full by (intro inv) (simp_all add: relisted_def)
      moreover have "\<not> empty_count b1 < MAX_EMPTY_CACHED_PER_BIN" using ec False by (simp add: MAX_EMPTY_CACHED_PER_BIN_def)
      ultimately show ?thesis using that [of b1 st1] r u(3) False n full by simp
    qed
  next
    case False
    have hd: "partial_head b = Some p \<longrightarrow> p \<in> set (ab_partial a)"
      using l(1) by (cases "ab_partial a") (auto simp: pl.listed_def)
    have r: "relist_span n p (b, st) = (\<lparr>ir_inserted = n, ir_span_empty = False\<rparr>,
        if 0 < n \<and> p \<notin> set (ab_partial a) then push_partial p (b, st) else (b, st))"
      using False e S(3) c hd by (auto simp: relist_span_def Let_def central_free_def)
    show ?thesis
    proof (cases "0 < n \<and> p \<notin> set (ab_partial a)")
      case no: False
      then have "relisted st a p n = a" using False by (auto simp: relisted_def)
      then have "bin_inv k b st (relisted st a p n)" using l cnt by (intro inv) simp_all
      then show ?thesis using that [of b st] r no False by auto
    next
      case yes: True
      then have a': "relisted st a p n = a\<lparr>ab_partial := p # ab_partial a\<rparr>" using False by (simp add: relisted_def)
      have "length (p # ab_partial a) < 2 ^ 32"
        by (rule listed_room [OF t]) (use d yes p shelvedD(1) [OF sh] in auto)
      then obtain st2 where q: "push_partial p (b, st) = (b\<lparr>partial_head := Some p, partial_count := Suc (length (ab_partial a))\<rparr>, st2)"
        "pl.listed (b\<lparr>partial_head := Some p, partial_count := Suc (length (ab_partial a))\<rparr>) st2 (p # ab_partial a)"
        "relinked {p} st st2"
        using pl.push_listed [OF l(1), of p] yes by (metis length_Cons)
      let ?b = "b\<lparr>partial_head := Some p, partial_count := Suc (length (ab_partial a))\<rparr>"
      have "el.listed ?b st2 (ab_empty a)" using el.listed_relinked [OF l(2) q(3)] S(2) yes by auto
      moreover have rl: "relinked (ab_tracked a) st st2" using relinked_mono [OF q(3)] p by simp
      moreover have "counted ?b st2 (ab_tracked a)" using cnt relinked_inv(3) [OF q(3)] by simp
      ultimately have "bin_inv k ?b st2 (relisted st a p n)" using q(2) a' by (intro inv) simp_all
      then show ?thesis using that [of ?b st2] r yes q(1) rl False by auto
    qed
  qed
qed

section \<open>Activation and teardown\<close>

lemma activate_inv:
  assumes inv: "bin_inv k b st a" and p: "p \<notin> ab_tracked a" and room: "card (ab_tracked a) + 1 < 2 ^ 32"
    and s: "span_ok k s" "central_next s = central_next (st p)" "sp_central_free_count s = sp_object_count s"
  obtains b' st' where "push_partial p (b, st(p := s)) = (b', st')"
    and "bin_inv k (b'\<lparr>cb_span_count := wrapping_add 32 (cb_span_count b') 1,
           total_central_free := wrapping_add 64 (total_central_free b') (sp_object_count s)\<rparr>) st'
         (a\<lparr>ab_partial := p # ab_partial a, ab_tracked := insert p (ab_tracked a)\<rparr>)"
    and "relinked {p} (st(p := s)) st'"
proof -
  note I = bin_invD [OF inv]
  let ?st = "st(p := s)" and ?T = "insert p (ab_tracked a)"
  have fin: "finite (ab_tracked a)" by (rule tracked_okD(1) [OF I(3)])
  have t: "tracked_ok k ?st ?T" using I(3) s(1) p room fin by (auto simp: tracked_ok_def)
  have np: "p \<notin> set (ab_partial a)" "p \<notin> set (ab_empty a)" "p \<notin> ab_pending a" using shelvedD(1-3) [OF I(4)] p by auto
  have pl1: "pl.listed b ?st (ab_partial a)" "el.listed b ?st (ab_empty a)"
    using I(1,2) listed_same_next [of s st p, OF s(2)] by simp_all
  have "length (p # ab_partial a) < 2 ^ 32"
    by (rule listed_room [OF t]) (use pl1(1) np shelvedD(1) [OF I(4)] in \<open>auto simp: pl.listed_def\<close>)
  then obtain st' where q: "push_partial p (b, ?st) = (b\<lparr>partial_head := Some p, partial_count := Suc (length (ab_partial a))\<rparr>, st')"
    "pl.listed (b\<lparr>partial_head := Some p, partial_count := Suc (length (ab_partial a))\<rparr>) st' (p # ab_partial a)"
    "relinked {p} ?st st'"
    using pl.push_listed [OF pl1(1) np(1)] by (metis length_Cons)
  let ?b = "b\<lparr>partial_head := Some p, partial_count := Suc (length (ab_partial a))\<rparr>"
  let ?b' = "?b\<lparr>cb_span_count := wrapping_add 32 (cb_span_count ?b) 1,
      total_central_free := wrapping_add 64 (total_central_free ?b) (sp_object_count s)\<rparr>"
  have "(\<Sum>x\<in>ab_tracked a. central_free ?st x) = (\<Sum>x\<in>ab_tracked a. central_free st x)"
    by (rule sum.cong [OF refl]) (use p in \<open>auto simp: central_free_def\<close>)
  then have sum: "(\<Sum>x\<in>?T. central_free ?st x) = total_central_free b + sp_object_count s"
    using bin_inv_total(1) [OF inv] p fin s(3) by (simp add: central_free_def)
  have "wrapping_add 32 (cb_span_count b) 1 = card ?T" "wrapping_add 64 (total_central_free b) (sp_object_count s) = total_central_free b + sp_object_count s"
    using I(5) room p fin bin_inv_total(2) [OF inv] span_okD(8) [OF s(1)]
    by (auto simp: counted_def wrapping_add_def)
  then have "counted ?b' st' ?T" using sum relinked_sel(1) [OF q(3)] by (simp add: counted_def)
  moreover have "shelved ?st (a\<lparr>ab_partial := p # ab_partial a, ab_tracked := ?T\<rparr>)"
  proof -
    have "0 < central_free ?st p" using s(3) span_okD(9) [OF s(1)] by (simp add: central_free_def)
    moreover have "0 < central_free ?st x" if "x \<in> set (ab_partial a)" for x
      using shelvedD(7) [OF I(4) that] that np(1) by (cases "x = p") (simp_all add: central_free_def)
    moreover have "central_free ?st x = sp_object_count (?st x)" if "x \<in> set (ab_empty a) \<union> ab_pending a" for x
      using shelvedD(8) [OF I(4) that] that np by (cases "x = p") (simp_all add: central_free_def)
    moreover have "central_free ?st x = 0" if "x \<in> ab_tracked a - set (ab_partial a) - set (ab_empty a) - ab_pending a" for x
      using shelvedD(9) [OF I(4) that] that p by (cases "x = p") (simp_all add: central_free_def)
    ultimately show ?thesis
      using shelvedD(1-6) [OF I(4)] np unfolding shelved_def by auto
  qed
  moreover have "el.listed ?b' st' (ab_empty a)" using el.listed_relinked [OF pl1(2) q(3)] np(2) by (simp add: el.listed_def)
  moreover have "pl.listed ?b' st' (p # ab_partial a)" using q(2) by (simp add: pl.listed_def)
  ultimately have "bin_inv k ?b' st' (a\<lparr>ab_partial := p # ab_partial a, ab_tracked := ?T\<rparr>)"
    using t relinked_inv [OF q(3)] by (simp add: bin_inv_def)
  then show ?thesis using that q(1,3) by blast
qed

lemma unlist_inv:
  assumes l: "pl.listed b st ps" "el.listed b st es" and d: "set ps \<inter> set es = {}" and T: "set ps \<union> set es \<subseteq> T"
  obtains b' st' where "(case remove_partial p (b, st) of (found, bs) \<Rightarrow> if found then bs else snd (remove_empty p bs)) = (b', st')"
    and "pl.listed b' st' (remove1 p ps)" and "el.listed b' st' (remove1 p es)" and "relinked T st st'"
    and "cb_span_count b' = cb_span_count b" and "total_central_free b' = total_central_free b"
proof (cases "p \<in> set ps")
  case True
  have "set ps \<subseteq> T" using T by simp
  then obtain f b1 st1 where u: "remove_partial p (b, st) = (f, b1, st1)" "pl.listed b1 st1 (remove1 p ps)"
    "relinked T st st1" "f = (p \<in> set ps)" "\<forall>es. el.listed b1 st1 es = el.listed b st1 es"
    "cb_span_count b1 = cb_span_count b" "total_central_free b1 = total_central_free b" "empty_count b1 = empty_count b"
    "relinked (set ps) st st1"
    by (rule unlink_partial [OF l(1)])
  have "p \<notin> set es" using d True by blast
  then have "el.listed b1 st1 (remove1 p es)" using u(5) el.listed_relinked [OF l(2) u(9) d] by (simp add: remove1_idem)
  then show ?thesis using that [of b1 st1] u True by simp
next
  case False
  note a = pl.unlink_absent [OF l(1) False]
  show ?thesis
  proof (cases "p \<in> set es")
    case no: False
    then show ?thesis using that [of b st] a el.unlink_absent [OF l(2) no] l False by (simp add: remove1_idem)
  next
    case yes: True
    obtain b1 st1 where u: "remove_empty p (b, st) = (True, b1, st1)"
      "b1 = b\<lparr>empty_head := empty_head b1, empty_count := length es - 1\<rparr>" "el.listed b1 st1 (remove1 p es)"
      "relinked (set es) st st1"
      by (rule el.unlink_present [OF l(2) yes])
    have "pl.listed b st1 ps" using pl.listed_relinked [OF l(1) u(4)] d by blast
    then have "pl.listed b1 st1 (remove1 p ps)" using False by (subst u(2)) (simp add: remove1_idem)
    moreover have "cb_span_count b1 = cb_span_count b" "total_central_free b1 = total_central_free b" by (subst u(2), simp)+
    moreover have "relinked T st st1" by (rule relinked_mono [OF u(4)]) (use T in simp)
    ultimately show ?thesis using that [of b1 st1] a u(1,3) by simp
  qed
qed

lemma shelved_cong:
  assumes "shelved st a"
    and "\<And>x. x \<in> ab_tracked a \<Longrightarrow> central_free st' x = central_free st x \<and> sp_object_count (st' x) = sp_object_count (st x)"
  shows "shelved st' a"
proof -
  note S = shelvedD [OF assms(1)]
  have "0 < central_free st' x" if "x \<in> set (ab_partial a)" for x using S(1,7) assms(2) [of x] that by auto
  moreover have "central_free st' x = sp_object_count (st' x)" if "x \<in> set (ab_empty a) \<union> ab_pending a" for x
    using S(2,3,8) assms(2) [of x] that by auto
  moreover have "central_free st' x = 0" if "x \<in> ab_tracked a - set (ab_partial a) - set (ab_empty a) - ab_pending a" for x
    using S(9) [OF that] assms(2) [of x] that by auto
  ultimately show ?thesis unfolding shelved_def using S(1-6) by simp
qed

definition dropped :: "bin_abs \<Rightarrow> addr \<Rightarrow> bin_abs" where
  "dropped a p = \<lparr>ab_partial = remove1 p (ab_partial a), ab_empty = remove1 p (ab_empty a),
     ab_tracked = ab_tracked a - {p}, ab_pending = ab_pending a - {p}\<rparr>"

lemma shelved_dropped:
  assumes "shelved st a" and "distinct (ab_partial a)" and "distinct (ab_empty a)"
  shows "shelved st (dropped a p)"
  using assms unfolding shelved_def dropped_def by (auto simp: length_remove1)

lemma drop_span_inv:
  assumes inv: "bin_inv k b st a" and p: "p \<in> ab_tracked a" and s: "central_next s = central_next (st p)"
  obtains b' st' where "drop_span p (central_free st p) (b, st(p := s)) = (b', st')"
    and "bin_inv k b' st' (dropped a p)"
    and "\<forall>q. q \<noteq> p \<longrightarrow> (\<exists>f n. st' q = (st q)\<lparr>sp_flags := f, central_next := n\<rparr>) \<and> (q \<notin> ab_tracked a \<longrightarrow> st' q = st q)"
    and "\<exists>f n. st' p = (set_state s SpanReleased)\<lparr>sp_flags := f, central_next := n\<rparr>"
proof -
  note I = bin_invD [OF inv]
  let ?st = "st(p := s)"
  have l: "pl.listed b ?st (ab_partial a)" "el.listed b ?st (ab_empty a)"
    using I(1,2) listed_same_next [of s st p, OF s] by simp_all
  have T: "set (ab_partial a) \<union> set (ab_empty a) \<subseteq> ab_tracked a" using shelvedD(1,2) [OF I(4)] by simp
  obtain b1 st1 where u: "(case remove_partial p (b, ?st) of (found, bs) \<Rightarrow> if found then bs else snd (remove_empty p bs)) = (b1, st1)"
    "pl.listed b1 st1 (remove1 p (ab_partial a))" "el.listed b1 st1 (remove1 p (ab_empty a))" "relinked (ab_tracked a) ?st st1"
    "cb_span_count b1 = cb_span_count b" "total_central_free b1 = total_central_free b"
    by (rule unlist_inv [OF l shelvedD(4) [OF I(4)] T])
  define b2 where "b2 = b1\<lparr>cb_span_count := wrapping_sub 32 (cb_span_count b1) 1\<rparr>"
  define b3 where "b3 = (if 0 < central_free st p
      then b2\<lparr>total_central_free := wrapping_sub 64 (total_central_free b2) (central_free st p)\<rparr> else b2)"
  define st2 where "st2 = st1(p := set_state (st1 p) SpanReleased)"
  have eq: "drop_span p (central_free st p) (b, ?st) = (b3, st2)"
    using u(1) by (auto simp: drop_span_def Let_def b3_def b2_def st2_def split: prod.splits if_splits)
  note fin = tracked_okD(1) [OF I(3)]
  have q: "\<exists>f n. st2 x = (st x)\<lparr>sp_flags := f, central_next := n\<rparr>" if "x \<noteq> p" for x
    using relinkedD(2) [OF u(4), of x] that by (simp add: st2_def)
  have same: "central_free st2 x = central_free st x" "sp_object_count (st2 x) = sp_object_count (st x)"
    "span_ok k (st2 x) = span_ok k (st x)" if "x \<noteq> p" for x
    using relinked_sel [OF u(4), where p = x] that by (simp_all add: st2_def central_free_def)
  have "(\<Sum>x\<in>ab_tracked a - {p}. central_free st2 x) = (\<Sum>x\<in>ab_tracked a - {p}. central_free st x)"
    by (rule sum.cong [OF refl]) (simp add: same)
  then have sum: "(\<Sum>x\<in>ab_tracked a - {p}. central_free st2 x) + central_free st p = total_central_free b"
    using sum.remove [OF fin p, of "central_free st"] bin_inv_total(1) [OF inv] by simp
  have pos: "0 < card (ab_tracked a)" using p fin by (auto simp: card_gt_0_iff)
  have "wrapping_sub 32 (cb_span_count b1) 1 = card (ab_tracked a - {p})"
    using I(5) u(5) p fin pos tracked_okD(2) [OF I(3)] by (subst wrapping_sub_exact) (auto simp: counted_def)
  moreover have "wrapping_sub 64 (total_central_free b) (central_free st p) = total_central_free b - central_free st p"
    using sum bin_inv_total(2) [OF inv] by (intro wrapping_sub_exact) auto
  ultimately have "counted b3 st2 (ab_tracked a - {p})"
    using sum u(6) by (auto simp: counted_def b3_def b2_def)
  moreover have "tracked_ok k st2 (ab_tracked a - {p})"
    unfolding tracked_ok_def
  proof (intro conjI ballI)
    show "card (ab_tracked a - {p}) < 2 ^ 32" using tracked_okD(2) [OF I(3)] card_mono [OF fin, of "ab_tracked a - {p}"] by auto
    show "span_ok k (st2 x)" if "x \<in> ab_tracked a - {p}" for x using that same(3) tracked_okD(3) [OF I(3)] by simp
  qed (use fin in simp)
  moreover have "shelved st2 (dropped a p)"
  proof -
    have "shelved st (dropped a p)"
      by (rule shelved_dropped [OF I(4)]) (use I(1,2) in \<open>simp_all add: pl.listed_def el.listed_def\<close>)
    then show ?thesis by (rule shelved_cong) (auto simp: dropped_def same)
  qed
  moreover have "pl.listed b3 st2 (remove1 p (ab_partial a))" "el.listed b3 st2 (remove1 p (ab_empty a))"
    using u(2,3) listed_same_next [of "set_state (st1 p) SpanReleased" st1 p]
    by (simp_all add: st2_def b3_def b2_def set_state_def)
  ultimately have "bin_inv k b3 st2 (dropped a p)" by (simp add: bin_inv_def dropped_def)
  moreover have "st2 x = st x" if "x \<notin> ab_tracked a" "x \<noteq> p" for x
    using relinkedD(1) [OF u(4) that(1)] that by (simp add: st2_def)
  moreover have "\<exists>f n. st2 p = (set_state s SpanReleased)\<lparr>sp_flags := f, central_next := n\<rparr>"
  proof -
    obtain f n where "st1 p = s\<lparr>sp_flags := f, central_next := n\<rparr>" using relinkedD(2) [OF u(4), of p] by auto
    then have "st2 p = (set_state s SpanReleased)\<lparr>sp_flags := f, central_next := n\<rparr>" by (simp add: st2_def set_state_def)
    then show ?thesis by blast
  qed
  ultimately show ?thesis using that eq q by blast
qed

end
