(* ===== verification/Central_Thms.thy ===== *)
theory Central_Thms
  imports Central_Ops
begin

text \<open>
  The central free list as a whole: every operation keeps the invariant of all bins, a batch
  removal hands out free objects of one span and never the same object twice, an insertion makes
  objects free again and detects the empty span, and the self-check.
\<close>

section \<open>All bins\<close>

definition cc_inv :: "CentralCache \<Rightarrow> (SizeClassId \<Rightarrow> bin_abs) \<Rightarrow> bool" where
  "cc_inv c A \<longleftrightarrow> length (cc_bins c) = length SIZE_CLASSES
     \<and> (\<forall>k<length SIZE_CLASSES. bin_inv k (cc_bins c ! k) (cc_spans c) (A k))"

text \<open>The tracked spans and those waiting for deactivation, over all classes.\<close>

definition all_tracked :: "(SizeClassId \<Rightarrow> bin_abs) \<Rightarrow> addr set" where
  "all_tracked A = (\<Union>k<length SIZE_CLASSES. ab_tracked (A k))"

definition all_pending :: "(SizeClassId \<Rightarrow> bin_abs) \<Rightarrow> addr set" where
  "all_pending A = (\<Union>k<length SIZE_CLASSES. ab_pending (A k))"

definition central_wf :: "CentralCache \<Rightarrow> addr set \<Rightarrow> addr set \<Rightarrow> bool" where
  "central_wf c T P \<longleftrightarrow> (\<exists>A. cc_inv c A \<and> T = all_tracked A \<and> P = all_pending A)"

lemma cc_invD:
  assumes "cc_inv c A"
  shows "length (cc_bins c) = length SIZE_CLASSES" "k < length SIZE_CLASSES \<Longrightarrow> bin_inv k (cc_bins c ! k) (cc_spans c) (A k)"
  using assms by (simp_all add: cc_inv_def)

lemma tracked_class:
  assumes "cc_inv c A" and "k < length SIZE_CLASSES" and "p \<in> ab_tracked (A k)"
  shows "sp_sc (cc_spans c p) = k" "span_ok k (cc_spans c p)"
  using tracked_okD(3) [OF bin_invD(3) [OF cc_invD(2) [OF assms(1,2)]] assms(3)] span_okD(4) by auto

lemma tracked_in:
  assumes "cc_inv c A" and "p \<in> all_tracked A"
  shows "sp_sc (cc_spans c p) < length SIZE_CLASSES" "p \<in> ab_tracked (A (sp_sc (cc_spans c p)))"
proof -
  obtain k where k: "k < length SIZE_CLASSES" "p \<in> ab_tracked (A k)" using assms(2) by (auto simp: all_tracked_def)
  with tracked_class(1) [OF assms(1) k]
  show "sp_sc (cc_spans c p) < length SIZE_CLASSES" "p \<in> ab_tracked (A (sp_sc (cc_spans c p)))" by auto
qed

lemma bin_inv_frame:
  assumes "bin_inv k b st a" and "\<And>q. q \<in> ab_tracked a \<Longrightarrow> st' q = st q"
  shows "bin_inv k b st' a"
proof -
  note I = bin_invD [OF assms(1)] and S = shelvedD [OF bin_invD(4) [OF assms(1)]]
  have "slseg st' h xs None = slseg st h xs None" if "set xs \<subseteq> ab_tracked a" for h xs
    by (rule slseg_cong) (use that assms(2) in auto)
  then have "pl.listed b st' (ab_partial a)" "el.listed b st' (ab_empty a)"
    using I(1,2) S(1,2) by (simp_all add: pl.listed_def el.listed_def)
  moreover have "tracked_ok k st' (ab_tracked a)" using I(3) assms(2) by (simp add: tracked_ok_def)
  moreover have "shelved st' a" by (rule shelved_cong [OF I(4)]) (simp add: central_free_def assms(2))
  moreover have "counted b st' (ab_tracked a)" using I(5) assms(2) by (simp add: counted_def central_free_def)
  ultimately show ?thesis by (simp add: bin_inv_def)
qed

lemma set_bin_inv:
  assumes c: "cc_inv c A" and k: "k < length SIZE_CLASSES" and b: "bin_inv k b st a"
    and o: "\<And>q. q \<notin> ab_tracked (A k) \<Longrightarrow> q \<in> all_tracked A \<Longrightarrow> st q = cc_spans c q"
  shows "cc_inv (set_bin k (b, st) c) (A(k := a))"
proof -
  have "bin_inv j (cc_bins c ! j) st (A j)" if j: "j < length SIZE_CLASSES" "j \<noteq> k" for j
  proof (rule bin_inv_frame [OF cc_invD(2) [OF c j(1)]])
    fix q assume q: "q \<in> ab_tracked (A j)"
    then have "q \<notin> ab_tracked (A k)" using tracked_class(1) [OF c j(1) q] tracked_class(1) [OF c k, of q] j(2) by auto
    moreover have "q \<in> all_tracked A" using q j(1) by (auto simp: all_tracked_def)
    ultimately show "st q = cc_spans c q" by (rule o)
  qed
  then show ?thesis using cc_invD(1) [OF c] k b by (auto simp: cc_inv_def set_bin_def nth_list_update)
qed

lemma all_tracked_upd:
  assumes "k < length SIZE_CLASSES"
  shows "ab_tracked a = ab_tracked (A k) \<Longrightarrow> all_tracked (A(k := a)) = all_tracked A"
    and "ab_pending a = ab_pending (A k) \<Longrightarrow> all_pending (A(k := a)) = all_pending A"
  using assms by (auto simp: all_tracked_def all_pending_def split: if_splits)

lemma set_bin_spans [simp]: "cc_spans (set_bin k bs c) = snd bs"
  by (simp add: set_bin_def)

lemma cc_get: "cc_inv c A \<Longrightarrow> k < length SIZE_CLASSES \<Longrightarrow> get (cc_bins c) k = Some (cc_bins c ! k)"
  using cc_invD(1) by (simp add: get_def)

lemma fold_max_ge:
  "m \<le> fold (\<lambda>row mx. if mx < row_batch row then row_batch row else mx) rows m" (is "_ \<le> ?f rows m")
proof (induction rows arbitrary: m)
  case (Cons r rows)
  have "m \<le> (if m < row_batch r then row_batch r else m)" by simp
  also have "\<dots> \<le> ?f rows (if m < row_batch r then row_batch r else m)" by (rule Cons.IH)
  finally show ?case by simp
qed simp

lemma MAX_BATCH_LEN_pos: "0 < MAX_BATCH_LEN"
proof -
  obtain r rows where rows: "SIZE_CLASSES = r # rows" and r: "row_batch r = 32"
    by (simp add: SIZE_CLASSES_def mk_row_def)
  have "32 \<le> MAX_BATCH_LEN"
    using fold_max_ge [of 32 rows] r by (simp add: MAX_BATCH_LEN_def rows)
  then show ?thesis by simp
qed

section \<open>Batch removal\<close>

text \<open>A batch handed out by class \<open>k\<close> to arena \<open>ar\<close>: its objects were free and are not free any more.\<close>

definition handed_out :: "CentralCache \<Rightarrow> CentralCache \<Rightarrow> ArenaId \<Rightarrow> SizeClassId \<Rightarrow> nat \<Rightarrow> Batch \<Rightarrow> bool" where
  "handed_out c c' ar k desired ba \<longleftrightarrow>
     (let p = ba_span ba; s = cc_spans c p; s' = cc_spans c' p in
      sp_sc s = k \<and> sp_arena s = ar \<and> ba_indices ba \<noteq> [] \<and> length (ba_indices ba) \<le> min desired MAX_BATCH_LEN
      \<and> distinct (ba_indices ba) \<and> set (ba_indices ba) \<subseteq> free_set s \<and> free_set s' = free_set s - set (ba_indices ba)
      \<and> sp_object_count s' = sp_object_count s
      \<and> (\<forall>q. q \<noteq> p \<longrightarrow> free_set (cc_spans c' q) = free_set (cc_spans c q)))"

lemma handed_out_carved:
  assumes r: "relinked A (cc_spans c) st" and m: "sp_arena (cc_spans c p) = ar" "sp_sc (cc_spans c p) = k"
    and g: "gave st p ids st'" and n: "ids \<noteq> []" "length ids \<le> min desired MAX_BATCH_LEN"
  shows "handed_out c (set_bin k (b, st') c) ar k desired \<lparr>ba_span = p, ba_indices = ids\<rparr>"
  using assms relinked_sel [OF r] by (simp add: handed_out_def gave_def Let_def)

lemma remove_batch_spec:
  assumes c: "cc_inv c A" and k: "k < length SIZE_CLASSES"
  obtains c' A' where "remove_batch fs ar k pc desired c = Ret (NeedSpan, c')" and "cc_inv c' A'"
      and "all_tracked A' = all_tracked A" and "all_pending A' = all_pending A"
      and "\<forall>p. free_set (cc_spans c' p) = free_set (cc_spans c p)"
      and "desired = 0 \<or> (\<forall>q\<in>set (ab_partial (A k)). \<not> span_matches ar pc (cc_spans c q))
             \<and> (fs \<or> (\<forall>q\<in>set (ab_empty (A k)). sp_arena (cc_spans c q) \<noteq> ar))"
  | ba c' A' where "remove_batch fs ar k pc desired c = Ret (RemoveOk ba, c')" and "cc_inv c' A'"
      and "all_tracked A' = all_tracked A" and "all_pending A' = all_pending A"
      and "ba_span ba \<in> all_tracked A" and "handed_out c c' ar k desired ba"
proof -
  let ?b = "cc_bins c ! k" and ?st = "cc_spans c"
  note need = that(1) and hand = that(2)
  note inv = cc_invD(2) [OF c k]
  note S = shelvedD [OF bin_invD(4) [OF inv]]
  have fin: thesis
    if f: "(case find_partial_for_arena ar pc (?b, ?st) of (None, bs) \<Rightarrow> take_empty fs ar pc bs | found \<Rightarrow> found) = (Some p, b1, st1)"
      and i: "bin_inv k b1 st1 a" and a: "ab_partial a = p # ps" "ab_tracked a = ab_tracked (A k)" "ab_pending a = ab_pending (A k)"
      and r: "relinked (ab_tracked (A k)) ?st st1" and m: "sp_arena (?st p) = ar" for p b1 st1 a ps
  proof -
    have pT: "p \<in> ab_tracked (A k)" using shelvedD(1) [OF bin_invD(4) [OF i]] a by auto
    obtain res b2 st2 ids ps' where cv: "carve_batch desired p (b1, st1) = Ret (res, b2, st2)"
      "res = (if ids = [] then NeedSpan else RemoveOk \<lparr>ba_span = p, ba_indices = ids\<rparr>)"
      "ids = take (min desired MAX_BATCH_LEN) (filter (\<lambda>i. i \<in> free_set (st1 p)) [0..<sp_object_count (st1 p)])"
      "bin_inv k b2 st2 (a\<lparr>ab_partial := ps'\<rparr>)" "gave st1 p ids st2"
      by (rule carve_inv [OF i a(1)])
    have e: "remove_batch fs ar k pc desired c = Ret (res, set_bin k (b2, st2) c)"
      using cc_get [OF c k] f cv(1) by (simp add: remove_batch_def)
    have "st2 q = ?st q" if "q \<notin> ab_tracked (A k)" for q
      using relinkedD(1) [OF r that] cv(5) pT that by (auto simp: gave_def)
    then have ci: "cc_inv (set_bin k (b2, st2) c) (A(k := a\<lparr>ab_partial := ps'\<rparr>))" by (intro set_bin_inv [OF c k cv(4)])
    note U = all_tracked_upd [OF k, where a = "a\<lparr>ab_partial := ps'\<rparr>" and A = A]
    have sc: "sp_sc (?st p) = k" by (rule tracked_class(1) [OF c k pT])
    show thesis
    proof (cases "ids = []")
      case False
      have "handed_out c (set_bin k (b2, st2) c) ar k desired \<lparr>ba_span = p, ba_indices = ids\<rparr>"
        by (rule handed_out_carved [OF r m sc cv(5) False]) (auto simp: cv(3))
      moreover have "p \<in> all_tracked A" using pT k by (auto simp: all_tracked_def)
      ultimately show thesis using hand [OF e [unfolded cv(2) if_not_P [OF False]] ci] U a False by simp
    next
      case True
      have "free_set (st1 p) \<noteq> {}" "free_set (st1 p) \<subseteq> {..<sp_object_count (st1 p)}"
        using shelvedD(7) [OF bin_invD(4) [OF i], of p] a tracked_okD(3) [OF bin_invD(3) [OF i], of p] pT
        by (auto simp: central_free_def span_ok_def span_wf_def)
      then have "filter (\<lambda>i. i \<in> free_set (st1 p)) [0..<sp_object_count (st1 p)] \<noteq> []"
        by (auto simp: filter_empty_conv)
      then have z: "min desired MAX_BATCH_LEN = 0" using cv(3) True by (metis take_eq_Nil)
      have "\<forall>q. free_set (st2 q) = free_set (?st q)"
        using cv(5) True relinked_sel(3) [OF r] by (metis Diff_empty gave_def list.set(1))
      moreover have "desired = 0" using z MAX_BATCH_LEN_pos by (simp add: min_def split: if_splits)
      ultimately show thesis using need [OF e [unfolded cv(2) if_P [OF True]] ci] U a by simp
    qed
  qed
  show thesis
  proof (rule find_partial_inv [OF inv, of ar pc])
    assume n: "find_partial_for_arena ar pc (?b, ?st) = (None, ?b, ?st)" "\<forall>q\<in>set (ab_partial (A k)). \<not> span_matches ar pc (?st q)"
    show thesis
    proof (rule take_empty_inv [OF inv, of fs ar pc])
      fix b1 st1 assume t: "take_empty fs ar pc (?b, ?st) = (None, b1, st1)" "bin_inv k b1 st1 (A k)"
        "relinked (set (ab_empty (A k))) ?st st1" "fs \<or> (\<forall>e\<in>set (ab_empty (A k)). sp_arena (?st e) \<noteq> ar)"
      have "remove_batch fs ar k pc desired c = Ret (NeedSpan, set_bin k (b1, st1) c)"
        using cc_get [OF c k] n(1) t(1) by (simp add: remove_batch_def)
      moreover have "st1 q = ?st q" if "q \<notin> ab_tracked (A k)" for q using relinkedD(1) [OF t(3), of q] that S(2) by auto
      then have "cc_inv (set_bin k (b1, st1) c) A" using set_bin_inv [OF c k t(2)] by simp
      ultimately show thesis using need n(2) t(4) relinked_sel(3) [OF t(3)] by simp
    next
      fix e b1 st1 assume t: "take_empty fs ar pc (?b, ?st) = (Some e, b1, st1)" "ab_empty (A k) = [e]" "sp_arena (?st e) = ar"
        "bin_inv k b1 st1 (A k\<lparr>ab_partial := e # ab_partial (A k), ab_empty := []\<rparr>)" "relinked (set (ab_empty (A k))) ?st st1"
      show thesis by (rule fin [OF _ t(4) _ _ _ relinked_mono [OF t(5) S(2)] t(3)]) (simp_all add: n(1) t(1))
    qed
  next
    fix t b1 st1 ps assume t: "find_partial_for_arena ar pc (?b, ?st) = (Some t, b1, st1)" "span_matches ar pc (?st t)"
      "t \<in> set (ab_partial (A k))" "bin_inv k b1 st1 (A k\<lparr>ab_partial := t # ps\<rparr>)" "relinked (set (ab_partial (A k))) ?st st1"
    show thesis
      by (rule fin [OF _ t(4) _ _ _ relinked_mono [OF t(5) S(1)]]) (use t(1,2) in \<open>auto simp: span_matches_def\<close>)
  qed
qed

section \<open>Insertion\<close>

lemma relisted_sel:
  "ab_tracked (relisted st a p n) = ab_tracked a"
  "ab_pending (relisted st a p n) = (if 0 < n \<and> central_free st p = sp_object_count (st p) \<and> ab_empty a \<noteq> []
     then insert p (ab_pending a) else ab_pending a)"
  by (simp_all add: relisted_def)

lemma insert_batch_spec:
  assumes c: "cc_inv c A" and p: "p \<in> all_tracked A" and ids: "ids = take (min count (length indices)) indices"
  obtains e c' A' where "insert_batch p indices count c =
      Ret (\<lparr>ir_inserted = card (free_set (cc_spans c' p)) - card (free_set (cc_spans c p)), ir_span_empty = e\<rparr>, c')"
    and "cc_inv c' A'" and "all_tracked A' = all_tracked A"
    and "all_pending A' = (if e then insert p (all_pending A) else all_pending A)"
    and "free_set (cc_spans c' p) = free_set (cc_spans c p) \<union> (set ids \<inter> {..<sp_object_count (cc_spans c p)})"
    and "\<forall>q. q \<noteq> p \<longrightarrow> free_set (cc_spans c' q) = free_set (cc_spans c q)"
    and "e \<longrightarrow> p \<notin> all_pending A"
    and "sp_object_count (cc_spans c' p) = sp_object_count (cc_spans c p)"
proof -
  let ?st = "cc_spans c"
  define k where "k = sp_sc (?st p)"
  define a where "a = A k"
  have k: "k < length SIZE_CLASSES" and pT: "p \<in> ab_tracked a" using tracked_in [OF c p] by (simp_all add: k_def a_def)
  define b where "b = cc_bins c ! k"
  have inv: "bin_inv k b ?st a" using cc_invD(2) [OF c k] by (simp add: a_def b_def)
  note I = bin_invD [OF inv]
  note ok = tracked_okD(3) [OF I(3) pT]
  obtain s' where f: "fold_outcome insert_one ids (0, ?st p) = Ret (0 + (card (free_set s') - card (free_set (?st p))), s')"
    "inserted_ok (?st p) ids s'"
    using insert_batch_fold [OF span_okD(1,3) [OF ok]] by blast
  define n where "n = card (free_set s') - card (free_set (?st p))"
  define s2 where "s2 = (if 0 < n then set_live_count s' (wrapping_sub 32 (sp_live_count s') n) else s')"
  note J = insert_span_ok [OF ok f(2) n_def s2_def]
  note E = same_span_sel [OF J(3)]
  let ?st2 = "?st(p := s2)"
  define b2 where "b2 = (if 0 < n then b\<lparr>total_central_free := wrapping_add 64 (total_central_free b) n\<rparr> else b)"
  have sum: "(\<Sum>q\<in>ab_tracked a. central_free ?st2 q) = (\<Sum>q\<in>ab_tracked a. central_free ?st q) + n"
    using sum_central_free_upd [OF tracked_okD(1) [OF I(3)] pT, of ?st s2] J(2) by (simp add: central_free_def)
  have t2: "tracked_ok k ?st2 (ab_tracked a)" by (rule tracked_upd [OF I(3) J(1)])
  have "wrapping_add 64 (total_central_free b) n = total_central_free b + n"
    using total_bound [OF t2] sum bin_inv_total(1) [OF inv] by (intro wrapping_add_exact) simp
  then have cnt: "counted b2 ?st2 (ab_tracked a)"
    using I(5) sum by (simp add: counted_def b2_def)
  have l: "pl.listed b2 ?st2 (ab_partial a)" "el.listed b2 ?st2 (ab_empty a)"
    using I(1,2) listed_same_next [of s2 ?st p, OF E(5)] by (simp_all add: b2_def)
  have o: "?st2 q = ?st q" if "q \<noteq> p" for q using that by simp
  have oc: "sp_object_count (?st2 p) = sp_object_count (?st p)" using E(3) by simp
  have cf: "central_free ?st2 p = central_free ?st p + n" using J(2) by (simp add: central_free_def)
  obtain b3 st3 where r: "relist_span n p (b2, ?st2) = (\<lparr>ir_inserted = n, ir_span_empty =
        (0 < n \<and> central_free ?st2 p = sp_object_count (?st2 p) \<and> ab_empty a \<noteq> [])\<rparr>, b3, st3)"
    "bin_inv k b3 st3 (relisted ?st2 a p n)" "relinked (ab_tracked a) ?st2 st3"
    by (rule relist_inv [OF l t2 cnt pT I(4) o oc cf])
  define e where "e = (0 < n \<and> central_free ?st2 p = sp_object_count (?st2 p) \<and> ab_empty a \<noteq> [])"
  let ?c = "set_bin k (b3, st3) c"
  have n': "n = card (free_set (cc_spans ?c p)) - card (free_set (?st p))"
    using relinked_sel(3) [OF r(3), of p] by (simp add: n_def s2_def set_live_count_def free_set_def)
  have "insert_batch p indices count c = Ret (\<lparr>ir_inserted = n, ir_span_empty = e\<rparr>, ?c)"
    using cc_get [OF c k] f(1) r(1) span_okD(5) [OF ok]
    unfolding insert_batch_def Let_def ids [symmetric] k_def [symmetric] n_def [symmetric]
    by (simp add: b_def [symmetric] s2_def [symmetric] b2_def [symmetric] e_def)
  moreover have "st3 q = ?st q" if "q \<notin> ab_tracked (A k)" for q
    using relinkedD(1) [OF r(3), of q] that pT by (auto simp: a_def)
  then have "cc_inv ?c (A(k := relisted ?st2 a p n))" by (intro set_bin_inv [OF c k r(2)])
  moreover have "all_tracked (A(k := relisted ?st2 a p n)) = all_tracked A"
    by (rule all_tracked_upd(1) [OF k]) (simp add: relisted_sel a_def)
  moreover have "all_pending (A(k := relisted ?st2 a p n)) = (if e then insert p (all_pending A) else all_pending A)"
    using k by (auto simp: all_pending_def relisted_sel e_def a_def split: if_splits)
  moreover have "free_set (st3 p) = free_set (?st p) \<union> (set ids \<inter> {..<sp_object_count (?st p)})"
    using relinked_sel(3) [OF r(3), of p] J(4) by simp
  moreover have "\<forall>q. q \<noteq> p \<longrightarrow> free_set (st3 q) = free_set (?st q)" using relinked_sel(3) [OF r(3)] by simp
  moreover have "p \<notin> all_pending A" if e
  proof
    assume "p \<in> all_pending A"
    then obtain j where j: "j < length SIZE_CLASSES" "p \<in> ab_pending (A j)" by (auto simp: all_pending_def)
    note jI = cc_invD(2) [OF c j(1)]
    have "p \<in> ab_tracked (A j)" using shelvedD(3) [OF bin_invD(4) [OF jI]] j(2) by blast
    then have "j = k" using tracked_class(1) [OF c j(1)] by (simp add: k_def)
    then have "central_free ?st p = sp_object_count (?st p)" using shelvedD(8) [OF I(4), of p] j(2) by (simp add: a_def)
    then show False using that cf oc by (simp add: e_def)
  qed
  moreover have ocount: "sp_object_count (st3 p) = sp_object_count (?st p)"
    using relinked_sel [OF r(3), of p] oc by simp
  ultimately show ?thesis using that [of ?c e "A(k := relisted ?st2 a p n)"] n' by simp
qed

lemma insert_batch_stale:
  assumes "sp_state (cc_spans c p) \<noteq> SpanActive"
  shows "insert_batch p indices count c = Ret (\<lparr>ir_inserted = 0, ir_span_empty = False\<rparr>, c)"
  using assms by (simp add: insert_batch_def Let_def split: option.splits)

section \<open>Activation and teardown\<close>

text \<open>A descriptor ready to be activated: consistent, active, without live objects.\<close>

definition activatable :: "SpanDescriptor \<Rightarrow> bool" where
  "activatable s \<longleftrightarrow> span_wf s \<and> slab_geometry s \<and> sp_state s = SpanActive \<and> sp_sc s < length SIZE_CLASSES
     \<and> (\<forall>qb. quarantined_bitmap s = Some qb \<longrightarrow> fb_set qb = {})"

lemma activate_quarantine: "activate s n = Ret s' \<Longrightarrow> quarantined_bitmap s' = quarantined_bitmap s"
  unfolding activate_def by (cases "fill_below n (free_bitmap s)") auto

lemma activated_ok:
  assumes "activatable s"
  obtains s' where "activate s (sp_object_count s) = Ret s'" and "span_ok (sp_sc s) s'" and "same_span s s'"
    and "sp_central_free_count s' = sp_object_count s" and "free_set s' = {..<sp_object_count s}"
proof -
  have wf: "span_wf s" using assms by (simp add: activatable_def)
  obtain s' where r: "activate s (sp_object_count s) = Ret s'" "span_wf s'" "free_set s' = {..<sp_object_count s}"
    "sp_live_count s' = 0" "sp_object_count s' = sp_object_count s"
    using activate_wf [OF wf] by blast
  have sm: "same_span s s'" by (rule activate_same [OF r(1)])
  note E = same_span_sel [OF sm]
  have c: "sp_central_free_count s' = sp_object_count s" using r(2,3) by (simp add: span_wf_def)
  have "quarantine_ok s'"
    using assms activate_quarantine [OF r(1)] by (simp add: activatable_def quarantine_ok_def)
  then have "span_ok (sp_sc s) s'"
    using assms r E c by (simp add: span_ok_def activatable_def)
  then show ?thesis using that r(1,3) sm c by blast
qed

lemma activate_span_spec:
  assumes c: "cc_inv c A" and p: "p \<notin> all_tracked A" and s: "activatable (cc_spans c p)"
    and room: "card (all_tracked A) + 1 < 2 ^ 32"
    and r: "activate_span alloc mt pm p c = Ret (Inr (), c', pm', mt')"
  obtains A' where "cc_inv c' A'" and "all_tracked A' = insert p (all_tracked A)" and "all_pending A' = all_pending A"
    and "free_set (cc_spans c' p) = {..<sp_object_count (cc_spans c p)}"
    and "\<forall>q. q \<noteq> p \<longrightarrow> free_set (cc_spans c' q) = free_set (cc_spans c q)"
proof -
  let ?st = "cc_spans c" and ?k = "sp_sc (cc_spans c p)"
  have k: "?k < length SIZE_CLASSES" using s by (simp add: activatable_def)
  note inv = cc_invD(2) [OF c k]
  obtain s' where a: "activate (?st p) (sp_object_count (?st p)) = Ret s'" "span_ok ?k s'" "same_span (?st p) s'"
    "sp_central_free_count s' = sp_object_count (?st p)" "free_set s' = {..<sp_object_count (?st p)}"
    by (rule activated_ok [OF s])
  note E = same_span_sel [OF a(3)]
  have fin: "finite (all_tracked A)"
    unfolding all_tracked_def using tracked_okD(1) [OF bin_invD(3) [OF cc_invD(2) [OF c]]] by auto
  have sub: "ab_tracked (A ?k) \<subseteq> all_tracked A" using k by (auto simp: all_tracked_def)
  then have rm: "card (ab_tracked (A ?k)) + 1 < 2 ^ 32" using card_mono [OF fin sub] room by simp
  have np: "p \<notin> ab_tracked (A ?k)" using p sub by blast
  have cf: "sp_central_free_count s' = sp_object_count s'" using a(4) E(3) by simp
  obtain b1 st1 where q: "push_partial p (cc_bins c ! ?k, ?st(p := s')) = (b1, st1)"
    "bin_inv ?k (b1\<lparr>cb_span_count := wrapping_add 32 (cb_span_count b1) 1,
        total_central_free := wrapping_add 64 (total_central_free b1) (sp_object_count s')\<rparr>) st1
      (A ?k\<lparr>ab_partial := p # ab_partial (A ?k), ab_tracked := insert p (ab_tracked (A ?k))\<rparr>)"
    "relinked {p} (?st(p := s')) st1"
    by (rule activate_inv [OF inv np rm a(2) E(5) cf])
  let ?b = "b1\<lparr>cb_span_count := wrapping_add 32 (cb_span_count b1) 1,
      total_central_free := wrapping_add 64 (total_central_free b1) (sp_object_count (?st p))\<rparr>"
  let ?a = "A ?k\<lparr>ab_partial := p # ab_partial (A ?k), ab_tracked := insert p (ab_tracked (A ?k))\<rparr>"
  have c': "c' = set_bin ?k (?b, st1) c"
  proof (cases "install_span alloc mt pm p s'")
    case (Ret x)
    then show ?thesis
      using r a(1) q(1) cc_get [OF c k]
      by (cases x; cases "fst x"; cases "deactivate s'") (auto simp: activate_span_def Let_def)
  qed (use r a(1) in \<open>simp add: activate_span_def Let_def\<close>)
  have o: "st1 q = ?st q" if "q \<noteq> p" for q using relinkedD(1) [OF q(3), of q] that by simp
  have "cc_inv c' (A(?k := ?a))"
    unfolding c'
  proof (rule set_bin_inv [OF c k])
    show "bin_inv ?k ?b st1 ?a" using q(2) E(3) by simp
    show "st1 q = ?st q" if "q \<in> all_tracked A" for q using o [of q] p that by blast
  qed
  moreover have "all_tracked (A(?k := ?a)) = insert p (all_tracked A)" using k by (auto simp: all_tracked_def split: if_splits)
  moreover have "all_pending (A(?k := ?a)) = all_pending A" by (rule all_tracked_upd(2) [OF k]) simp
  ultimately show ?thesis using that relinked_sel(3) [OF q(3), of p] a(5) o by (simp add: c')
qed

lemma deactivate_total: "span_wf s \<Longrightarrow> \<exists>s'. deactivate s = Ret s' \<and> same_span s s' \<and> free_set s' = {}"
  using deactivate_wf deactivate_same by blast

text \<open>The teardown of a tracked span, shared by the two entry points.\<close>

lemma drop_tracked:
  assumes c: "cc_inv c A" and p: "p \<in> all_tracked A" and s': "deactivate (cc_spans c p) = Ret s'"
  obtains bs A' where "drop_span p (sp_central_free_count (cc_spans c p))
      (cc_bins c ! sp_sc (cc_spans c p), (cc_spans c)(p := s')) = bs"
    and "cc_inv (set_bin (sp_sc (cc_spans c p)) bs c) A'" and "all_tracked A' = all_tracked A - {p}"
    and "all_pending A' = all_pending A - {p}" and "sp_state (snd bs p) = SpanReleased"
    and "\<forall>q. q \<noteq> p \<longrightarrow> free_set (snd bs q) = free_set (cc_spans c q)"
proof -
  let ?st = "cc_spans c" and ?k = "sp_sc (cc_spans c p)"
  have k: "?k < length SIZE_CLASSES" and pT: "p \<in> ab_tracked (A ?k)" using tracked_in [OF c p] by auto
  note inv = cc_invD(2) [OF c k]
  have nx: "central_next s' = central_next (?st p)" by (rule same_span_sel(5) [OF deactivate_same [OF s']])
  obtain b1 st1 where d: "drop_span p (central_free ?st p) (cc_bins c ! ?k, ?st(p := s')) = (b1, st1)"
    "bin_inv ?k b1 st1 (dropped (A ?k) p)"
    "\<forall>q. q \<noteq> p \<longrightarrow> (\<exists>f n. st1 q = (?st q)\<lparr>sp_flags := f, central_next := n\<rparr>) \<and> (q \<notin> ab_tracked (A ?k) \<longrightarrow> st1 q = ?st q)"
    "\<exists>f n. st1 p = (set_state s' SpanReleased)\<lparr>sp_flags := f, central_next := n\<rparr>"
    by (rule drop_span_inv [OF inv pT nx])
  have other: "p \<notin> ab_tracked (A j)" if "j < length SIZE_CLASSES" "j \<noteq> ?k" for j
    using tracked_class(1) [OF c that(1)] that(2) by auto
  have pend: "ab_pending (A j) \<subseteq> ab_tracked (A j)" if "j < length SIZE_CLASSES" for j
    by (rule shelvedD(3) [OF bin_invD(4) [OF cc_invD(2) [OF c that]]])
  have other': "p \<notin> ab_pending (A j)" if "j < length SIZE_CLASSES" "j \<noteq> ?k" for j
    using other [OF that] pend [OF that(1)] by blast
  have "cc_inv (set_bin ?k (b1, st1) c) (A(?k := dropped (A ?k) p))"
    by (rule set_bin_inv [OF c k d(2)]) (use d(3) pT in metis)
  moreover have "all_tracked (A(?k := dropped (A ?k) p)) = all_tracked A - {p}"
    using k other by (auto simp: all_tracked_def dropped_def split: if_splits)
  moreover have "all_pending (A(?k := dropped (A ?k) p)) = all_pending A - {p}"
    using k other' by (auto simp: all_pending_def dropped_def split: if_splits)
  moreover have "sp_state (st1 p) = SpanReleased" using d(4) by (auto simp: set_state_def)
  moreover have "\<forall>q. q \<noteq> p \<longrightarrow> free_set (st1 q) = free_set (?st q)" using d(3) flag_link_sel(3) by metis
  ultimately show ?thesis using that d(1) by (simp add: central_free_def)
qed

lemma fold_outcome_cong:
  "(\<And>x s. x \<in> set xs \<Longrightarrow> f x s = g x s) \<Longrightarrow> fold_outcome f xs s = fold_outcome g xs s"
proof (induction xs arbitrary: s)
  case (Cons x xs)
  then have "f x s = g x s" "fold_outcome f xs = fold_outcome g xs" by auto
  then show ?case by simp
qed simp

section \<open>The self-check\<close>

lemma check_walk_list:
  assumes "slseg st h ps None" and "\<forall>p\<in>set ps. sp_sc (st p) = k \<and> ok (st p) = Ret True"
    and "seen + length ps \<le> count" and "acc + (\<Sum>p\<leftarrow>ps. central_free st p) < 2 ^ 64"
  shows "check_walk ok k count st h seen acc = Ret (Some (seen + length ps, acc + (\<Sum>p\<leftarrow>ps. central_free st p)))"
  using assms
proof (induction ps arbitrary: h seen acc)
  case Nil
  then show ?case by (subst check_walk.simps) simp
next
  case (Cons p ps)
  have "wrapping_add 64 acc (sp_central_free_count (st p)) = acc + central_free st p"
    using Cons.prems(4) by (simp add: wrapping_add_def central_free_def)
  moreover have "check_walk ok k count st (central_next (st p)) (seen + 1) (acc + central_free st p)
      = Ret (Some (seen + 1 + length ps, acc + central_free st p + (\<Sum>p\<leftarrow>ps. central_free st p)))"
    by (rule Cons.IH) (use Cons.prems in simp_all)
  ultimately show ?case using Cons.prems by (subst check_walk.simps) simp
qed

lemma span_ok_checked:
  assumes "span_ok k s"
  shows "check_invariants_locked dbg s = Ret True"
proof -
  note S = span_okD [OF assms]
  have q: "card (fb_set qb) \<le> sp_live_count s \<and> free_set s \<inter> fb_set qb = {}" if "quarantined_bitmap s = Some qb" for qb
  proof -
    have Q: "fb_set qb \<subseteq> {..<sp_object_count s}" "free_set s \<inter> fb_set qb = {}" "free_set s \<subseteq> {..<sp_object_count s}"
      using S(1,3) that by (auto simp: quarantine_ok_def span_wf_def)
    have "card (free_set s \<union> fb_set qb) = card (free_set s) + card (fb_set qb)"
      using Q finite_subset [OF Q(1)] finite_subset [OF Q(3)] by (intro card_Un_disjoint) auto
    moreover have "card (free_set s \<union> fb_set qb) \<le> card {..<sp_object_count s}"
      by (rule card_mono) (use Q in auto)
    ultimately show ?thesis using S(6,7) Q(2) by simp
  qed
  show ?thesis
    unfolding check_invariants_locked_iff [OF S(1)] using S(2,6,7) q by (simp add: slab_geometry_def)
qed

lemma listed_total:
  assumes inv: "bin_inv k b st a"
  shows "total_central_free b = (\<Sum>p\<leftarrow>ab_partial a. central_free st p) + (\<Sum>p\<leftarrow>ab_empty a. central_free st p)
    + (\<Sum>p\<in>ab_pending a. central_free st p)"
proof -
  note I = bin_invD [OF inv] and S = shelvedD [OF bin_invD(4) [OF inv]] and fin = tracked_okD(1) [OF bin_invD(3) [OF inv]]
  let ?L = "set (ab_partial a) \<union> set (ab_empty a) \<union> ab_pending a"
  have sub: "?L \<subseteq> ab_tracked a" using S(1-3) by blast
  have "(\<Sum>p\<in>ab_tracked a. central_free st p) = (\<Sum>p\<in>?L. central_free st p)"
    by (rule sum.mono_neutral_right [OF fin sub]) (use S(9) in blast)
  also have "\<dots> = (\<Sum>p\<in>set (ab_partial a) \<union> set (ab_empty a). central_free st p) + (\<Sum>p\<in>ab_pending a. central_free st p)"
    by (rule sum.union_disjoint) (use S(3,5) fin finite_subset in auto)
  also have "(\<Sum>p\<in>set (ab_partial a) \<union> set (ab_empty a). central_free st p)
      = (\<Sum>p\<in>set (ab_partial a). central_free st p) + (\<Sum>p\<in>set (ab_empty a). central_free st p)"
    by (rule sum.union_disjoint) (use S(4) in auto)
  finally show ?thesis
    using bin_inv_total(1) [OF inv] I(1,2) by (simp add: sum_list_distinct_conv_sum_set pl.listed_def el.listed_def)
qed

lemma bin_check_exact:
  assumes inv: "bin_inv k b st a"
  shows "CentralBin_check_invariants dbg k b st = Ret (ab_pending a = {})"
proof -
  note I = bin_invD [OF inv] and S = shelvedD [OF bin_invD(4) [OF inv]] and T = tracked_okD [OF bin_invD(3) [OF inv]]
  let ?s = "\<lambda>ps. \<Sum>p\<leftarrow>ps. central_free st p"
  have ok: "check_invariants_locked dbg (st p) = Ret True" "sp_sc (st p) = k" if "p \<in> ab_tracked a" for p
    using span_ok_checked [OF T(3) [OF that]] span_okD(4) [OF T(3) [OF that]] by auto
  note tot = listed_total [OF inv] and bound = bin_inv_total(2) [OF inv]
  have l: "slseg st (partial_head b) (ab_partial a) None" "slseg st (empty_head b) (ab_empty a) None"
    "partial_count b = length (ab_partial a)" "empty_count b = length (ab_empty a)" "distinct (ab_partial a)" "distinct (ab_empty a)"
    using I(1,2) by (simp_all add: pl.listed_def el.listed_def)
  have p: "check_walk (partial_span_ok dbg) k (partial_count b) st (partial_head b) 0 0
      = Ret (Some (0 + length (ab_partial a), 0 + ?s (ab_partial a)))"
    by (rule check_walk_list [OF l(1)])
      (use S(1,7) ok tot bound l(3) in \<open>auto simp: partial_span_ok_def central_free_def\<close>)
  have full: "sp_central_free_count (st p) = sp_object_count (st p)" "sp_live_count (st p) = 0" if "p \<in> set (ab_empty a)" for p
    using S(8) [of p] span_okD(6) [OF T(3), of p] S(2) that by (auto simp: central_free_def)
  have e: "check_walk (empty_span_ok dbg) k (empty_count b) st (empty_head b) 0 (?s (ab_partial a))
      = Ret (Some (0 + length (ab_empty a), ?s (ab_partial a) + ?s (ab_empty a)))"
    by (rule check_walk_list [OF l(2)])
      (use S(2) ok full tot bound l(4) in \<open>auto simp: empty_span_ok_def\<close>)
  have "length (ab_partial a) + length (ab_empty a) = card (set (ab_partial a) \<union> set (ab_empty a))"
    using card_Un_disjoint [OF finite_set finite_set S(4)] l(5,6) by (simp add: distinct_card)
  also have "\<dots> \<le> cb_span_count b" using card_mono [OF T(1), of "set (ab_partial a) \<union> set (ab_empty a)"] S(1,2) I(5) by (simp add: counted_def)
  finally have n: "\<not> cb_span_count b < partial_count b + empty_count b" using l(3,4) by simp
  have "(\<Sum>p\<in>ab_pending a. central_free st p) = 0 \<longleftrightarrow> ab_pending a = {}"
  proof
    assume z: "(\<Sum>p\<in>ab_pending a. central_free st p) = 0"
    have "finite (ab_pending a)" using finite_subset [OF S(3) T(1)] .
    with z have "\<forall>p\<in>ab_pending a. central_free st p = 0" by simp
    moreover have "0 < central_free st p" if "p \<in> ab_pending a" for p
      using S(8) [of p] span_okD(9) [OF T(3), of p] S(3) that by auto
    ultimately show "ab_pending a = {}" by fastforce
  qed simp
  then show ?thesis unfolding CentralBin_check_invariants_def using p e n l(3,4) tot by simp
qed

lemma fold_outcome_all:
  "fold_outcome (\<lambda>i ok. if ok then Ret (Q i) else Ret False) xs z = Ret (z \<and> (\<forall>i\<in>set xs. Q i))"
  by (induction xs arbitrary: z) auto

lemma cc_check_exact:
  assumes c: "cc_inv c A"
  shows "CentralCache_check_invariants dbg c = Ret (all_pending A = {})"
proof -
  have "CentralCache_check_invariants dbg c =
      fold_outcome (\<lambda>i ok. if ok then Ret (ab_pending (A i) = {}) else Ret False) [0..<length (cc_bins c)] True"
    unfolding CentralCache_check_invariants_def
    by (rule fold_outcome_cong) (use bin_check_exact [OF cc_invD(2) [OF c]] cc_invD(1) [OF c] in auto)
  also have "\<dots> = Ret (all_pending A = {})"
    unfolding fold_outcome_all using cc_invD(1) [OF c] by (auto simp: all_pending_def)
  finally show ?thesis .
qed

section \<open>Reachable caches\<close>

text \<open>
  The states the callers can produce: \<open>T\<close> are the spans activated and not yet torn down, \<open>P\<close> those
  reported empty and not yet deactivated. A caller inserts into tracked or no longer active spans,
  activates fresh descriptors, tears down tracked ones, and may reuse a descriptor that is not
  tracked. The metadata allocator and the page map are arbitrary.
\<close>

inductive central_reach :: "('m \<Rightarrow> usize \<Rightarrow> usize \<Rightarrow> addr option \<times> 'm) \<Rightarrow> CentralCache \<Rightarrow> addr set \<Rightarrow> addr set \<Rightarrow> bool"
  for alloc where
  start: "central_reach alloc (CentralCache_new st) {} {}"
| remove: "central_reach alloc c T P \<Longrightarrow> remove_batch fs ar k pc desired c = Ret (r, c') \<Longrightarrow> central_reach alloc c' T P"
| put_back: "central_reach alloc c T P \<Longrightarrow> p \<in> T \<or> sp_state (cc_spans c p) \<noteq> SpanActive \<Longrightarrow>
    insert_batch p indices count c = Ret (r, c') \<Longrightarrow>
    central_reach alloc c' T (if ir_span_empty r then insert p P else P)"
| activated: "central_reach alloc c T P \<Longrightarrow> p \<notin> T \<Longrightarrow> activatable (cc_spans c p) \<Longrightarrow> card T + 1 < 2 ^ 32 \<Longrightarrow>
    activate_span alloc mt pm p c = Ret (Inr (), c', pm', mt') \<Longrightarrow> central_reach alloc c' (insert p T) P"
| refused: "central_reach alloc c T P \<Longrightarrow> p \<notin> T \<Longrightarrow>
    activate_span alloc mt pm p c = Ret (Inl e, c', pm', mt') \<Longrightarrow> central_reach alloc c' T P"
| deactivated: "central_reach alloc c T P \<Longrightarrow> p \<in> T \<Longrightarrow>
    deactivate_span p pm c = Ret (c', pm') \<Longrightarrow> central_reach alloc c' (T - {p}) (P - {p})"
| forced: "central_reach alloc c T P \<Longrightarrow> p \<in> T \<Longrightarrow>
    deactivate_span_forced p pm c = Ret (n, c', pm') \<Longrightarrow> central_reach alloc c' (T - {p}) (P - {p})"
| reused: "central_reach alloc c T P \<Longrightarrow> p \<notin> T \<Longrightarrow> central_reach alloc (c\<lparr>cc_spans := (cc_spans c)(p := s)\<rparr>) T P"

lemma central_wfE:
  assumes "central_wf c T P"
  obtains A where "cc_inv c A" and "T = all_tracked A" and "P = all_pending A"
  using assms by (auto simp: central_wf_def)

lemma central_wf_untracked:
  assumes "central_wf c T P" and "p \<notin> T"
  shows "central_wf (c\<lparr>cc_spans := (cc_spans c)(p := s)\<rparr>) T P"
proof -
  obtain A where A: "cc_inv c A" "T = all_tracked A" "P = all_pending A" by (rule central_wfE [OF assms(1)])
  have "bin_inv k (cc_bins c ! k) ((cc_spans c)(p := s)) (A k)" if k: "k < length SIZE_CLASSES" for k
    by (rule bin_inv_frame [OF cc_invD(2) [OF A(1) k]]) (use assms(2) A(2) k in \<open>auto simp: all_tracked_def\<close>)
  then have "cc_inv (c\<lparr>cc_spans := (cc_spans c)(p := s)\<rparr>) A" using cc_invD(1) [OF A(1)] by (simp add: cc_inv_def)
  then show ?thesis using A by (auto simp: central_wf_def)
qed

lemma central_wf_new: "central_wf (CentralCache_new st) {} {}"
proof -
  let ?a = "\<lparr>ab_partial = [], ab_empty = [], ab_tracked = {}, ab_pending = {}\<rparr>"
  have "bin_inv k CentralBin_new st ?a" for k
    by (simp add: bin_inv_def pl.listed_def el.listed_def tracked_ok_def shelved_def counted_def CentralBin_new_def)
  then have "cc_inv (CentralCache_new st) (\<lambda>_. ?a)" by (simp add: cc_inv_def CentralCache_new_def)
  then show ?thesis unfolding central_wf_def by (intro exI [of _ "\<lambda>_. ?a"]) (simp add: all_tracked_def all_pending_def)
qed

lemma activate_span_refused:
  assumes "activate_span alloc mt pm p c = Ret (Inl e, c', pm', mt')"
  shows "\<exists>s. c' = c\<lparr>cc_spans := (cc_spans c)(p := s)\<rparr>"
proof (cases "activate (cc_spans c p) (sp_object_count (cc_spans c p))")
  case a: (Ret s)
  show ?thesis
  proof (cases "install_span alloc mt pm p s")
    case (Ret x)
    then show ?thesis
      using assms a by (cases x; cases "fst x"; cases "deactivate s")
        (auto simp: activate_span_def Let_def split: option.splits prod.splits)
  qed (use assms a in \<open>simp add: activate_span_def Let_def\<close>)
qed (use assms in \<open>simp add: activate_span_def Let_def\<close>)

lemma teardown_wf:
  assumes wf: "central_wf c T P" and p: "p \<in> T"
    and r: "deactivate_span p pm c = Ret (c', pm') \<or> deactivate_span_forced p pm c = Ret (n, c', pm')"
  shows "central_wf c' (T - {p}) (P - {p})"
proof -
  obtain A where A: "cc_inv c A" "T = all_tracked A" "P = all_pending A" by (rule central_wfE [OF wf])
  have pA: "p \<in> all_tracked A" using p A(2) by simp
  note K = tracked_in [OF A(1) pA]
  note ok = tracked_class(2) [OF A(1) K]
  obtain s' where s': "deactivate (cc_spans c p) = Ret s'" using deactivate_total [OF span_okD(1) [OF ok]] by blast
  obtain bs A' where d: "drop_span p (sp_central_free_count (cc_spans c p))
      (cc_bins c ! sp_sc (cc_spans c p), (cc_spans c)(p := s')) = bs"
    "cc_inv (set_bin (sp_sc (cc_spans c p)) bs c) A'" "all_tracked A' = all_tracked A - {p}"
    "all_pending A' = all_pending A - {p}" "sp_state (snd bs p) = SpanReleased"
    "\<forall>q. q \<noteq> p \<longrightarrow> free_set (snd bs q) = free_set (cc_spans c q)"
    by (rule drop_tracked [OF A(1) pA s'])
  have "c' = set_bin (sp_sc (cc_spans c p)) bs c"
    using r cc_get [OF A(1) K(1)] s' d(1) span_okD(5) [OF ok]
    by (cases "release_span p (snd bs p) pm") (auto simp: deactivate_span_def deactivate_span_forced_def Let_def split: if_splits)
  then show ?thesis using d(2-4) A by (auto simp: central_wf_def)
qed

lemma remove_batch_wf:
  assumes wf: "central_wf c T P" and r: "remove_batch fs ar k pc desired c = Ret (r, c')"
  shows "central_wf c' T P"
proof -
  obtain A where A: "cc_inv c A" "T = all_tracked A" "P = all_pending A" by (rule central_wfE [OF wf])
  show ?thesis
  proof (cases "k < length SIZE_CLASSES")
    case True
    show ?thesis
      by (rule remove_batch_spec [OF A(1) True, of fs ar pc desired]) (use r A in \<open>auto simp: central_wf_def\<close>)
  next
    case False
    then show ?thesis using r wf cc_invD(1) [OF A(1)] by (simp add: remove_batch_def get_def)
  qed
qed

lemma insert_batch_wf:
  assumes wf: "central_wf c T P" and p: "p \<in> T \<or> sp_state (cc_spans c p) \<noteq> SpanActive"
    and r: "insert_batch p indices count c = Ret (r, c')"
  shows "central_wf c' T (if ir_span_empty r then insert p P else P)"
proof (cases "sp_state (cc_spans c p) = SpanActive")
  case False
  then show ?thesis using insert_batch_stale [OF False, of indices count] r wf by simp
next
  case True
  obtain A where A: "cc_inv c A" "T = all_tracked A" "P = all_pending A" by (rule central_wfE [OF wf])
  have pA: "p \<in> all_tracked A" using p True A(2) by simp
  obtain e c'' A' where i: "insert_batch p indices count c =
      Ret (\<lparr>ir_inserted = card (free_set (cc_spans c'' p)) - card (free_set (cc_spans c p)), ir_span_empty = e\<rparr>, c'')"
    "cc_inv c'' A'" "all_tracked A' = all_tracked A"
    "all_pending A' = (if e then insert p (all_pending A) else all_pending A)"
    by (rule insert_batch_spec [OF A(1) pA refl])
  have "c' = c''" "ir_span_empty r = e" using r i(1) by auto
  then show ?thesis unfolding central_wf_def using i(2-4) A(2,3) by metis
qed

lemma activate_span_wf:
  assumes wf: "central_wf c T P" and p: "p \<notin> T" and s: "activatable (cc_spans c p)" and room: "card T + 1 < 2 ^ 32"
    and r: "activate_span alloc mt pm p c = Ret (Inr (), c', pm', mt')"
  shows "central_wf c' (insert p T) P"
proof -
  obtain A where A: "cc_inv c A" "T = all_tracked A" "P = all_pending A" by (rule central_wfE [OF wf])
  obtain A' where "cc_inv c' A'" "all_tracked A' = insert p (all_tracked A)" "all_pending A' = all_pending A"
    using activate_span_spec [OF A(1) p [unfolded A(2)] s room [unfolded A(2)] r] by metis
  then show ?thesis using A by (auto simp: central_wf_def)
qed

lemma central_reach_wf: "central_reach alloc c T P \<Longrightarrow> central_wf c T P"
proof (induction rule: central_reach.induct)
  case (start st)
  show ?case by (rule central_wf_new)
next
  case (remove c T P fs ar k pc desired r c')
  show ?case by (rule remove_batch_wf [OF remove.IH remove.hyps(2)])
next
  case (put_back c T P p indices count r c')
  show ?case by (rule insert_batch_wf [OF put_back.IH put_back.hyps(2,3)])
next
  case (activated c T P p mt pm c' pm' mt')
  show ?case by (rule activate_span_wf [OF activated.IH activated.hyps(2-5)])
next
  case (refused c T P p mt pm e c' pm' mt')
  show ?case using activate_span_refused [OF refused.hyps(3)] central_wf_untracked [OF refused.IH refused.hyps(2)] by auto
next
  case (deactivated c T P p pm c' pm')
  show ?case by (rule teardown_wf [OF deactivated.IH deactivated.hyps(2) disjI1 [OF deactivated.hyps(3)]])
next
  case (forced c T P p pm n c' pm')
  show ?case by (rule teardown_wf [OF forced.IH forced.hyps(2) disjI2 [OF forced.hyps(3)]])
next
  case (reused c T P p s)
  show ?case by (rule central_wf_untracked [OF reused.IH reused.hyps(2)])
qed

section \<open>A cache with one span\<close>

lemma SpanDescriptor_new_fields:
  assumes "fst (SpanDescriptor_new hard alloc mt i ar k b pgs n hdr) = Some s"
  shows "sp_state s = SpanActive" "sp_arena s = ar"
  using assms by (auto simp: SpanDescriptor_new_def refresh_integrity_def Let_def split: option.splits prod.splits if_splits)

lemma demo_central:
  obtains c where "central_reach BumpArena_alloc c {8192} {}" and "sp_sc (cc_spans c 8192) = 0"
    and "sp_arena (cc_spans c 8192) = 0" and "free_set (cc_spans c 8192) = {..<4}" and "sp_object_count (cc_spans c 8192) = 4"
proof -
  obtain s where s: "fst (SpanDescriptor_new False BumpArena_alloc (BumpArena_new 4096 4096) 0 0 0 16384 1 4 0) = Some s"
    "span_wf s" "free_set s = {}" "sp_object_count s = 4" "validate_integrity s" "sp_live_count s = 0"
    "sp_base s = 16384" "sp_sc s = 0" "sp_page_count s = 1" "sp_slab_header s = 0" "quarantined_bitmap s = None"
    by (rule demo_new)
  have len: "0 < length SIZE_CLASSES" by (simp add: SIZE_CLASSES_def)
  have act: "activatable s"
    using s slab0 len SpanDescriptor_new_fields [OF s(1)] by (simp add: activatable_def slab_geometry_def PAGE_SIZE_def)
  let ?c = "CentralCache_new (\<lambda>_. s)"
  have sp: "cc_spans ?c = (\<lambda>_. s)" by (simp add: CentralCache_new_def)
  obtain s' where a: "activate s 4 = Ret s'" "same_span s s'" "free_set s' = {..<4}" using activated_ok [OF act] s(4) by metis
  note E = same_span_sel [OF a(2)]
  obtain pm' m' where i: "install_span BumpArena_alloc (BumpArena_new 4096 1048576) (PageMap_new (\<lambda>_ _. 0)) 8192 s'
      = Ret (Inr (), pm', m')" using demo_install [of s'] E s(7,9) by auto
  have b: "get (cc_bins ?c) 0 = Some CentralBin_new" using len by (simp add: CentralCache_new_def get_def)
  obtain c where c: "activate_span BumpArena_alloc (BumpArena_new 4096 1048576) (PageMap_new (\<lambda>_ _. 0)) 8192 ?c
      = Ret (Inr (), c, pm', m')" and s'': "cc_spans c 8192 = s'\<lparr>central_next := None\<rparr>"
    unfolding activate_span_def sp using a(1) i b s(4,8)
    by (simp add: Let_def push_partial_def set_central_next_def set_bin_def CentralBin_new_def)
  have "central_reach BumpArena_alloc c (insert 8192 {}) {}"
    by (rule activated [OF start _ _ _ c]) (use act sp in auto)
  then show thesis
    by (intro that [of c]) (use s'' a(3) E s(4,8) SpanDescriptor_new_fields(2) [OF s(1)] in \<open>simp_all add: free_set_def\<close>)
qed

lemma remove_batch_finds:
  assumes c: "cc_inv c A" and p: "p \<in> all_tracked A" "p \<notin> all_pending A" and fr: "free_set (cc_spans c p) \<noteq> {}"
  defines "k \<equiv> sp_sc (cc_spans c p)"
  shows "p \<in> set (ab_partial (A k)) \<or> p \<in> set (ab_empty (A k))"
proof (rule ccontr)
  assume n: "\<not> ?thesis"
  note K = tracked_in [OF c p(1), folded k_def]
  note wf = span_okD(1) [OF tracked_class(2) [OF c K]]
  have "central_free (cc_spans c) p = 0"
    by (rule shelvedD(9) [OF bin_invD(4) [OF cc_invD(2) [OF c K(1)]]]) (use n K p(2) in \<open>auto simp: all_pending_def\<close>)
  then have "card (free_set (cc_spans c p)) = 0" using wf by (simp add: central_free_def span_wf_def)
  then show False using fr free_set_finite [OF wf] by simp
qed

section \<open>Properties\<close>

text \<open>
  C9. The central cache's own consistency check is exact: in every state its callers can produce it
  neither panics nor misreports. It answers true precisely when no span that was reported empty is
  still waiting for its deactivation.
\<close>

theorem central_self_check:
  assumes "central_reach alloc c T P"
  shows "CentralCache_check_invariants dbg c = Ret (P = {})"
proof -
  obtain A where "cc_inv c A" "P = all_pending A" by (rule central_wfE [OF central_reach_wf [OF assms]])
  then show ?thesis using cc_check_exact by simp
qed

theorem central_self_check_witness:
  "\<exists>c. central_reach BumpArena_alloc c {8192} {} \<and> CentralCache_check_invariants True c = Ret True"
proof -
  obtain c where "central_reach BumpArena_alloc c {8192} {}" by (rule demo_central)
  with central_self_check [OF this, of True] show ?thesis by auto
qed

text \<open>
  C10. Taking a batch from a reachable cache never panics and never hands out an object twice: either
  the answer is \<open>NeedSpan\<close> and no free set changed, or the batch names distinct objects that were free
  in one tracked span of the requested class and arena, at most the desired number and the batch
  limit of them, and exactly these leave exactly that span's free set.
\<close>

theorem central_remove_safe:
  assumes "central_reach alloc c T P"
  shows "\<exists>r c'. remove_batch fs ar k pc desired c = Ret (r, c') \<and>
    (case r of NeedSpan \<Rightarrow> \<forall>p. free_set (cc_spans c' p) = free_set (cc_spans c p)
     | RemoveOk ba \<Rightarrow> ba_span ba \<in> T \<and> handed_out c c' ar k desired ba)"
proof -
  obtain A where A: "cc_inv c A" "T = all_tracked A" by (rule central_wfE [OF central_reach_wf [OF assms]])
  show ?thesis
  proof (cases "k < length SIZE_CLASSES")
    case True
    show ?thesis by (rule remove_batch_spec [OF A(1) True, of fs ar pc desired]) (use A(2) in auto)
  next
    case False
    then show ?thesis using cc_invD(1) [OF A(1)] by (simp add: remove_batch_def get_def)
  qed
qed

theorem central_remove_safe_witness:
  "\<exists>c r c'. central_reach BumpArena_alloc c {8192} {} \<and> remove_batch False 0 0 ANY_PLACE_CLASS 2 c = Ret (r, c') \<and>
    (case r of NeedSpan \<Rightarrow> \<forall>p. free_set (cc_spans c' p) = free_set (cc_spans c p)
     | RemoveOk ba \<Rightarrow> ba_span ba \<in> {8192} \<and> handed_out c c' 0 0 2 ba)"
proof -
  obtain c where "central_reach BumpArena_alloc c {8192} {}" by (rule demo_central)
  with central_remove_safe [OF this, of False 0 0 ANY_PLACE_CLASS 2] show ?thesis by blast
qed



text \<open>
  C12. Returning objects to a tracked span of a reachable cache never panics, frees exactly the named
  objects the span has (out-of-range and already free ones are refused), counts exactly the newly
  freed ones, touches no other span, and reports a span empty at most once. Returning the same
  batch again inserts nothing.
\<close>

theorem central_insert_exact:
  assumes "central_reach alloc c T P" and "p \<in> T"
  shows "\<exists>r c'. insert_batch p indices count c = Ret (r, c') \<and>
    free_set (cc_spans c' p) = free_set (cc_spans c p)
      \<union> (set (take (min count (length indices)) indices) \<inter> {..<sp_object_count (cc_spans c p)}) \<and>
    ir_inserted r = card (free_set (cc_spans c' p)) - card (free_set (cc_spans c p)) \<and>
    (\<forall>q. q \<noteq> p \<longrightarrow> free_set (cc_spans c' q) = free_set (cc_spans c q)) \<and>
    (ir_span_empty r \<longrightarrow> p \<notin> P) \<and>
    (\<exists>r' c''. insert_batch p indices count c' = Ret (r', c'') \<and> ir_inserted r' = 0)"
proof -
  obtain A where A: "cc_inv c A" "T = all_tracked A" "P = all_pending A"
    by (rule central_wfE [OF central_reach_wf [OF assms(1)]])
  have p: "p \<in> all_tracked A" using assms(2) A(2) by simp
  obtain e c' A' where i: "insert_batch p indices count c =
      Ret (\<lparr>ir_inserted = card (free_set (cc_spans c' p)) - card (free_set (cc_spans c p)), ir_span_empty = e\<rparr>, c')"
    "cc_inv c' A'" "all_tracked A' = all_tracked A"
    "free_set (cc_spans c' p) = free_set (cc_spans c p)
      \<union> (set (take (min count (length indices)) indices) \<inter> {..<sp_object_count (cc_spans c p)})"
    "\<forall>q. q \<noteq> p \<longrightarrow> free_set (cc_spans c' q) = free_set (cc_spans c q)" "e \<longrightarrow> p \<notin> all_pending A"
    "sp_object_count (cc_spans c' p) = sp_object_count (cc_spans c p)"
    by (rule insert_batch_spec [OF A(1) p refl])
  have p': "p \<in> all_tracked A'" using p i(3) by simp
  obtain e' c'' where j: "insert_batch p indices count c' =
      Ret (\<lparr>ir_inserted = card (free_set (cc_spans c'' p)) - card (free_set (cc_spans c' p)), ir_span_empty = e'\<rparr>, c'')"
    "free_set (cc_spans c'' p) = free_set (cc_spans c' p)
      \<union> (set (take (min count (length indices)) indices) \<inter> {..<sp_object_count (cc_spans c' p)})"
    by (rule insert_batch_spec [OF i(2) p' refl])
  have "free_set (cc_spans c'' p) = free_set (cc_spans c' p)" unfolding j(2) i(7) i(4) by blast
  with i(1,4-6) j(1) A(3) show ?thesis by auto
qed

theorem central_insert_exact_witness:
  "\<exists>c r c'. central_reach BumpArena_alloc c {8192} {} \<and> insert_batch 8192 [1, 9] 2 c = Ret (r, c') \<and>
    free_set (cc_spans c' 8192) = {..<4} \<and> ir_inserted r = 0"
proof -
  obtain c where c: "central_reach BumpArena_alloc c {8192} {}" "free_set (cc_spans c 8192) = {..<4}"
    "sp_object_count (cc_spans c 8192) = 4" by (rule demo_central)
  have "{..<4} \<union> (set (take (min 2 (length [1, 9])) [1, 9]) \<inter> {..<4}) = {..<4::nat}" by auto
  with central_insert_exact [OF c(1), of 8192 "[1, 9]" 2] c show ?thesis by fastforce
qed

end
