(* ===== verification/Spec2Isabelle.thy ===== *)
theory Spec2Isabelle
  imports PtrClass Arena ExtentMgr_Run Central_Thms
begin

text \<open>
  Verification of the Topomalloc allocator core (Rust, \<open>src/crates/topo-core/src\<close>).

  \<^bold>\<open>The program.\<close> A request is decoded (\<open>flags.rs\<close>) and classified (\<open>classify.rs\<close>, \<open>size_class.rs\<close>,
  with the checked arithmetic of \<open>overflow.rs\<close>). A small request is served from a slab of equal
  objects (\<open>slab.rs\<close>) described by a span descriptor (\<open>span.rs\<close>); the central free list
  (\<open>central.rs\<close>) keeps the spans of each class and hands out batches of objects. The page map
  (\<open>pagemap.rs\<close>) takes an address back to its descriptor, so that \<open>ptr_class.rs\<close> can decide what
  an address given to \<open>free\<close> is. Spans and large allocations are page ranges of an extent map,
  managed over a backing provider (\<open>extent.rs\<close>, \<open>backend.rs\<close>). Metadata comes from a bump
  allocator (\<open>bootstrap.rs\<close>). Arenas (\<open>arena.rs\<close>) partition authority and quota.

  \<^bold>\<open>The model.\<close> Definitions carry the names of the source, prefixed by the type where two types
  share a method name. A struct is a record, an enum a datatype, an array indexed by slot a
  function or a list. An operation that holds its lock throughout is one function on the state;
  a panic is \<^const>\<open>Panic\<close>, an error value \<^const>\<open>Inl\<close> or \<^const>\<open>None\<close>. Numbers are as
  theory \<open>Topo_Prelude\<close> says; arithmetic is that of the release profile, and \<open>debug_assert!\<close> is
  not evaluated. Lock-free loops have a step relation of their own besides the sequential function.
  The correspondence, theory by theory:

  \<^item> \<open>Topo_Prelude\<close>: machine arithmetic, \<open>outcome\<close>, folds that may panic, shared lemmas.
  \<^item> \<open>Overflow\<close> (\<open>overflow.rs\<close>): rounding gives the exact result or \<^const>\<open>None\<close>.
  \<^item> \<open>SizeClasses\<close> (\<open>size_class.rs\<close>, \<open>generated/tables.rs\<close>, \<open>tools/size-class-gen/src/model.rs\<close>):
    every table the generator accepts yields the least sufficient class (locale \<open>size_table\<close>), and
    the shipped table is the one the generator derives.
  \<^item> \<open>Ids\<close>, \<open>Flags\<close>, \<open>Classify\<close>: encodings round-trip; classification is total and sufficient.
  \<^item> \<open>Slab\<close>: objects are in bounds, aligned, disjoint, and found again from their address.
  \<^item> \<open>Bootstrap\<close>: the metadata contract (locale \<open>metadata_alloc\<close>) for the bump arena and its
    wrapper; threads racing in the compare-exchange loop get disjoint blocks.
  \<^item> \<open>Bitmap\<close>, \<open>Span\<close> (\<open>span.rs\<close>): both bitmaps are sets (locale \<open>obj_set\<close>); the guarded operations
    keep count and bitmap in step, and recycling invalidates old handles.
  \<^item> \<open>Pagemap\<close>, \<open>PtrClass\<close>: the radix tree is a finite map, publication is all or nothing, and
    \<open>validate_free\<close> accepts exactly the object bases.
  \<^item> \<open>Arena\<close>: quotas, attenuation of rights, handles, and the table's self-check.
  \<^item> \<open>DList\<close>, \<open>Extent\<close>, \<open>Extent_Rep\<close>, \<open>Extent_Ops\<close>, \<open>Extent_Carve\<close>, \<open>Extent_Inv\<close> (\<open>extent.rs\<close>,
    \<open>ExtentMap\<close>): the three intrusive lists of the slot pool represent a tiling of the region by
    extents; every operation acts on the tiling, and the search finds a fit whenever one exists.
  \<^item> \<open>Backend\<close>, \<open>ExtentMgr\<close>, \<open>ExtentMgr_Inv\<close>, \<open>ExtentMgr_Run\<close> (\<open>backend.rs\<close>, \<open>error.rs\<close>, \<open>extent.rs\<close>,
    \<open>ExtentManager\<close>): for every provider, any sequence of operations keeps the invariant, never
    panics, and a failing operation leaves the live extents alone.
  \<^item> \<open>Central\<close>, \<open>Central_Inv\<close>, \<open>Central_Ops\<close>, \<open>Central_Thms\<close> (\<open>central.rs\<close>): the two span lists of a bin
    (locale \<open>span_list\<close>), the bin invariant, and for every state the callers can reach: batches are
    disjoint and found when they exist, returns are exact, and the self-check is exact.

  This theory joins layout, descriptors, page map and pointer classification.

  \<^bold>\<open>Parameters.\<close> The metadata allocator is the argument \<open>alloc\<close>, constrained where needed by the locale
  \<open>metadata_alloc\<close>; a backing provider is a record of functions of which nothing is assumed; the
  descriptors behind raw pointers are the arguments \<open>span_at\<close> and \<open>large_at\<close>.

  \<^bold>\<open>Bounds and termination.\<close> Counted loops use the code's own bound: \<open>SEQLOCK_RETRIES\<close> rounds of the
  sequence-lock readers, and the list length counters in \<open>unlink_scan\<close> and \<open>find_scan\<close>, which are
  enough because the invariant makes the counter the length of the list. Walks that stop at a
  count of visited nodes have a termination proof. \<open>state_bytes\<close> follows a list without a bound; it is a
  partial function, proved to return on every reachable map.

  \<^bold>\<open>Not modelled.\<close> The integrated allocator (\<open>allocator.rs\<close>) and the layers it composes beyond those
  above: per-CPU and transfer caches, the large-object path, the hugepage backend, release policy,
  hooks, topology and placement, fork and initialisation, hardening that reads object bytes (hence
  the scrubbing insertion and the fill-pattern check of \<open>central.rs\<close>), the C interface, the
  providers themselves, statistics and tools. They are system calls, policy on measured data, or
  compositions of parts outside the model. Weak memory orderings are not modelled: an atomic access
  is a step on one shared state.
\<close>

section \<open>From slab layout through page map to free\<close>

lemma described_bytes:
  assumes "describes s l"
  shows "is_usize (sp_base s + byte_len s)"
proof -
  have "compute (sp_sc s) (sp_base s) (sp_slab_header s) = Some l" "byte_len s = l_slab_bytes l"
    using assms by (simp_all add: describes_def)
  then show ?thesis using compute_row(6) by simp
qed

text \<open>
  C2. The life of a span as \<open>free\<close> sees it. Once a live descriptor is installed over empty
  pages, an address of the span is accepted as object \<open>i\<close> exactly when the slab layout puts
  object \<open>i\<close> there; once the span is retired, no address of it is accepted.
\<close>

theorem span_free_lifecycle:
  assumes "metadata_alloc alloc owned ok" and "ok m" and "pm_inv pm (owned m)"
    and "8 dvd sp" and "is_usize sp" and "describes s l" and "span_at sp = s" and "sp_base s \<noteq> 0"
    and "\<forall>p\<in>set (page_range (sp_base s) (sp_base s + byte_len s)). page_word pm p = TAG_EMPTY"
    and "install_span alloc m pm sp s = Ret (Inr (), pm', m')"
  shows "(\<forall>a i. sp_base s \<le> a \<and> a < sp_base s + byte_len s \<longrightarrow>
           (validate_free dbg span_at large_at pm' region a = Ret (Inr (FreeSmall sp i))
              \<longleftrightarrow> object_addr l i = Some a))
    \<and> (\<exists>pm''. retire_span s pm' = Ret pm''
         \<and> (\<forall>a. sp_base s \<le> a \<and> a < sp_base s + byte_len s \<longrightarrow>
              validate_free dbg span_at large_at pm'' region a
                = Ret (Inl (if region a then IfMetadata else Foreign))))"
proof -
  have u: "is_usize (sp_base s + byte_len s)" by (rule described_bytes [OF assms(6)])
  note w = install_span_words [OF assms(1-3) u assms(9,10)]
  have l: "lookup pm' a = Ret (Small sp)" if "sp_base s \<le> a" "a < sp_base s + byte_len s" for a
  proof -
    have "is_usize a" using that u by simp
    then show ?thesis
      using w(2) [OF page_of_page, of a] page_range_mem [OF that] PageEntry_roundtrip(1) [OF assms(4,5)]
      by (simp add: lookup_eq)
  qed
  have c: "compute (sp_sc s) (sp_base s) (sp_slab_header s) = Some l"
    using assms(6) by (simp add: describes_def)
  have f: "validate_free dbg span_at large_at pm' region a = Ret (Inr (FreeSmall sp i))
      \<longleftrightarrow> object_addr l i = Some a" if a: "sp_base s \<le> a" "a < sp_base s + byte_len s" for a i
  proof -
    have "a \<noteq> 0" using a(1) assms(8) by simp
    then show ?thesis
      using l [OF a] classify_in_span_described [of span_at sp l dbg a] a(1) assms(6,7)
        addr_to_index_iff [OF compute_layout_ok [OF c], of a i]
      by (auto simp: validate_free_def classify_ptr_def split: option.splits if_splits)
  qed
  obtain pm'' where r: "retire_span s pm' = Ret pm''"
    "\<forall>a. sp_base s \<le> a \<longrightarrow> a < sp_base s + byte_len s \<longrightarrow> lookup pm'' a = Ret Empty"
    using retire_span_lookup [OF w(1) u] by blast
  have "validate_free dbg span_at large_at pm'' region a
      = Ret (Inl (if region a then IfMetadata else Foreign))"
    if a: "sp_base s \<le> a" "a < sp_base s + byte_len s" for a
    using r(2) a assms(8) by (auto simp: validate_free_def classify_ptr_def)
  with f r(1) show ?thesis by blast
qed

theorem span_free_lifecycle_witness:
  "\<exists>s pm' m' pm''. install_span BumpArena_alloc (BumpArena_new 4096 1048576) (PageMap_new (\<lambda>_ _. 0)) 8192 s
       = Ret (Inr (), pm', m')
     \<and> (\<forall>large_at. validate_free True (\<lambda>_. s) large_at pm' NoMetadata_contains 16400
            = Ret (Inr (FreeSmall 8192 1)))
     \<and> retire_span s pm' = Ret pm''"
proof -
  obtain s where s: "describes s demo_layout" "sp_base s = 16384" "sp_page_count s = 1"
    using demo_described by metis
  obtain pm' m' where i: "install_span BumpArena_alloc (BumpArena_new 4096 1048576)
      (PageMap_new (\<lambda>_ _. 0)) 8192 s = Ret (Inr (), pm', m')" using demo_install s(2,3) by blast
  have b: "byte_len s = 16384" using s(3) by (simp add: byte_len_def PAGE_SIZE_def)
  have o: "object_addr demo_layout 1 = Some 16400"
    by (simp add: object_addr_def checked_mul_def checked_add_def USIZE_MAX_def)
  have t: "validate_free True (\<lambda>_. s) large_at pm' NoMetadata_contains 16400 = Ret (Inr (FreeSmall 8192 1))
      \<and> (\<exists>pm''. retire_span s pm' = Ret pm'')" for large_at
    using span_free_lifecycle [of BumpArena_alloc bump_owned bump_inv "BumpArena_new 4096 1048576"
        "PageMap_new (\<lambda>_ _. 0)" 8192 s demo_layout "\<lambda>_. s" pm' m' True large_at NoMetadata_contains]
      bump.metadata_alloc_axioms demo_bump pm_inv_new s(1,2) i o b by (auto simp: page_word_new)
  then obtain pm'' where "retire_span s pm' = Ret pm''" by blast
  with t i show ?thesis by blast
qed

end
